(* ===== verification/Prelude.thy ===== *)
theory Prelude
  imports Main "HOL-Library.Word" "HOL-Library.Multiset"
begin

unbundle bit_operations_syntax

text \<open>
  Shared vocabulary of the development: the C integer conversions the kernel relies on,
  the error numbers of \<^verbatim>\<open>lib/libc/minimal/include/errno.h\<close>, flag words, and the generic
  list lemmas (ordered insertion, removal, circular indexing) that several components use.

  C integers are modelled as follows.  Counters, ticks and priorities are \<^typ>\<open>int\<close>, and every
  conversion or unsigned operation that can wrap is written out with one of the cast
  functions below.  Bit sets (thread states, event masks, occupancy bitmaps) are machine
  words.
\<close>

section \<open>Collections of the development\<close>

named_theorems c_casts \<open>facts about the C integer conversions\<close>
named_theorems state_defs \<open>definitions of the thread-state helpers\<close>
named_theorems frame_simps \<open>what an operation leaves unchanged\<close>

section \<open>C integer conversions\<close>

definition u8 :: "int \<Rightarrow> int" where "u8 x = x mod 2 ^ 8"
definition u16 :: "int \<Rightarrow> int" where "u16 x = x mod 2 ^ 16"
definition u32 :: "int \<Rightarrow> int" where "u32 x = x mod 2 ^ 32"
definition u64 :: "int \<Rightarrow> int" where "u64 x = x mod 2 ^ 64"
definition s8 :: "int \<Rightarrow> int" where "s8 x = (x + 2 ^ 7) mod 2 ^ 8 - 2 ^ 7"
definition s32 :: "int \<Rightarrow> int" where "s32 x = (x + 2 ^ 31) mod 2 ^ 32 - 2 ^ 31"
definition s64 :: "int \<Rightarrow> int" where "s64 x = (x + 2 ^ 63) mod 2 ^ 64 - 2 ^ 63"

abbreviation INT32_MAX :: int where "INT32_MAX \<equiv> 2147483647"
abbreviation UINT32_MAX :: int where "UINT32_MAX \<equiv> 4294967295"
abbreviation INT64_MAX :: int where "INT64_MAX \<equiv> 9223372036854775807"
abbreviation UINT64_MAX :: int where "UINT64_MAX \<equiv> 18446744073709551615"

lemma u32_id [c_casts]: "0 \<le> x \<Longrightarrow> x < 2 ^ 32 \<Longrightarrow> u32 x = x"
  by (simp add: u32_def)

lemma u64_id [c_casts]: "0 \<le> x \<Longrightarrow> x < 2 ^ 64 \<Longrightarrow> u64 x = x"
  by (simp add: u64_def)

lemma s32_id [c_casts]: "- (2 ^ 31) \<le> x \<Longrightarrow> x < 2 ^ 31 \<Longrightarrow> s32 x = x"
  by (simp add: s32_def)

lemma s64_id [c_casts]: "- (2 ^ 63) \<le> x \<Longrightarrow> x < 2 ^ 63 \<Longrightarrow> s64 x = x"
  by (simp add: s64_def)

lemma s8_id [c_casts]: "- (2 ^ 7) \<le> x \<Longrightarrow> x < 2 ^ 7 \<Longrightarrow> s8 x = x"
  by (simp add: s8_def)

lemma u8_id [c_casts]: "0 \<le> x \<Longrightarrow> x < 2 ^ 8 \<Longrightarrow> u8 x = x"
  by (simp add: u8_def)

lemma u8_range [simp]: "0 \<le> u8 x" "u8 x < 2 ^ 8"
  by (simp_all add: u8_def)

lemma s8_range: "- (2 ^ 7) \<le> s8 x" "s8 x < 2 ^ 7"
  using pos_mod_bound [of "2 ^ 8" "x + 2 ^ 7"] by (simp_all add: s8_def)

lemma u32_range [simp]: "0 \<le> u32 x" "u32 x < 2 ^ 32"
  by (simp_all add: u32_def)

lemma u64_range [simp]: "0 \<le> u64 x" "u64 x < 2 ^ 64"
  by (simp_all add: u64_def)

lemma s32_range: "- (2 ^ 31) \<le> s32 x" "s32 x < 2 ^ 31"
  using pos_mod_bound [of "2 ^ 32" "x + 2 ^ 31"] by (simp_all add: s32_def)

lemma s64_range: "- (2 ^ 63) \<le> s64 x" "s64 x < 2 ^ 63"
  using pos_mod_bound [of "2 ^ 64" "x + 2 ^ 63"] by (simp_all add: s64_def)

section \<open>Error numbers\<close>

definition EPERM :: int where "EPERM = 1"
definition EAGAIN :: int where "EAGAIN = 11"
definition ENOMEM :: int where "ENOMEM = 12"
definition EBUSY :: int where "EBUSY = 16"
definition EINVAL :: int where "EINVAL = 22"
definition EPIPE :: int where "EPIPE = 32"
definition ENOMSG :: int where "ENOMSG = 35"
definition EDEADLK :: int where "EDEADLK = 45"
definition EMSGSIZE :: int where "EMSGSIZE = 122"
definition EALREADY :: int where "EALREADY = 120"
definition ECANCELED :: int where "ECANCELED = 140"

lemmas errno_defs = EPERM_def EAGAIN_def ENOMEM_def EBUSY_def EINVAL_def EPIPE_def
  ENOMSG_def EDEADLK_def EMSGSIZE_def EALREADY_def ECANCELED_def

section \<open>Flag words\<close>

text \<open>Testing, setting and clearing one flag bit, read through \<^const>\<open>bit\<close>.\<close>

lemma and_flag_iff:
  fixes w :: "'a::len word"
  shows "w AND 2 ^ n \<noteq> 0 \<longleftrightarrow> bit w n"
  by (simp add: and_exp_eq_0_iff_not_bit)

lemma bit_or_flag:
  fixes w :: "'a::len word"
  shows "n < LENGTH('a) \<Longrightarrow> bit (w OR 2 ^ n) m \<longleftrightarrow> bit w m \<or> m = n"
  by (auto simp: bit_or_iff bit_exp_iff)

lemma bit_and_not_flag:
  fixes w :: "'a::len word"
  shows "bit (w AND NOT (2 ^ n)) m \<longleftrightarrow> bit w m \<and> m \<noteq> n"
  by (auto simp: bit_and_iff bit_not_iff bit_exp_iff dest: bit_imp_le_length)

section \<open>Ordered insertion\<close>

text \<open>
  The insertion loop the kernel writes over its doubly linked lists
  (\<^verbatim>\<open>SYS_DLIST_FOR_EACH_CONTAINER\<close> with \<^verbatim>\<open>sys_dlist_insert\<close> before the first element that
  satisfies a condition, \<^verbatim>\<open>sys_dlist_append\<close> when there is none).
\<close>

fun insert_before :: "('a \<Rightarrow> bool) \<Rightarrow> 'a \<Rightarrow> 'a list \<Rightarrow> 'a list" where
  "insert_before p x [] = [x]"
| "insert_before p x (y # ys) = (if p y then x # y # ys else y # insert_before p x ys)"

lemma set_insert_before [simp]: "set (insert_before p x ys) = insert x (set ys)"
  by (induction ys) auto

lemma length_insert_before [simp]: "length (insert_before p x ys) = Suc (length ys)"
  by (induction ys) auto

lemma distinct_insert_before [simp]:
  "distinct (insert_before p x ys) \<longleftrightarrow> x \<notin> set ys \<and> distinct ys"
  by (induction ys) auto

lemma insert_before_takeWhile:
  "insert_before p x ys = takeWhile (\<lambda>y. \<not> p y) ys @ x # dropWhile (\<lambda>y. \<not> p y) ys"
  by (induction ys) auto

lemma insert_before_cong:
  "(\<And>y. y \<in> set ys \<Longrightarrow> p y = q y) \<Longrightarrow> insert_before p x ys = insert_before q x ys"
  by (induction ys) auto

lemma insert_before_neq_Nil [simp]: "insert_before p x ys \<noteq> []"
  by (cases ys) auto

text \<open>Insertion behind every key that is less or equal keeps the list sorted by key.\<close>

lemma sorted_insert_before:
  fixes key :: "'a \<Rightarrow> 'b::linorder"
  assumes "sorted_wrt (\<lambda>a b. key a \<le> key b) ys"
  shows "sorted_wrt (\<lambda>a b. key a \<le> key b) (insert_before (\<lambda>y. key x < key y) x ys)"
  using assms by (induction ys) (auto intro: order.trans less_imp_le)

lemma sorted_wrt_remove1: "sorted_wrt r xs \<Longrightarrow> sorted_wrt r (remove1 x xs)"
proof (induction xs)
  case (Cons a xs)
  then show ?case using set_remove1_subset [of x xs] by auto
qed simp

lemma sorted_wrt_key_cong:
  "(\<And>x. x \<in> set xs \<Longrightarrow> k x = k' x) \<Longrightarrow>
   sorted_wrt (\<lambda>a b. r (k a) (k b)) xs = sorted_wrt (\<lambda>a b. r (k' a) (k' b)) xs"
  by (induction xs) auto

lemma length_remove1_less: "x \<in> set xs \<Longrightarrow> length (remove1 x xs) < length xs"
  by (induction xs) auto

lemma remove1_insert_before: "x \<notin> set ys \<Longrightarrow> remove1 x (insert_before p x ys) = ys"
  by (induction ys) auto

text \<open>
  Insertion behind the elements of an equal key is stable: elements inserted one after the
  other end up in the order of \<^const>\<open>sort_key\<close>, that is by key and, for one key, in the
  order of their insertion.
\<close>

lemma filter_insert_before:
  assumes "sorted_wrt (\<lambda>a b. key a \<le> key b) ys"
  shows "filter (\<lambda>y. key y = (k :: 'b::linorder)) (insert_before (\<lambda>y. key x < key y) x ys) =
    filter (\<lambda>y. key y = k) ys @ (if key x = k then [x] else [])"
  using assms
proof (induction ys)
  case (Cons y ys)
  have "filter (\<lambda>z. key z = key x) ys = []" if "key x < key y"
    using Cons.prems that by (fastforce simp: filter_empty_conv)
  with Cons show ?case by auto
qed simp

lemma fold_insert_before_sorted:
  fixes key :: "'a \<Rightarrow> 'b::linorder"
  assumes "sorted_wrt (\<lambda>a b. key a \<le> key b) ys"
  shows "fold (\<lambda>x. insert_before (\<lambda>y. key x < key y) x) xs ys = sort_key key (ys @ xs)"
proof -
  let ?ins = "\<lambda>x. insert_before (\<lambda>y. key x < key y) x"
  have "sorted_wrt (\<lambda>a b. key a \<le> key b) (fold ?ins xs ys) \<and>
      mset (fold ?ins xs ys) = mset ys + mset xs \<and>
      (\<forall>k. filter (\<lambda>y. key y = k) (fold ?ins xs ys) = filter (\<lambda>y. key y = k) (ys @ xs))"
    using assms
  proof (induction xs arbitrary: ys)
    case (Cons x xs)
    have "mset (?ins x ys) = add_mset x (mset ys)" by (induction ys) auto
    with Cons.IH [of "?ins x ys"] Cons.prems show ?case
      by (simp add: sorted_insert_before filter_insert_before)
  qed simp
  then show ?thesis
    by (intro properties_for_sort_key [symmetric]) (auto simp: sorted_map eq_commute)
qed

lemma map_of_insert_before:
  "fst p \<notin> fst ` set xs \<Longrightarrow> map_of (insert_before c p xs) = (map_of xs)(fst p \<mapsto> snd p)"
  by (induction xs) (auto simp: fun_upd_twist)

lemma map_of_filter_fst: "map_of (filter (\<lambda>p. fst p \<noteq> k) xs) = (map_of xs)(k := None)"
  by (induction xs) auto

section \<open>Byte memory\<close>

text \<open>Copying between disjoint areas of a memory of bytes, and the bytes of an area.\<close>

type_synonym bmem = "nat \<Rightarrow> 8 word"

definition memcpy :: "nat \<Rightarrow> nat \<Rightarrow> nat \<Rightarrow> bmem \<Rightarrow> bmem" where
  "memcpy dst src n mm = (\<lambda>a. if dst \<le> a \<and> a < dst + n then mm (src + (a - dst)) else mm a)"

definition bytes :: "nat \<Rightarrow> nat \<Rightarrow> bmem \<Rightarrow> 8 word list" where
  "bytes a n mm = map mm [a..<a + n]"

lemma bytes_memcpy_same [simp]: "bytes d n (memcpy d s n mm) = bytes s n mm"
  by (rule nth_equalityI) (simp_all add: bytes_def memcpy_def)

lemma bytes_memcpy_other: "a + k \<le> d \<or> d + n \<le> a \<Longrightarrow> bytes a k (memcpy d s n mm) = bytes a k mm"
  by (rule nth_equalityI) (auto simp: bytes_def memcpy_def)

lemma length_bytes [simp]: "length (bytes a n mm) = n"
  by (simp add: bytes_def)

end
