(* ===== verification/Sys_Dlist.thy ===== *)
theory Sys_Dlist
  imports Prelude
begin

text \<open>
  The intrusive doubly linked list of \<^verbatim>\<open>include/zephyr/sys/dlist.h\<close>, on an explicit heap.
  A node is an address; \<^term>\<open>0\<close> is \<^verbatim>\<open>NULL\<close>.  The two unions of \<^verbatim>\<open>struct _dnode\<close> are the two
  fields \<open>nxt\<close> (next, head) and \<open>prv\<close> (prev, tail) of the heap.  A list with header \<open>l\<close> and
  nodes \<open>xs\<close> is the circular chain \<open>is_dlist h l xs\<close>.  Every operation of the header file
  is translated, and each is shown to act on \<open>xs\<close> as the corresponding list operation;
  the locale \<open>node_list\<close> states that contract for the clients, which treat kernel queues as
  HOL lists.
\<close>

section \<open>Nodes, the heap and the operations\<close>

type_synonym ptr = nat

abbreviation NULL :: ptr where "NULL \<equiv> 0"

record dheap =
  nxt :: "ptr \<Rightarrow> ptr"
  prv :: "ptr \<Rightarrow> ptr"

definition set_nxt :: "ptr \<Rightarrow> ptr \<Rightarrow> dheap \<Rightarrow> dheap" where
  "set_nxt a v h = h\<lparr>nxt := (nxt h)(a := v)\<rparr>"

definition set_prv :: "ptr \<Rightarrow> ptr \<Rightarrow> dheap \<Rightarrow> dheap" where
  "set_prv a v h = h\<lparr>prv := (prv h)(a := v)\<rparr>"

definition sys_dlist_init :: "ptr \<Rightarrow> dheap \<Rightarrow> dheap" where
  "sys_dlist_init l h = set_prv l l (set_nxt l l h)"

definition sys_dnode_init :: "ptr \<Rightarrow> dheap \<Rightarrow> dheap" where
  "sys_dnode_init n h = set_prv n NULL (set_nxt n NULL h)"

definition sys_dnode_is_linked :: "ptr \<Rightarrow> dheap \<Rightarrow> bool" where
  "sys_dnode_is_linked n h \<longleftrightarrow> nxt h n \<noteq> NULL"

definition sys_dlist_is_head :: "ptr \<Rightarrow> ptr \<Rightarrow> dheap \<Rightarrow> bool" where
  "sys_dlist_is_head l n h \<longleftrightarrow> nxt h l = n"

definition sys_dlist_is_tail :: "ptr \<Rightarrow> ptr \<Rightarrow> dheap \<Rightarrow> bool" where
  "sys_dlist_is_tail l n h \<longleftrightarrow> prv h l = n"

definition sys_dlist_is_empty :: "ptr \<Rightarrow> dheap \<Rightarrow> bool" where
  "sys_dlist_is_empty l h \<longleftrightarrow> nxt h l = l"

definition sys_dlist_has_multiple_nodes :: "ptr \<Rightarrow> dheap \<Rightarrow> bool" where
  "sys_dlist_has_multiple_nodes l h \<longleftrightarrow> nxt h l \<noteq> prv h l"

definition sys_dlist_peek_head :: "ptr \<Rightarrow> dheap \<Rightarrow> ptr" where
  "sys_dlist_peek_head l h = (if sys_dlist_is_empty l h then NULL else nxt h l)"

definition sys_dlist_peek_head_not_empty :: "ptr \<Rightarrow> dheap \<Rightarrow> ptr" where
  "sys_dlist_peek_head_not_empty l h = nxt h l"

definition sys_dlist_peek_next_no_check :: "ptr \<Rightarrow> ptr \<Rightarrow> dheap \<Rightarrow> ptr" where
  "sys_dlist_peek_next_no_check l n h = (if n = prv h l then NULL else nxt h n)"

definition sys_dlist_peek_next :: "ptr \<Rightarrow> ptr \<Rightarrow> dheap \<Rightarrow> ptr" where
  "sys_dlist_peek_next l n h = (if n \<noteq> NULL then sys_dlist_peek_next_no_check l n h else NULL)"

definition sys_dlist_peek_prev_no_check :: "ptr \<Rightarrow> ptr \<Rightarrow> dheap \<Rightarrow> ptr" where
  "sys_dlist_peek_prev_no_check l n h = (if n = nxt h l then NULL else prv h n)"

definition sys_dlist_peek_prev :: "ptr \<Rightarrow> ptr \<Rightarrow> dheap \<Rightarrow> ptr" where
  "sys_dlist_peek_prev l n h = (if n \<noteq> NULL then sys_dlist_peek_prev_no_check l n h else NULL)"

definition sys_dlist_peek_tail :: "ptr \<Rightarrow> dheap \<Rightarrow> ptr" where
  "sys_dlist_peek_tail l h = (if sys_dlist_is_empty l h then NULL else prv h l)"

definition sys_dlist_append :: "ptr \<Rightarrow> ptr \<Rightarrow> dheap \<Rightarrow> dheap" where
  "sys_dlist_append l n h =
     (let tail = prv h l;
          h1 = set_nxt n l h;
          h2 = set_prv n tail h1;
          h3 = set_nxt tail n h2
      in set_prv l n h3)"

definition sys_dlist_prepend :: "ptr \<Rightarrow> ptr \<Rightarrow> dheap \<Rightarrow> dheap" where
  "sys_dlist_prepend l n h =
     (let head = nxt h l;
          h1 = set_nxt n head h;
          h2 = set_prv n l h1;
          h3 = set_prv head n h2
      in set_nxt l n h3)"

definition sys_dlist_insert :: "ptr \<Rightarrow> ptr \<Rightarrow> dheap \<Rightarrow> dheap" where
  "sys_dlist_insert successor n h =
     (let prev = prv h successor;
          h1 = set_prv n prev h;
          h2 = set_nxt n successor h1;
          h3 = set_nxt prev n h2
      in set_prv successor n h3)"

definition sys_dlist_dequeue :: "ptr \<Rightarrow> dheap \<Rightarrow> dheap" where
  "sys_dlist_dequeue n h =
     (let prev = prv h n; succ = nxt h n
      in set_prv succ prev (set_nxt prev succ h))"

definition sys_dlist_remove :: "ptr \<Rightarrow> dheap \<Rightarrow> dheap" where
  "sys_dlist_remove n h =
     (let prev = prv h n; succ = nxt h n;
          h1 = set_prv succ prev (set_nxt prev succ h)
      in sys_dnode_init n h1)"

definition sys_dlist_range_prepend :: "ptr \<Rightarrow> ptr \<Rightarrow> ptr \<Rightarrow> dheap \<Rightarrow> dheap" where
  "sys_dlist_range_prepend dest start lst h =
     (let head = nxt h dest; prev = prv h start; succ = nxt h lst;
          h1 = set_nxt prev succ h;
          h2 = set_prv succ prev h1;
          h3 = set_nxt lst head h2;
          h4 = set_prv start dest h3;
          h5 = set_prv head lst h4
      in set_nxt dest start h5)"

definition sys_dlist_range_append :: "ptr \<Rightarrow> ptr \<Rightarrow> ptr \<Rightarrow> dheap \<Rightarrow> dheap" where
  "sys_dlist_range_append dest start lst h =
     (let tail = prv h dest; prev = prv h start; succ = nxt h lst;
          h1 = set_nxt prev succ h;
          h2 = set_prv succ prev h1;
          h3 = set_nxt lst dest h2;
          h4 = set_prv start tail h3;
          h5 = set_nxt tail start h4
      in set_prv dest lst h5)"

definition sys_dlist_get :: "ptr \<Rightarrow> dheap \<Rightarrow> ptr \<times> dheap" where
  "sys_dlist_get l h =
     (if \<not> sys_dlist_is_empty l h
      then (let n = nxt h l in (n, sys_dlist_remove n h))
      else (NULL, h))"

text \<open>The two loops: a walk that never comes back to the header does not return.\<close>

partial_function (option) dlist_find :: "(ptr \<Rightarrow> bool) \<Rightarrow> ptr \<Rightarrow> dheap \<Rightarrow> ptr \<Rightarrow> ptr option" where
  "dlist_find cond l h pos =
     (if pos \<noteq> NULL \<and> \<not> cond pos then dlist_find cond l h (sys_dlist_peek_next l pos h)
      else Some pos)"

definition sys_dlist_insert_at :: "ptr \<Rightarrow> ptr \<Rightarrow> (ptr \<Rightarrow> bool) \<Rightarrow> dheap \<Rightarrow> dheap option" where
  "sys_dlist_insert_at l n cond h =
     (if sys_dlist_is_empty l h then Some (sys_dlist_append l n h)
      else (case dlist_find cond l h (sys_dlist_peek_head l h) of
              None \<Rightarrow> None
            | Some pos \<Rightarrow> Some (if pos \<noteq> NULL then sys_dlist_insert pos n h
                               else sys_dlist_append l n h)))"

partial_function (option) dlist_count :: "ptr \<Rightarrow> dheap \<Rightarrow> ptr \<Rightarrow> nat \<Rightarrow> nat option" where
  "dlist_count l h n len =
     (if n \<noteq> NULL then dlist_count l h (sys_dlist_peek_next l n h) (Suc len) else Some len)"

definition sys_dlist_len :: "ptr \<Rightarrow> dheap \<Rightarrow> nat option" where
  "sys_dlist_len l h = dlist_count l h (sys_dlist_peek_head l h) 0"

lemmas dlist_heap_defs = set_nxt_def set_prv_def

lemmas dlist_op_defs = sys_dlist_init_def sys_dnode_init_def sys_dnode_is_linked_def
  sys_dlist_is_head_def sys_dlist_is_tail_def
  sys_dlist_is_empty_def sys_dlist_has_multiple_nodes_def sys_dlist_peek_head_def
  sys_dlist_peek_head_not_empty_def sys_dlist_peek_next_no_check_def sys_dlist_peek_next_def
  sys_dlist_peek_prev_no_check_def sys_dlist_peek_prev_def sys_dlist_peek_tail_def

section \<open>Abstraction to lists\<close>

fun dseg :: "dheap \<Rightarrow> ptr \<Rightarrow> ptr list \<Rightarrow> ptr \<Rightarrow> bool" where
  "dseg h a [] b \<longleftrightarrow> nxt h a = b \<and> prv h b = a"
| "dseg h a (x # xs) b \<longleftrightarrow> nxt h a = x \<and> prv h x = a \<and> dseg h x xs b"

definition is_dlist :: "dheap \<Rightarrow> ptr \<Rightarrow> ptr list \<Rightarrow> bool" where
  "is_dlist h l xs \<longleftrightarrow> NULL \<notin> set (l # xs) \<and> distinct (l # xs) \<and> dseg h l xs l"

lemma dseg_append: "dseg h a (xs @ y # ys) b \<longleftrightarrow> dseg h a xs y \<and> dseg h y ys b"
  by (induction xs arbitrary: a) auto

lemma dseg_first: "dseg h a xs b \<Longrightarrow> nxt h a = hd (xs @ [b])"
  by (cases xs) auto

lemma dseg_last: "dseg h a xs b \<Longrightarrow> prv h b = last (a # xs)"
  by (induction xs arbitrary: a) auto

text \<open>
  A segment depends on \<open>nxt\<close> of its nodes but the end, and on \<open>prv\<close> of its nodes but the
  start.
\<close>

lemma dseg_cong:
  assumes "\<And>x. x \<in> set (a # xs) \<Longrightarrow> nxt h x = nxt h' x"
    and "\<And>x. x \<in> set (xs @ [b]) \<Longrightarrow> prv h x = prv h' x"
  shows "dseg h a xs b = dseg h' a xs b"
  using assms by (induction xs arbitrary: a) auto

lemma dseg_upd:
  assumes "a' \<notin> set (a # xs)" and "b' \<notin> set (xs @ [b])"
  shows "dseg (set_nxt a' v h) a xs b = dseg h a xs b"
    and "dseg (set_prv b' w h) a xs b = dseg h a xs b"
  using assms by (auto intro!: dseg_cong simp: dlist_heap_defs)

text \<open>Inserting behind the last node of a segment, and unlinking it again.\<close>

lemma dseg_link:
  assumes "dseg h a xs b" and "distinct (a # xs)" and "n \<notin> set (a # xs)"
    and "b \<notin> set xs" and "n \<noteq> b"
  shows "dseg (set_prv b n (set_nxt (last (a # xs)) n
          (set_nxt n b (set_prv n (last (a # xs)) h)))) a (xs @ [n]) b"
proof (cases xs rule: rev_cases)
  case Nil
  with assms show ?thesis by (auto simp: dlist_heap_defs)
next
  case (snoc ys t)
  with assms have "dseg h a ys t" by (simp add: dseg_append)
  then have "dseg (set_prv b n (set_nxt t n (set_nxt n b (set_prv n t h)))) a ys t"
    using assms snoc by (subst dseg_cong [where h' = h]) (auto simp: dlist_heap_defs)
  with snoc assms show ?thesis by (auto simp: dseg_append dlist_heap_defs)
qed

lemma dseg_unlink:
  assumes "dseg h a (xs @ [n]) b" and "distinct (a # xs @ [n])" and "b \<notin> set (xs @ [n])"
  shows "dseg (set_prv b (last (a # xs)) (set_nxt (last (a # xs)) b h)) a xs b"
proof (cases xs rule: rev_cases)
  case Nil
  with assms show ?thesis by (auto simp: dlist_heap_defs)
next
  case (snoc ys t)
  with assms have "dseg h a ys t" by (simp add: dseg_append)
  then have "dseg (set_prv b t (set_nxt t b h)) a ys t"
    using assms snoc by (subst dseg_cong [where h' = h]) (auto simp: dlist_heap_defs)
  with snoc assms show ?thesis by (auto simp: dseg_append dlist_heap_defs)
qed

text \<open>Insertion and removal anywhere in a list: the two facts every operation reduces to.\<close>

lemma is_dlist_insert:
  assumes "is_dlist h l (xs @ ys)" and "n \<noteq> NULL" and "n \<notin> set (l # xs @ ys)"
  shows "is_dlist (sys_dlist_insert (hd (ys @ [l])) n h) l (xs @ n # ys)"
proof (cases ys)
  case Nil
  with assms have d: "dseg h l xs l" and p: "prv h l = last (l # xs)"
    by (auto simp: is_dlist_def dest: dseg_last)
  from dseg_link [OF d, of n] p assms Nil show ?thesis
    by (auto simp: is_dlist_def sys_dlist_insert_def Let_def)
next
  case (Cons s zs)
  with assms have d1: "dseg h l xs s" and d2: "dseg h s zs l"
    by (auto simp: is_dlist_def dseg_append)
  let ?h = "sys_dlist_insert s n h"
  from d1 have p: "prv h s = last (l # xs)" by (rule dseg_last)
  have l1: "dseg ?h l (xs @ [n]) s"
    using dseg_link [OF d1, of n] p assms Cons
    by (simp add: is_dlist_def sys_dlist_insert_def Let_def)
  have "last (l # xs) \<notin> set (s # zs)"
    using assms Cons last_in_set [of "l # xs"] by (auto simp: is_dlist_def)
  then have l2: "dseg ?h s zs l"
    using d2 p assms Cons
    by (subst dseg_cong [where h' = h])
      (auto simp: is_dlist_def sys_dlist_insert_def Let_def dlist_heap_defs)
  from l1 l2 have "dseg ?h l ((xs @ [n]) @ s # zs) l" by (simp only: dseg_append simp_thms)
  then show ?thesis using assms Cons by (auto simp: is_dlist_def)
qed

lemma is_dlist_dequeue:
  assumes "is_dlist h l (xs @ n # ys)"
  shows "is_dlist (sys_dlist_dequeue n h) l (xs @ ys)"
proof (cases ys)
  case Nil
  with assms have d: "dseg h l (xs @ [n]) l"
    by (auto simp: is_dlist_def)
  then have p: "prv h n = last (l # xs)" "nxt h n = l"
    by (auto simp: dseg_append dest: dseg_last)
  from dseg_unlink [OF d] p assms Nil show ?thesis
    by (auto simp: is_dlist_def sys_dlist_dequeue_def Let_def)
next
  case (Cons s zs)
  with assms have d1: "dseg h l (xs @ [n]) s" and d2: "dseg h s zs l"
    using dseg_append [of h l "xs @ [n]" s zs l] by (auto simp: is_dlist_def)
  then have p: "prv h n = last (l # xs)" "nxt h n = s"
    by (auto simp: dseg_append dest: dseg_last)
  let ?h = "sys_dlist_dequeue n h"
  have l1: "dseg ?h l xs s"
    using dseg_unlink [OF d1] p assms Cons
    by (auto simp: is_dlist_def sys_dlist_dequeue_def Let_def)
  have "last (l # xs) \<notin> set (s # zs)"
    using assms Cons last_in_set [of "l # xs"] by (auto simp: is_dlist_def)
  then have l2: "dseg ?h s zs l"
    using d2 p assms Cons
    by (subst dseg_cong [where h' = h])
      (auto simp: is_dlist_def sys_dlist_dequeue_def Let_def dlist_heap_defs)
  from l1 l2 show ?thesis using assms Cons by (auto simp: is_dlist_def dseg_append)
qed

section \<open>What the operations do to the list\<close>

lemma is_dlist_init: "l \<noteq> NULL \<Longrightarrow> is_dlist (sys_dlist_init l h) l []"
  by (simp add: is_dlist_def sys_dlist_init_def dlist_heap_defs)

lemma is_dlist_head: "is_dlist h l xs \<Longrightarrow> nxt h l = hd (xs @ [l])"
  by (auto simp: is_dlist_def dest: dseg_first)

lemma is_dlist_tail: "is_dlist h l xs \<Longrightarrow> prv h l = last (l # xs)"
  by (auto simp: is_dlist_def dest: dseg_last)

lemma is_dlist_neq_header: "is_dlist h l xs \<Longrightarrow> x \<in> set xs \<Longrightarrow> x \<noteq> l \<and> x \<noteq> NULL"
  by (metis is_dlist_def distinct.simps(2) list.set_intros(2))

lemma is_dlist_next: "is_dlist h l (xs @ x # ys) \<Longrightarrow> nxt h x = hd (ys @ [l])"
  by (auto simp: is_dlist_def dseg_append dest: dseg_first)

lemma is_dlist_prev: "is_dlist h l (xs @ x # ys) \<Longrightarrow> prv h x = last (l # xs)"
  by (auto simp: is_dlist_def dseg_append dest: dseg_last)

lemma dlist_is_empty: "is_dlist h l xs \<Longrightarrow> sys_dlist_is_empty l h \<longleftrightarrow> xs = []"
  using is_dlist_neq_header [of h l xs "hd xs"]
  by (cases xs) (auto simp: sys_dlist_is_empty_def dest!: is_dlist_head)

lemma dlist_peek_head: "is_dlist h l xs \<Longrightarrow> sys_dlist_peek_head l h = hd (xs @ [NULL])"
  by (cases xs) (auto simp: sys_dlist_peek_head_def dlist_is_empty dest: is_dlist_head)

lemma dlist_peek_tail:
  "is_dlist h l xs \<Longrightarrow> sys_dlist_peek_tail l h = (if xs = [] then NULL else last xs)"
  by (auto simp: sys_dlist_peek_tail_def dlist_is_empty dest: is_dlist_tail)

lemma dlist_has_multiple_nodes:
  "is_dlist h l xs \<Longrightarrow> sys_dlist_has_multiple_nodes l h \<longleftrightarrow> 2 \<le> length xs"
proof -
  assume d: "is_dlist h l xs"
  from d have "hd xs \<noteq> last xs" if "2 \<le> length xs"
    using that by (cases xs) (auto simp: is_dlist_def)
  moreover from d have "sys_dlist_has_multiple_nodes l h \<longleftrightarrow> hd (xs @ [l]) \<noteq> last (l # xs)"
    by (simp add: sys_dlist_has_multiple_nodes_def is_dlist_head is_dlist_tail)
  ultimately show ?thesis
    by (cases xs; cases "tl xs") auto
qed

lemma dlist_peek_next:
  assumes "is_dlist h l (xs @ x # ys)"
  shows "sys_dlist_peek_next l x h = hd (ys @ [NULL])"
proof -
  have "x \<noteq> NULL" using assms by (auto simp: is_dlist_def)
  moreover have "prv h l = last (x # ys)" using is_dlist_tail [OF assms] by simp
  moreover have "ys \<noteq> [] \<Longrightarrow> x \<noteq> last ys" using assms by (auto simp: is_dlist_def)
  ultimately show ?thesis
    using is_dlist_next [OF assms]
    by (cases ys) (auto simp: sys_dlist_peek_next_def sys_dlist_peek_next_no_check_def)
qed

lemma dlist_peek_prev:
  assumes "is_dlist h l (xs @ x # ys)"
  shows "sys_dlist_peek_prev l x h = (if xs = [] then NULL else last xs)"
proof -
  have "x \<noteq> NULL" using assms by (auto simp: is_dlist_def)
  moreover have "nxt h l = hd (xs @ [x])" using is_dlist_head [OF assms] by (cases xs) auto
  moreover have "xs \<noteq> [] \<Longrightarrow> x \<noteq> hd xs" using assms by (cases xs) (auto simp: is_dlist_def)
  ultimately show ?thesis
    using is_dlist_prev [OF assms]
    by (cases xs) (auto simp: sys_dlist_peek_prev_def sys_dlist_peek_prev_no_check_def)
qed

lemma append_is_insert: "sys_dlist_append l n h = sys_dlist_insert l n h"
  by (simp add: sys_dlist_append_def sys_dlist_insert_def dlist_heap_defs Let_def)

lemma is_dlist_append:
  "is_dlist h l xs \<Longrightarrow> n \<noteq> NULL \<Longrightarrow> n \<notin> set (l # xs) \<Longrightarrow>
   is_dlist (sys_dlist_append l n h) l (xs @ [n])"
  using is_dlist_insert [of h l xs "[]" n] by (simp add: append_is_insert)

lemma prepend_is_insert:
  assumes "is_dlist h l xs" and "n \<notin> set (l # xs)"
  shows "sys_dlist_prepend l n h = sys_dlist_insert (hd (xs @ [l])) n h"
proof -
  have "prv h (hd (xs @ [l])) = l"
    using assms is_dlist_prev [of h l "[]"] by (cases xs) (auto dest: is_dlist_tail)
  moreover have "hd (xs @ [l]) \<noteq> n" using assms by (cases xs) auto
  ultimately show ?thesis
    using is_dlist_head [OF assms(1)]
    by (simp add: sys_dlist_prepend_def sys_dlist_insert_def dlist_heap_defs Let_def
        fun_upd_twist)
qed

lemma is_dlist_prepend:
  "is_dlist h l xs \<Longrightarrow> n \<noteq> NULL \<Longrightarrow> n \<notin> set (l # xs) \<Longrightarrow>
   is_dlist (sys_dlist_prepend l n h) l (n # xs)"
  using is_dlist_insert [of h l "[]" xs n] by (simp add: prepend_is_insert)

lemma remove_is_dequeue: "sys_dlist_remove n h = sys_dnode_init n (sys_dlist_dequeue n h)"
  by (simp add: sys_dlist_remove_def sys_dlist_dequeue_def Let_def)

lemma is_dlist_dnode_init:
  "is_dlist h l xs \<Longrightarrow> n \<notin> set (l # xs) \<Longrightarrow> is_dlist (sys_dnode_init n h) l xs"
  unfolding is_dlist_def
  by (subst dseg_cong [where h' = h]) (auto simp: sys_dnode_init_def dlist_heap_defs)

lemma is_dlist_remove:
  assumes "is_dlist h l (xs @ n # ys)"
  shows "is_dlist (sys_dlist_remove n h) l (xs @ ys)"
  unfolding remove_is_dequeue
  using is_dlist_dequeue [OF assms] assms
  by (intro is_dlist_dnode_init) (auto simp: is_dlist_def)

lemma dlist_remove_unlinked: "\<not> sys_dnode_is_linked n (sys_dlist_remove n h)"
  by (simp add: remove_is_dequeue sys_dnode_is_linked_def sys_dnode_init_def dlist_heap_defs)

lemma dlist_get:
  assumes "is_dlist h l xs"
  shows "fst (sys_dlist_get l h) = hd (xs @ [NULL])"
    and "is_dlist (snd (sys_dlist_get l h)) l (tl xs)"
  using assms is_dlist_head [OF assms] is_dlist_remove [of h l "[]" "hd xs" "tl xs"]
  by (cases xs; simp add: sys_dlist_get_def dlist_is_empty Let_def)+

text \<open>A node that is on a list is linked, so the link test is membership.\<close>

lemma dlist_linked: "is_dlist h l xs \<Longrightarrow> x \<in> set xs \<Longrightarrow> sys_dnode_is_linked x h"
proof -
  assume d: "is_dlist h l xs" and x: "x \<in> set xs"
  from x obtain ys zs where xs: "xs = ys @ x # zs" by (auto dest: split_list)
  with d have "nxt h x = hd (zs @ [l])" by (auto dest: is_dlist_next)
  moreover have "hd (zs @ [l]) \<noteq> NULL"
    using d xs by (cases zs) (auto simp: is_dlist_def)
  ultimately show ?thesis by (simp add: sys_dnode_is_linked_def)
qed

text \<open>The walks return: they follow the list and stop behind its last node.\<close>

lemma dlist_find_suffix:
  assumes "is_dlist h l (xs @ ys)"
  shows "dlist_find cond l h (hd (ys @ [NULL])) =
    Some (hd (dropWhile (\<lambda>y. \<not> cond y) ys @ [NULL]))"
  using assms
proof (induction ys arbitrary: xs)
  case Nil
  show ?case by (simp add: dlist_find.simps)
next
  case (Cons y ys)
  have "y \<noteq> NULL" using Cons.prems by (auto simp: is_dlist_def)
  moreover have "sys_dlist_peek_next l y h = hd (ys @ [NULL])"
    using Cons.prems by (rule dlist_peek_next)
  moreover have "dlist_find cond l h (hd (ys @ [NULL])) =
      Some (hd (dropWhile (\<lambda>y. \<not> cond y) ys @ [NULL]))"
    using Cons.IH [of "xs @ [y]"] Cons.prems by simp
  ultimately show ?case by (simp add: dlist_find.simps [of _ _ _ y])
qed

lemma is_dlist_insert_at:
  assumes "is_dlist h l xs" and "n \<noteq> NULL" and "n \<notin> set (l # xs)"
  shows "\<exists>h'. sys_dlist_insert_at l n cond h = Some h' \<and> is_dlist h' l (insert_before cond n xs)"
proof -
  let ?t = "takeWhile (\<lambda>y. \<not> cond y) xs" and ?d = "dropWhile (\<lambda>y. \<not> cond y) xs"
  from assms have ins: "is_dlist (sys_dlist_insert (hd (?d @ [l])) n h) l (insert_before cond n xs)"
    using is_dlist_insert [of h l ?t ?d n] by (simp add: insert_before_takeWhile)
  have "hd ?d \<noteq> NULL" if "?d \<noteq> []"
    using that is_dlist_neq_header [OF assms(1), of "hd ?d"] by (meson hd_in_set set_dropWhileD)
  then have "sys_dlist_insert_at l n cond h = Some (sys_dlist_insert (hd (?d @ [l])) n h)"
    using dlist_find_suffix [of h l "[]" xs cond] assms(1)
    by (cases ?d)
      (auto simp: sys_dlist_insert_at_def dlist_is_empty dlist_peek_head append_is_insert
        simp del: dropWhile_eq_Nil_conv)
  with ins show ?thesis by auto
qed

lemma dlist_count_suffix:
  "is_dlist h l (xs @ ys) \<Longrightarrow> dlist_count l h (hd (ys @ [NULL])) k = Some (k + length ys)"
proof (induction ys arbitrary: xs k)
  case Nil
  show ?case by (simp add: dlist_count.simps)
next
  case (Cons y ys)
  have "y \<noteq> NULL" using Cons.prems by (auto simp: is_dlist_def)
  then show ?case
    using Cons.IH [of "xs @ [y]" "Suc k"] Cons.prems dlist_peek_next [OF Cons.prems]
    by (simp add: dlist_count.simps [of _ _ y])
qed

lemma dlist_len: "is_dlist h l xs \<Longrightarrow> sys_dlist_len l h = Some (length xs)"
  using dlist_count_suffix [of h l "[]" xs 0] by (simp add: sys_dlist_len_def dlist_peek_head)

text \<open>A list that shares no node with the one operated on keeps its nodes.\<close>

lemma is_dlist_frame:
  assumes "is_dlist h l xs"
    and "\<And>x. x \<in> set (l # xs) \<Longrightarrow> nxt h' x = nxt h x \<and> prv h' x = prv h x"
  shows "is_dlist h' l xs"
  using assms unfolding is_dlist_def by (subst dseg_cong [where h' = h]) auto

lemma insert_frame:
  assumes "is_dlist h l (xs @ ys)" and "is_dlist h l' zs"
    and "set (l' # zs) \<inter> set (n # l # xs @ ys) = {}"
  shows "is_dlist (sys_dlist_insert (hd (ys @ [l])) n h) l' zs"
proof (rule is_dlist_frame [OF assms(2)])
  have "prv h (hd (ys @ [l])) = last (l # xs)"
    using assms(1) is_dlist_prev [of h l xs "hd ys" "tl ys"]
    by (cases ys) (auto dest: is_dlist_tail)
  then have "prv h (hd (ys @ [l])) \<in> set (l # xs)" using last_in_set [of "l # xs"] by simp
  moreover have "hd (ys @ [l]) \<in> set (l # ys)" by (cases ys) auto
  ultimately have "prv h (hd (ys @ [l])) \<notin> set (l' # zs)" "hd (ys @ [l]) \<notin> set (l' # zs)"
    using assms(3) by auto
  then show "nxt (sys_dlist_insert (hd (ys @ [l])) n h) x = nxt h x \<and>
      prv (sys_dlist_insert (hd (ys @ [l])) n h) x = prv h x" if "x \<in> set (l' # zs)" for x
    using that assms(3) by (auto simp: sys_dlist_insert_def dlist_heap_defs Let_def)
qed

lemma dequeue_frame:
  assumes "is_dlist h l (xs @ n # ys)" and "is_dlist h l' zs"
    and "set (l' # zs) \<inter> set (l # xs @ n # ys) = {}"
  shows "is_dlist (sys_dlist_dequeue n h) l' zs"
proof (rule is_dlist_frame [OF assms(2)])
  have "prv h n \<in> set (l # xs)"
    using is_dlist_prev [OF assms(1)] last_in_set [of "l # xs"] by simp
  moreover have "nxt h n \<in> set (l # ys)"
    using is_dlist_next [OF assms(1)] by (cases ys) auto
  ultimately have "prv h n \<notin> set (l' # zs)" "nxt h n \<notin> set (l' # zs)"
    using assms(3) by auto
  then show "nxt (sys_dlist_dequeue n h) x = nxt h x \<and> prv (sys_dlist_dequeue n h) x = prv h x"
    if "x \<in> set (l' # zs)" for x
    using that assms(3) by (auto simp: sys_dlist_dequeue_def dlist_heap_defs Let_def)
qed

section \<open>Moving a range of nodes\<close>

text \<open>A run of nodes linked to each other, without its two ends.\<close>

fun chain :: "dheap \<Rightarrow> ptr list \<Rightarrow> bool" where
  "chain h [] \<longleftrightarrow> True"
| "chain h [x] \<longleftrightarrow> True"
| "chain h (x # y # zs) \<longleftrightarrow> nxt h x = y \<and> prv h y = x \<and> chain h (y # zs)"

lemma dseg_chain: "dseg h a xs b \<longleftrightarrow> chain h (a # xs @ [b])"
  by (induction xs arbitrary: a) auto

lemma chain_append:
  "xs \<noteq> [] \<Longrightarrow> ys \<noteq> [] \<Longrightarrow> chain h (xs @ ys) \<longleftrightarrow>
     chain h xs \<and> chain h ys \<and> nxt h (last xs) = hd ys \<and> prv h (hd ys) = last xs"
proof (induction xs)
  case (Cons x xs)
  then show ?case by (cases xs; cases ys) auto
qed simp

lemma chain_cong:
  "(\<And>x. x \<in> set (butlast xs) \<Longrightarrow> nxt h x = nxt h' x) \<Longrightarrow>
   (\<And>x. x \<in> set (tl xs) \<Longrightarrow> prv h x = prv h' x) \<Longrightarrow> chain h xs = chain h' xs"
  by (induction xs rule: induct_list012) auto

lemma butlast_notin: "distinct xs \<Longrightarrow> xs \<noteq> [] \<Longrightarrow> last xs \<notin> set (butlast xs)"
  by (induction xs) auto

lemma tl_notin: "distinct xs \<Longrightarrow> xs \<noteq> [] \<Longrightarrow> hd xs \<notin> set (tl xs)"
  by (cases xs) auto

text \<open>
  Three runs \<open>as\<close>, \<open>rs\<close>, \<open>bs\<close> of a circular list and a second list: the chains inside the
  runs survive any change of the links between them.
\<close>

lemma chain_run:
  assumes "chain h xs" and "\<And>x. x \<in> set (butlast xs) \<Longrightarrow> nxt h' x = nxt h x"
    and "\<And>x. x \<in> set (tl xs) \<Longrightarrow> prv h' x = prv h x"
  shows "chain h' xs"
  using assms chain_cong [of xs h h'] by simp

lemma is_dlist_runs:
  assumes "is_dlist h l (as @ rs @ bs)" and "rs \<noteq> []"
  shows "chain h (l # as)" "chain h rs" "chain h (bs @ [l])"
    and "prv h (hd rs) = last (l # as)" "nxt h (last rs) = hd (bs @ [l])"
proof -
  from assms have "chain h ((l # as) @ (rs @ (bs @ [l])))"
    by (simp add: is_dlist_def dseg_chain)
  then have "chain h (l # as) \<and> chain h (rs @ (bs @ [l])) \<and> prv h (hd rs) = last (l # as)"
    using assms(2) by (subst (asm) chain_append) auto
  moreover from this have "chain h rs \<and> chain h (bs @ [l]) \<and> nxt h (last rs) = hd (bs @ [l])"
    using assms(2) chain_append [of rs "bs @ [l]" h] by auto
  ultimately show "chain h (l # as)" "chain h rs" "chain h (bs @ [l])"
    "prv h (hd rs) = last (l # as)" "nxt h (last rs) = hd (bs @ [l])" by auto
qed

text \<open>
  The links \<^verbatim>\<open>sys_dlist_range_prepend\<close> and \<^verbatim>\<open>sys_dlist_range_append\<close> write: the list the
  range leaves is closed over it, and the range is spliced between two nodes of the other.
\<close>

lemma chain_run_upd:
  assumes "chain h X" and "nxt h' = (nxt h)(a1 := b1, a2 := b2, a3 := b3)"
    and "prv h' = (prv h)(c1 := d1, c2 := d2, c3 := d3)"
    and "a1 \<notin> set (butlast X)" "a2 \<notin> set (butlast X)" "a3 \<notin> set (butlast X)"
    and "c1 \<notin> set (tl X)" "c2 \<notin> set (tl X)" "c3 \<notin> set (tl X)"
  shows "chain h' X"
proof (rule chain_run [OF assms(1)])
  show "nxt h' x = nxt h x" if "x \<in> set (butlast X)" for x
    using assms(4-6) that unfolding assms(2) by auto
  show "prv h' x = prv h x" if "x \<in> set (tl X)" for x
    using assms(7-9) that unfolding assms(3) by auto
qed

lemma set_tl_subset: "set (tl xs) \<subseteq> set xs"
  by (cases xs) auto

lemma chain_splice:
  assumes ch: "chain h A" "chain h R" "chain h B" "chain h E" "chain h F"
    and ne: "A \<noteq> []" "R \<noteq> []" "B \<noteq> []" "E \<noteq> []" "F \<noteq> []"
    and dist: "distinct A" "distinct R" "distinct B" "distinct E" "distinct F"
    and disj: "set A \<inter> set R = {}" "set B \<inter> set R = {}"
      "set B \<inter> set (tl A) = {}" "set A \<inter> set (butlast B) = {}"
      "(set A \<union> set R \<union> set B) \<inter> (set E \<union> set F) = {}"
      "set E \<inter> set (butlast F) = {}" "set F \<inter> set (tl E) = {}"
    and nx: "nxt h' = (nxt h)(last A := hd B, last R := hd F, last E := hd R)"
    and pr: "prv h' = (prv h)(hd B := last A, hd R := last E, hd F := last R)"
  shows "chain h' (A @ B)" and "chain h' (E @ R @ F)"
proof -
  have ends: "last A \<in> set A" "last R \<in> set R" "last E \<in> set E" "hd B \<in> set B"
    "hd R \<in> set R" "hd F \<in> set F" using ne by simp_all
  have inner: "last A \<notin> set (butlast A)" "last R \<notin> set (butlast R)" "last E \<notin> set (butlast E)"
    "hd B \<notin> set (tl B)" "hd R \<notin> set (tl R)" "hd F \<notin> set (tl F)"
    using ne dist by (simp_all add: butlast_notin tl_notin)
  have dj: "\<And>x. x \<in> set A \<Longrightarrow> x \<notin> set R \<and> x \<notin> set E \<and> x \<notin> set F"
    "\<And>x. x \<in> set R \<Longrightarrow> x \<notin> set A \<and> x \<notin> set B \<and> x \<notin> set E \<and> x \<notin> set F"
    "\<And>x. x \<in> set B \<Longrightarrow> x \<notin> set R \<and> x \<notin> set E \<and> x \<notin> set F" using disj(1,2,5) by blast+
  have de: "\<And>x. x \<in> set B \<Longrightarrow> x \<notin> set (tl A)" "\<And>x. x \<in> set A \<Longrightarrow> x \<notin> set (butlast B)"
    "\<And>x. x \<in> set E \<Longrightarrow> x \<notin> set (butlast F)" "\<And>x. x \<in> set F \<Longrightarrow> x \<notin> set (tl E)"
    using disj(3,4,6,7) by blast+
  note facts = ends inner dj de in_set_butlastD set_tl_subset [THEN subsetD]
  have A: "chain h' A" by (rule chain_run_upd [OF ch(1) nx pr]) (metis facts)+
  have B: "chain h' B" by (rule chain_run_upd [OF ch(3) nx pr]) (metis facts)+
  have R: "chain h' R" by (rule chain_run_upd [OF ch(2) nx pr]) (metis facts)+
  have E: "chain h' E" by (rule chain_run_upd [OF ch(4) nx pr]) (metis facts)+
  have F: "chain h' F" by (rule chain_run_upd [OF ch(5) nx pr]) (metis facts)+
  have neq: "last A \<noteq> last R" "last A \<noteq> last E" "last R \<noteq> last E" "hd B \<noteq> hd R" "hd B \<noteq> hd F"
    "hd R \<noteq> hd F" by (metis ends dj)+
  then show "chain h' (A @ B)" using ne A B by (simp add: chain_append nx pr)
  show "chain h' (E @ R @ F)" using neq ne E R F by (simp add: chain_append nx pr)
qed

lemma is_dlist_range:
  assumes L: "is_dlist h l (as @ rs @ bs)" and D: "is_dlist h d (es @ fs)" and ne: "rs \<noteq> []"
    and disj: "set (l # as @ rs @ bs) \<inter> set (d # es @ fs) = {}"
    and nx: "nxt h' = (nxt h)(last (l # as) := hd (bs @ [l]), last rs := hd (fs @ [d]),
          last (d # es) := hd rs)"
    and pr: "prv h' = (prv h)(hd (bs @ [l]) := last (l # as), hd rs := last (d # es),
          hd (fs @ [d]) := last rs)"
  shows "is_dlist h' l (as @ bs)" and "is_dlist h' d (es @ rs @ fs)"
proof -
  define A B E F where defs: "A = l # as" "B = bs @ [l]" "E = d # es" "F = fs @ [d]"
  have dist: "distinct (l # as @ rs @ bs)" "distinct (d # es @ fs)"
    using L D by (simp_all add: is_dlist_def)
  have "chain h (E @ F)" using D by (simp add: is_dlist_def dseg_chain defs)
  then have EF: "chain h E" "chain h F" using chain_append [of E F h] by (simp_all add: defs)
  have AB: "chain h A" "chain h B" "chain h rs" using is_dlist_runs [OF L ne] by (simp_all add: defs)
  have side: "A \<noteq> []" "B \<noteq> []" "E \<noteq> []" "F \<noteq> []" "distinct A" "distinct rs" "distinct B" "distinct E"
    "distinct F" "set A \<inter> set rs = {}" "set B \<inter> set rs = {}" "set B \<inter> set (tl A) = {}"
    "set A \<inter> set (butlast B) = {}" "(set A \<union> set rs \<union> set B) \<inter> (set E \<union> set F) = {}"
    "set E \<inter> set (butlast F) = {}" "set F \<inter> set (tl E) = {}"
    using dist disj unfolding defs by simp_all blast+
  note sp = chain_splice [OF AB(1,3,2) EF side(1) ne side(2-16) nx [folded defs] pr [folded defs]]
  have "NULL \<notin> set (l # as @ bs)" "distinct (l # as @ bs)"
    "NULL \<notin> set (d # es @ rs @ fs)" "distinct (d # es @ rs @ fs)"
    using L D disj by (simp_all add: is_dlist_def) blast+
  with sp show "is_dlist h' l (as @ bs)" and "is_dlist h' d (es @ rs @ fs)"
    by (simp_all add: is_dlist_def dseg_chain defs)
qed

text \<open>Moving a range of one list to the front, or to the end, of another.\<close>

lemma is_dlist_range_prepend:
  assumes L: "is_dlist h l (as @ rs @ bs)" and D: "is_dlist h d ds" and ne: "rs \<noteq> []"
    and disj: "set (l # as @ rs @ bs) \<inter> set (d # ds) = {}"
  shows "is_dlist (sys_dlist_range_prepend d (hd rs) (last rs) h) l (as @ bs)"
    and "is_dlist (sys_dlist_range_prepend d (hd rs) (last rs) h) d (rs @ ds)"
proof -
  let ?h = "sys_dlist_range_prepend d (hd rs) (last rs) h"
  note links = is_dlist_runs(4,5) [OF L ne] is_dlist_head [OF D]
  have "nxt ?h = (nxt h)(last (l # as) := hd (bs @ [l]), last rs := hd (ds @ [d]),
          last (d # []) := hd rs)"
    and "prv ?h = (prv h)(hd (bs @ [l]) := last (l # as), hd rs := last (d # []),
          hd (ds @ [d]) := last rs)"
    unfolding sys_dlist_range_prepend_def Let_def links by (simp_all add: dlist_heap_defs)
  from is_dlist_range [where es = "[]" and fs = ds, OF L _ ne _ this] D disj
  show "is_dlist ?h l (as @ bs)" and "is_dlist ?h d (rs @ ds)" by simp_all
qed

lemma is_dlist_range_append:
  assumes L: "is_dlist h l (as @ rs @ bs)" and D: "is_dlist h d ds" and ne: "rs \<noteq> []"
    and disj: "set (l # as @ rs @ bs) \<inter> set (d # ds) = {}"
  shows "is_dlist (sys_dlist_range_append d (hd rs) (last rs) h) l (as @ bs)"
    and "is_dlist (sys_dlist_range_append d (hd rs) (last rs) h) d (ds @ rs)"
proof -
  let ?h = "sys_dlist_range_append d (hd rs) (last rs) h"
  note links = is_dlist_runs(4,5) [OF L ne] is_dlist_tail [OF D]
  have "nxt ?h = (nxt h)(last (l # as) := hd (bs @ [l]), last rs := hd ([] @ [d]),
          last (d # ds) := hd rs)"
    and "prv ?h = (prv h)(hd (bs @ [l]) := last (l # as), hd rs := last (d # ds),
          hd ([] @ [d]) := last rs)"
    unfolding sys_dlist_range_append_def Let_def links by (simp_all add: dlist_heap_defs)
  from is_dlist_range [where es = ds and fs = "[]", OF L _ ne _ this] D disj
  show "is_dlist ?h l (as @ bs)" and "is_dlist ?h d (ds @ rs)" by simp_all
qed

section \<open>The list interface\<close>

text \<open>
  The contract clients rely on: \<open>rep h l xs\<close> says that \<open>l\<close> heads a list of the nodes \<open>xs\<close>,
  and every operation acts on \<open>xs\<close> alone.  \<open>drain\<close> takes \<open>n\<close> nodes off the front.
\<close>

fun drain :: "('p \<Rightarrow> 'h \<Rightarrow> 'p \<times> 'h) \<Rightarrow> 'p \<Rightarrow> nat \<Rightarrow> 'h \<Rightarrow> 'p list \<times> 'h" where
  "drain get l 0 h = ([], h)"
| "drain get l (Suc n) h =
     (let (x, h1) = get l h; (xs, h2) = drain get l n h1 in (x # xs, h2))"

locale node_list =
  fixes rep :: "'h \<Rightarrow> 'p \<Rightarrow> 'p list \<Rightarrow> bool" and nil :: 'p
    and app :: "'p \<Rightarrow> 'p \<Rightarrow> 'h \<Rightarrow> 'h" and pre :: "'p \<Rightarrow> 'p \<Rightarrow> 'h \<Rightarrow> 'h"
    and rem :: "'p \<Rightarrow> 'h \<Rightarrow> 'h" and get :: "'p \<Rightarrow> 'h \<Rightarrow> 'p \<times> 'h"
    and ins :: "'p \<Rightarrow> 'p \<Rightarrow> ('p \<Rightarrow> bool) \<Rightarrow> 'h \<Rightarrow> 'h option"
  assumes rep_nodes: "rep h l xs \<Longrightarrow> distinct (l # xs) \<and> nil \<notin> set (l # xs)"
    and rep_app: "rep h l xs \<Longrightarrow> n \<noteq> nil \<Longrightarrow> n \<notin> set (l # xs) \<Longrightarrow> rep (app l n h) l (xs @ [n])"
    and rep_pre: "rep h l xs \<Longrightarrow> n \<noteq> nil \<Longrightarrow> n \<notin> set (l # xs) \<Longrightarrow> rep (pre l n h) l (n # xs)"
    and rep_rem: "rep h l xs \<Longrightarrow> n \<in> set xs \<Longrightarrow> rep (rem n h) l (remove1 n xs)"
    and rep_get: "rep h l xs \<Longrightarrow> fst (get l h) = hd (xs @ [nil]) \<and> rep (snd (get l h)) l (tl xs)"
    and rep_ins: "rep h l xs \<Longrightarrow> n \<noteq> nil \<Longrightarrow> n \<notin> set (l # xs) \<Longrightarrow>
      \<exists>h'. ins l n c h = Some h' \<and> rep h' l (insert_before c n xs)"
begin

lemma drain_all:
  "rep h l xs \<Longrightarrow> \<exists>h'. drain get l (length xs) h = (xs, h') \<and> rep h' l []"
proof (induction xs arbitrary: h)
  case (Cons x xs)
  have "fst (get l h) = x" "rep (snd (get l h)) l xs" using rep_get [OF Cons.prems] by auto
  with Cons.IH [of "snd (get l h)"] show ?case by (auto simp: Let_def case_prod_unfold)
qed auto

lemma append_all:
  "rep h l xs \<Longrightarrow> distinct ns \<Longrightarrow> set ns \<inter> set (nil # l # xs) = {} \<Longrightarrow>
   rep (fold (app l) ns h) l (xs @ ns)"
proof (induction ns arbitrary: h xs)
  case (Cons n ns)
  have "rep (app l n h) l (xs @ [n])" using Cons.prems by (intro rep_app) auto
  from Cons.IH [OF this] Cons.prems show ?case by auto
qed simp

lemma fifo:
  assumes "rep h l []" and "distinct ns" and "set ns \<inter> {nil, l} = {}"
  shows "fst (drain get l (length ns) (fold (app l) ns h)) = ns"
proof -
  have "rep (fold (app l) ns h) l ns" using append_all [of h l "[]" ns] assms by auto
  from drain_all [OF this] show ?thesis by auto
qed

lemma insert_all:
  fixes key :: "'p \<Rightarrow> 'k::linorder"
  assumes "rep h l xs" and "distinct ns" and "set ns \<inter> set (nil # l # xs) = {}"
  shows "\<exists>h'. fold (\<lambda>n m. Option.bind m (ins l n (\<lambda>y. key n < key y))) ns (Some h) = Some h' \<and>
    rep h' l (fold (\<lambda>n. insert_before (\<lambda>y. key n < key y) n) ns xs)"
  using assms
proof (induction ns arbitrary: h xs)
  case (Cons n ns)
  obtain h1 where h1: "ins l n (\<lambda>y. key n < key y) h = Some h1"
    and r: "rep h1 l (insert_before (\<lambda>y. key n < key y) n xs)"
    using rep_ins [OF Cons.prems(1), of n] Cons.prems(3) by auto
  from Cons.IH [OF r] Cons.prems h1 show ?case by auto
qed simp

lemma insert_sorts:
  fixes key :: "'p \<Rightarrow> 'k::linorder"
  assumes "rep h l []" and "distinct ns" and "set ns \<inter> {nil, l} = {}"
  shows "\<exists>h'. fold (\<lambda>n m. Option.bind m (ins l n (\<lambda>y. key n < key y))) ns (Some h) = Some h' \<and>
    fst (drain get l (length ns) h') = sort_key key ns"
proof -
  obtain h' where h': "fold (\<lambda>n m. Option.bind m (ins l n (\<lambda>y. key n < key y))) ns (Some h) = Some h'"
    and r: "rep h' l (sort_key key ns)"
    using insert_all [of h l "[]" ns key] assms fold_insert_before_sorted [of key "[]" ns] by auto
  from drain_all [OF r] h' show ?thesis by auto
qed

end

interpretation dl: node_list is_dlist NULL sys_dlist_append sys_dlist_prepend sys_dlist_remove
  sys_dlist_get sys_dlist_insert_at
proof
  show "distinct (l # xs) \<and> NULL \<notin> set (l # xs)" if "is_dlist h l xs" for h l xs
    using that by (simp add: is_dlist_def)
  show "is_dlist (sys_dlist_remove n h) l (remove1 n xs)"
    if d: "is_dlist h l xs" and n: "n \<in> set xs" for h l xs n
  proof -
    from split_list_first [OF n] obtain ys zs where "xs = ys @ n # zs" "n \<notin> set ys" by auto
    then show ?thesis using is_dlist_remove [of h l ys n zs] d by (simp add: remove1_append)
  qed
qed (simp_all add: is_dlist_append is_dlist_prepend dlist_get
    is_dlist_insert_at)

text \<open>
  C6: nodes inserted with \<^verbatim>\<open>sys_dlist_insert_at\<close> behind all nodes of a smaller or equal key leave
  the list, by repeated \<^verbatim>\<open>sys_dlist_get\<close>, in key order and in insertion order among equal keys:
  the pointer manipulations implement a stable priority queue, and the walk always returns.
\<close>

theorem dlist_priority_fifo:
  fixes key :: "ptr \<Rightarrow> int"
  assumes "is_dlist h l []" and "distinct ns" and "set ns \<inter> {NULL, l} = {}"
  shows "\<exists>h'. fold (\<lambda>n m. Option.bind m (sys_dlist_insert_at l n (\<lambda>y. key n < key y))) ns (Some h) =
      Some h' \<and> fst (drain sys_dlist_get l (length ns) h') = sort_key key ns"
  using assms by (rule dl.insert_sorts)

theorem dlist_priority_fifo_witness:
  "\<exists>h'. fold (\<lambda>n m. Option.bind m (sys_dlist_insert_at 9 n (\<lambda>y. int n mod 2 < int y mod 2))) [1, 2, 3, 4]
      (Some (sys_dlist_init 9 \<lparr>nxt = \<lambda>_. 0, prv = \<lambda>_. 0\<rparr>)) = Some h' \<and>
    fst (drain sys_dlist_get 9 (length [2::nat, 4, 1, 3]) h') = [2, 4, 1, 3]"
  using dlist_priority_fifo [of "sys_dlist_init 9 \<lparr>nxt = \<lambda>_. 0, prv = \<lambda>_. 0\<rparr>" 9 "[1, 2, 3, 4]"
      "\<lambda>n. int n mod 2"] is_dlist_init [of 9] by simp

text \<open>
  C7: \<^verbatim>\<open>sys_dlist_range_append\<close> moves the nodes from \<open>start\<close> to \<open>last\<close> of one list to the end
  of another: the source list closes over the gap and both lists stay well formed.
\<close>

theorem dlist_range_move:
  assumes "is_dlist h l (as @ rs @ bs)" and "is_dlist h d ds" and "rs \<noteq> []"
    and "set (l # as @ rs @ bs) \<inter> set (d # ds) = {}"
  shows "is_dlist (sys_dlist_range_append d (hd rs) (last rs) h) l (as @ bs) \<and>
    is_dlist (sys_dlist_range_append d (hd rs) (last rs) h) d (ds @ rs) \<and>
    is_dlist (sys_dlist_range_prepend d (hd rs) (last rs) h) l (as @ bs) \<and>
    is_dlist (sys_dlist_range_prepend d (hd rs) (last rs) h) d (rs @ ds)"
  using is_dlist_range_append [OF assms] is_dlist_range_prepend [OF assms] by blast

theorem dlist_range_move_witness:
  "let h = sys_dlist_append 8 4 (sys_dlist_init 8 (sys_dlist_append 9 3 (sys_dlist_append 9 2
       (sys_dlist_append 9 1 (sys_dlist_init 9 \<lparr>nxt = \<lambda>_. 0, prv = \<lambda>_. 0\<rparr>)))))
   in is_dlist (sys_dlist_range_append 8 2 3 h) 8 [4, 2, 3] \<and>
      is_dlist (sys_dlist_range_prepend 8 2 3 h) 9 [1]"
  using dlist_range_move [of "sys_dlist_append 8 4 (sys_dlist_init 8 (sys_dlist_append 9 3
      (sys_dlist_append 9 2 (sys_dlist_append 9 1 (sys_dlist_init 9 \<lparr>nxt = \<lambda>_. 0, prv = \<lambda>_. 0\<rparr>)))))"
      9 "[1]" "[2, 3]" "[]" 8 "[4]"]
  by (simp add: Let_def is_dlist_def sys_dlist_append_def sys_dlist_init_def dlist_heap_defs)

end
