(* ===== verification/Timeouts.thy ===== *)
theory Timeouts
  imports Prelude
begin

text \<open>
  The backend-independent front end of the kernel's timeout queue, \<^verbatim>\<open>kernel/timeout.c\<close>.

  The statics of that file are the record \<open>tstate\<close>, which the kernel state of theory
  \<open>Sched_State\<close> extends.  The backend header the file includes is a record of operations
  \<open>tq_ops\<close>; the backend's reads of \<^verbatim>\<open>curr_tick\<close> are a parameter of its operations.  The tick
  driver is outside: \<open>clk_elapsed\<close> is what \<^verbatim>\<open>sys_clock_elapsed()\<close> returns, and
  \<^verbatim>\<open>sys_clock_set_timeout\<close> and \<^verbatim>\<open>sys_clock_no_timeout\<close> record their request in \<open>clk_wait\<close>.
  The handler of a timeout is called through a parameter.  The model is of the uniprocessor
  configuration: there is one CPU, number 0.

  The locale \<open>timeout_q\<close> is the contract between front end and backend: \<open>expiry c q\<close> maps each
  pending timeout to its absolute expiry.  The announce loop is proved against it once, for
  every backend: it returns, fires every timeout exactly at its expiry tick, in order, and
  leaves nothing due.
\<close>

section \<open>Ticks and timeouts\<close>

abbreviation (input) K_TICKS_FOREVER :: int where "K_TICKS_FOREVER \<equiv> -1"
abbreviation (input) K_FOREVER :: int where "K_FOREVER \<equiv> -1"
abbreviation (input) K_NO_WAIT :: int where "K_NO_WAIT \<equiv> 0"
abbreviation (input) CPU_ID :: int where "CPU_ID \<equiv> 0"

definition CONFIG_SMP :: bool where [simp]: "CONFIG_SMP = False"

definition SYS_CLOCK_MAX_WAIT :: int where "SYS_CLOCK_MAX_WAIT = UINT32_MAX div 2"

definition Z_TICK_ABS :: "int \<Rightarrow> int" where "Z_TICK_ABS t = K_TICKS_FOREVER - 1 - t"

definition Z_IS_TIMEOUT_RELATIVE :: "int \<Rightarrow> bool" where
  "Z_IS_TIMEOUT_RELATIVE timeout \<longleftrightarrow> timeout \<ge> 0"

section \<open>Backend operations and the state of the front end\<close>

record ('id, 'q) tq_ops =
  q_insert :: "int \<Rightarrow> 'id \<Rightarrow> int \<Rightarrow> 'q \<Rightarrow> bool \<times> 'q"
  q_remove :: "int \<Rightarrow> 'id \<Rightarrow> 'q \<Rightarrow> bool \<times> 'q"
  q_remainder :: "int \<Rightarrow> 'id \<Rightarrow> 'q \<Rightarrow> int"
  q_next_expiry :: "int \<Rightarrow> 'q \<Rightarrow> int"
  q_next_gap :: "int \<Rightarrow> 'q \<Rightarrow> int"
  q_advance :: "int \<Rightarrow> int \<Rightarrow> 'q \<Rightarrow> 'q"
  q_pop_due :: "int \<Rightarrow> 'q \<Rightarrow> ('id \<times> 'q) option"
  q_inactive :: "'id \<Rightarrow> 'q \<Rightarrow> bool"

record ('id, 'fn, 'q) tstate =
  curr_tick :: int
  announce_remaining :: int
  announcing_cpu :: int
  inflight_timeout :: "('id \<times> bool) option"
  tq :: 'q
  tfn :: "'id \<Rightarrow> 'fn"
  clk_elapsed :: int
  clk_wait :: "int option"
  sloppy_idle :: bool

definition this_cpu_announcing :: "('id, 'fn, 'q, 'z) tstate_scheme \<Rightarrow> bool" where
  "this_cpu_announcing s \<longleftrightarrow> announcing_cpu s = CPU_ID"

definition any_cpu_announcing :: "('id, 'fn, 'q, 'z) tstate_scheme \<Rightarrow> bool" where
  "any_cpu_announcing s \<longleftrightarrow> announcing_cpu s \<noteq> -1"

definition inflight_ptr :: "('id, 'fn, 'q, 'z) tstate_scheme \<Rightarrow> 'id option" where
  "inflight_ptr s = map_option fst (inflight_timeout s)"

definition inflight_mark_superseded ::
  "('id, 'fn, 'q, 'z) tstate_scheme \<Rightarrow> ('id, 'fn, 'q, 'z) tstate_scheme" where
  "inflight_mark_superseded s =
     s\<lparr>inflight_timeout := map_option (\<lambda>p. (fst p, True)) (inflight_timeout s)\<rparr>"

definition elapsed :: "('id, 'fn, 'q, 'z) tstate_scheme \<Rightarrow> int" where
  "elapsed s = (if this_cpu_announcing s then 0
     else u32 (clk_elapsed s + (if CONFIG_SMP then announce_remaining s else 0)))"

text \<open>The driver calls: a wait of \<open>w\<close> ticks starts now, \<open>clk_elapsed\<close> ticks after \<^verbatim>\<open>curr_tick\<close>.\<close>

definition sys_clock_set_timeout ::
  "int \<Rightarrow> ('id, 'fn, 'q, 'z) tstate_scheme \<Rightarrow> ('id, 'fn, 'q, 'z) tstate_scheme" where
  "sys_clock_set_timeout w s = s\<lparr>clk_wait := Some (clk_elapsed s + w)\<rparr>"

definition sys_clock_no_timeout ::
  "('id, 'fn, 'q, 'z) tstate_scheme \<Rightarrow> ('id, 'fn, 'q, 'z) tstate_scheme" where
  "sys_clock_no_timeout s = s\<lparr>clk_wait := None\<rparr>"

definition next_timeout ::
  "('id, 'q) tq_ops \<Rightarrow> int \<Rightarrow> ('id, 'fn, 'q, 'z) tstate_scheme \<Rightarrow> int" where
  "next_timeout Q ticks_elapsed s =
     (let nx = q_next_expiry Q (curr_tick s) (tq s) in
      if ticks_elapsed \<ge> SYS_CLOCK_MAX_WAIT then 0
      else if nx = K_TICKS_FOREVER \<or> nx \<ge> SYS_CLOCK_MAX_WAIT
        then SYS_CLOCK_MAX_WAIT - ticks_elapsed
      else let dticks = u32 nx
           in (if dticks > ticks_elapsed then dticks - ticks_elapsed else 0))"

definition reprogram_next ::
  "('id, 'q) tq_ops \<Rightarrow> int \<Rightarrow> ('id, 'fn, 'q, 'z) tstate_scheme \<Rightarrow> ('id, 'fn, 'q, 'z) tstate_scheme"
  where
  "reprogram_next Q ticks_elapsed s =
     (if sloppy_idle s \<and> q_next_expiry Q (curr_tick s) (tq s) = K_TICKS_FOREVER
      then sys_clock_no_timeout s
      else sys_clock_set_timeout (next_timeout Q ticks_elapsed s) s)"

section \<open>Operations of the front end\<close>

definition z_add_timeout ::
  "('id, 'q) tq_ops \<Rightarrow> 'id \<Rightarrow> 'fn \<Rightarrow> int \<Rightarrow> ('id, 'fn, 'q, 'z) tstate_scheme \<Rightarrow>
   int \<times> ('id, 'fn, 'q, 'z) tstate_scheme" where
  "z_add_timeout Q to fn timeout s =
     (if timeout = K_FOREVER then (0, s)
      else
        let s1 = s\<lparr>tfn := (tfn s)(to := fn)\<rparr>;
            (dticks, ticks) =
              (if Z_IS_TIMEOUT_RELATIVE timeout
               then let d = s64 (timeout + elapsed s1 + (if this_cpu_announcing s1 then 0 else 1))
                    in (d, s64 (curr_tick s1 + d))
               else (max 1 (s64 (Z_TICK_ABS timeout - curr_tick s1)), timeout));
            (first, q) = q_insert Q (curr_tick s1) to dticks (tq s1);
            s2 = s1\<lparr>tq := q\<rparr>
        in (ticks,
            if first \<and> \<not> any_cpu_announcing s2
            then sys_clock_set_timeout (next_timeout Q (elapsed s2) s2) s2
            else s2))"

definition z_try_abort_timeout ::
  "('id, 'q) tq_ops \<Rightarrow> 'id \<Rightarrow> ('id, 'fn, 'q, 'z) tstate_scheme \<Rightarrow>
   int \<times> ('id, 'fn, 'q, 'z) tstate_scheme" where
  "z_try_abort_timeout Q to s =
     (let (ret, s1) =
        (if \<not> q_inactive Q to (tq s)
         then let (was_first, q) = q_remove Q (curr_tick s) to (tq s); s' = s\<lparr>tq := q\<rparr>
              in (0, if was_first then reprogram_next Q (elapsed s') s' else s')
         else if CONFIG_SMP \<and> inflight_ptr s = Some to \<and> \<not> this_cpu_announcing s
           then (- EAGAIN, s)
         else (- EINVAL, s))
      in (ret, if inflight_ptr s1 = Some to then inflight_mark_superseded s1 else s1))"

definition z_timeout_inflight_superseded :: "'id \<Rightarrow> ('id, 'fn, 'q, 'z) tstate_scheme \<Rightarrow> bool" where
  "z_timeout_inflight_superseded to s \<longleftrightarrow> inflight_timeout s = Some (to, True)"

definition z_timeout_remaining ::
  "('id, 'q) tq_ops \<Rightarrow> 'id \<Rightarrow> ('id, 'fn, 'q, 'z) tstate_scheme \<Rightarrow> int" where
  "z_timeout_remaining Q to s =
     (if \<not> q_inactive Q to (tq s) then q_remainder Q (curr_tick s) to (tq s) - elapsed s else 0)"

definition z_timeout_expires ::
  "('id, 'q) tq_ops \<Rightarrow> 'id \<Rightarrow> ('id, 'fn, 'q, 'z) tstate_scheme \<Rightarrow> int" where
  "z_timeout_expires Q to s =
     (if \<not> q_inactive Q to (tq s) then curr_tick s + q_remainder Q (curr_tick s) to (tq s)
      else curr_tick s)"

definition z_get_next_timeout_expiry ::
  "('id, 'q) tq_ops \<Rightarrow> ('id, 'fn, 'q, 'z) tstate_scheme \<Rightarrow> int" where
  "z_get_next_timeout_expiry Q s =
     (if sloppy_idle s \<and> q_next_expiry Q (curr_tick s) (tq s) = K_TICKS_FOREVER
      then u32 K_TICKS_FOREVER
      else next_timeout Q (elapsed s) s)"

text \<open>
  The two loops of \<^verbatim>\<open>sys_clock_announce_locked\<close>.  The handler runs with the lock dropped, on
  the whole state; \<^verbatim>\<open>inflight_timeout\<close> names it meanwhile.
\<close>

partial_function (option) drain_due ::
  "('id, 'q) tq_ops \<Rightarrow>
   ('id \<Rightarrow> 'fn \<Rightarrow> ('id, 'fn, 'q, 'z) tstate_scheme \<Rightarrow> ('id, 'fn, 'q, 'z) tstate_scheme) \<Rightarrow>
   ('id, 'fn, 'q, 'z) tstate_scheme \<Rightarrow> ('id, 'fn, 'q, 'z) tstate_scheme option" where
  "drain_due Q H s =
     (case q_pop_due Q (curr_tick s) (tq s) of
        None \<Rightarrow> Some s
      | Some (t, q) \<Rightarrow>
          drain_due Q H
            ((H t (tfn s t) (s\<lparr>tq := q, inflight_timeout := Some (t, False)\<rparr>))
               \<lparr>inflight_timeout := None\<rparr>))"

partial_function (option) announce_loop ::
  "('id, 'q) tq_ops \<Rightarrow>
   ('id \<Rightarrow> 'fn \<Rightarrow> ('id, 'fn, 'q, 'z) tstate_scheme \<Rightarrow> ('id, 'fn, 'q, 'z) tstate_scheme) \<Rightarrow>
   ('id, 'fn, 'q, 'z) tstate_scheme \<Rightarrow> ('id, 'fn, 'q, 'z) tstate_scheme option" where
  "announce_loop Q H s =
     (if announce_remaining s > 0
      then let gap = q_next_gap Q (curr_tick s) (tq s);
               dt = (if u32 gap > announce_remaining s then s32 (announce_remaining s) else gap);
               s1 = s\<lparr>tq := q_advance Q (curr_tick s) dt (tq s),
                      curr_tick := u64 (curr_tick s + dt),
                      announce_remaining := u32 (announce_remaining s - dt)\<rparr>
           in (case drain_due Q H s1 of
                 None \<Rightarrow> None
               | Some s2 \<Rightarrow> announce_loop Q H s2)
      else Some s)"

definition sys_clock_announce_locked ::
  "('id, 'q) tq_ops \<Rightarrow>
   ('id \<Rightarrow> 'fn \<Rightarrow> ('id, 'fn, 'q, 'z) tstate_scheme \<Rightarrow> ('id, 'fn, 'q, 'z) tstate_scheme) \<Rightarrow>
   int \<Rightarrow> ('id, 'fn, 'q, 'z) tstate_scheme \<Rightarrow> ('id, 'fn, 'q, 'z) tstate_scheme option" where
  "sys_clock_announce_locked Q H ticks s =
     (if CONFIG_SMP \<and> any_cpu_announcing s
      then Some (s\<lparr>announce_remaining := u32 (announce_remaining s + ticks)\<rparr>)
      else case announce_loop Q H (s\<lparr>announce_remaining := ticks, announcing_cpu := CPU_ID\<rparr>) of
             None \<Rightarrow> None
           | Some s1 \<Rightarrow> Some (reprogram_next Q 0 (s1\<lparr>announcing_cpu := -1\<rparr>)))"

definition sys_clock_tick_get :: "('id, 'fn, 'q, 'z) tstate_scheme \<Rightarrow> int" where
  "sys_clock_tick_get s = s64 (u64 (curr_tick s + elapsed s))"

definition sys_clock_tick_get_32 :: "('id, 'fn, 'q, 'z) tstate_scheme \<Rightarrow> int" where
  "sys_clock_tick_get_32 s = u32 (sys_clock_tick_get s)"

definition sys_timepoint_calc :: "int \<Rightarrow> ('id, 'fn, 'q, 'z) tstate_scheme \<Rightarrow> int" where
  "sys_timepoint_calc timeout s =
     (if timeout = K_FOREVER then UINT64_MAX
      else if timeout = K_NO_WAIT then 0
      else if Z_IS_TIMEOUT_RELATIVE timeout then u64 (sys_clock_tick_get s + max 1 timeout)
      else u64 (Z_TICK_ABS timeout))"

definition sys_timepoint_timeout :: "int \<Rightarrow> ('id, 'fn, 'q, 'z) tstate_scheme \<Rightarrow> int" where
  "sys_timepoint_timeout tick s =
     (if tick = UINT64_MAX then K_FOREVER
      else if tick = 0 then K_NO_WAIT
      else let now = u64 (sys_clock_tick_get s)
           in s64 (if tick > now then tick - now else 0))"

lemmas tstate_op_defs = this_cpu_announcing_def any_cpu_announcing_def inflight_ptr_def
  inflight_mark_superseded_def elapsed_def sys_clock_set_timeout_def sys_clock_no_timeout_def
  reprogram_next_def

section \<open>Frames\<close>

lemma clk_frame [simp]:
  "curr_tick (sys_clock_set_timeout w s) = curr_tick s" "tq (sys_clock_set_timeout w s) = tq s"
  "announcing_cpu (sys_clock_set_timeout w s) = announcing_cpu s"
  "announce_remaining (sys_clock_set_timeout w s) = announce_remaining s"
  "inflight_timeout (sys_clock_set_timeout w s) = inflight_timeout s"
  "tfn (sys_clock_set_timeout w s) = tfn s" "clk_elapsed (sys_clock_set_timeout w s) = clk_elapsed s"
  "sloppy_idle (sys_clock_set_timeout w s) = sloppy_idle s"
  "tstate.more (sys_clock_set_timeout w s) = tstate.more s"
  "clk_wait (sys_clock_set_timeout w s) = Some (clk_elapsed s + w)"
  by (simp_all add: sys_clock_set_timeout_def)

lemma reprogram_frame [simp]:
  "curr_tick (reprogram_next Q w s) = curr_tick s" "tq (reprogram_next Q w s) = tq s"
  "announcing_cpu (reprogram_next Q w s) = announcing_cpu s"
  "announce_remaining (reprogram_next Q w s) = announce_remaining s"
  "inflight_timeout (reprogram_next Q w s) = inflight_timeout s"
  "tfn (reprogram_next Q w s) = tfn s" "clk_elapsed (reprogram_next Q w s) = clk_elapsed s"
  "sloppy_idle (reprogram_next Q w s) = sloppy_idle s"
  "tstate.more (reprogram_next Q w s) = tstate.more s"
  by (simp_all add: reprogram_next_def sys_clock_no_timeout_def)

lemma add_timeout_forever [simp]: "z_add_timeout Q to fn K_FOREVER s = (0, s)"
  by (simp add: z_add_timeout_def)

lemma add_timeout_frame [simp]:
  "curr_tick (snd (z_add_timeout Q t g n s)) = curr_tick s"
  "announce_remaining (snd (z_add_timeout Q t g n s)) = announce_remaining s"
  "announcing_cpu (snd (z_add_timeout Q t g n s)) = announcing_cpu s"
  "inflight_timeout (snd (z_add_timeout Q t g n s)) = inflight_timeout s"
  "clk_elapsed (snd (z_add_timeout Q t g n s)) = clk_elapsed s"
  "sloppy_idle (snd (z_add_timeout Q t g n s)) = sloppy_idle s"
  "tstate.more (snd (z_add_timeout Q t g n s)) = tstate.more s"
  by (simp_all add: z_add_timeout_def Let_def case_prod_unfold)

lemma add_timeout_tfn:
  "tfn (snd (z_add_timeout Q t g n s)) = (if n = K_FOREVER then tfn s else (tfn s)(t := g))"
  by (simp add: z_add_timeout_def Let_def case_prod_unfold)

lemma abort_frame [simp]:
  "curr_tick (snd (z_try_abort_timeout Q t s)) = curr_tick s"
  "tfn (snd (z_try_abort_timeout Q t s)) = tfn s"
  "announce_remaining (snd (z_try_abort_timeout Q t s)) = announce_remaining s"
  "announcing_cpu (snd (z_try_abort_timeout Q t s)) = announcing_cpu s"
  "clk_elapsed (snd (z_try_abort_timeout Q t s)) = clk_elapsed s"
  "tstate.more (snd (z_try_abort_timeout Q t s)) = tstate.more s"
  by (simp_all add: z_try_abort_timeout_def Let_def case_prod_unfold inflight_mark_superseded_def)

lemma elapsed_nonneg [simp]: "0 \<le> elapsed s"
  by (simp add: elapsed_def)

lemma elapsed_cong [simp]:
  "elapsed (s\<lparr>tq := q\<rparr>) = elapsed s" "elapsed (s\<lparr>tfn := f\<rparr>) = elapsed s"
  by (simp_all add: elapsed_def this_cpu_announcing_def)

section \<open>The backend contract\<close>

text \<open>
  What the firing loop asks of a handler, in the states that satisfy \<open>P\<close>: it keeps \<open>P\<close> and the
  queue's invariant, leaves the clock alone, and adds no timeout that is due at once.
\<close>

definition handler_ok ::
  "('id, 'q) tq_ops \<Rightarrow> (int \<Rightarrow> 'q \<Rightarrow> bool) \<Rightarrow> (int \<Rightarrow> 'q \<Rightarrow> ('id \<rightharpoonup> int)) \<Rightarrow>
   (('id, 'fn, 'q, 'z) tstate_scheme \<Rightarrow> bool) \<Rightarrow>
   ('id \<Rightarrow> 'fn \<Rightarrow> ('id, 'fn, 'q, 'z) tstate_scheme \<Rightarrow> ('id, 'fn, 'q, 'z) tstate_scheme) \<Rightarrow> bool" where
  "handler_ok Q qinv expiry P H \<longleftrightarrow>
     (\<forall>s t q. P s \<and> qinv (curr_tick s) (tq s) \<and> q_pop_due Q (curr_tick s) (tq s) = Some (t, q) \<longrightarrow>
       (let s' = (H t (tfn s t) (s\<lparr>tq := q, inflight_timeout := Some (t, False)\<rparr>))
                   \<lparr>inflight_timeout := None\<rparr>
        in P s' \<and> qinv (curr_tick s') (tq s') \<and> curr_tick s' = curr_tick s \<and>
           announce_remaining s' = announce_remaining s \<and>
           (\<forall>t. expiry (curr_tick s) (tq s') t = Some (curr_tick s) \<longrightarrow>
                expiry (curr_tick s) q t = Some (curr_tick s))))"

text \<open>What the loop's own steps must keep: moving the clock, up to \<open>lim\<close>, while nothing is due.\<close>

definition advance_ok ::
  "('id, 'q) tq_ops \<Rightarrow> (int \<Rightarrow> 'q \<Rightarrow> bool) \<Rightarrow> (int \<Rightarrow> 'q \<Rightarrow> ('id \<rightharpoonup> int)) \<Rightarrow>
   int \<Rightarrow> (('id, 'fn, 'q, 'z) tstate_scheme \<Rightarrow> bool) \<Rightarrow> bool" where
  "advance_ok Q qinv expiry lim P \<longleftrightarrow>
     (\<forall>s dt r. P s \<and> qinv (curr_tick s) (tq s) \<and>
        curr_tick s \<notin> ran (expiry (curr_tick s) (tq s)) \<and> 0 < dt \<and> curr_tick s + dt \<le> lim \<and>
        (\<forall>e\<in>ran (expiry (curr_tick s) (tq s)). curr_tick s + dt \<le> e) \<longrightarrow>
        P (s\<lparr>tq := q_advance Q (curr_tick s) dt (tq s), curr_tick := curr_tick s + dt,
             announce_remaining := r\<rparr>))"

text \<open>A handler that only logs which timeout fired, and at which tick.\<close>

definition log_handler ::
  "'id \<Rightarrow> 'fn \<Rightarrow> ('id, 'fn, 'q, ('id \<times> int) list) tstate_scheme \<Rightarrow>
   ('id, 'fn, 'q, ('id \<times> int) list) tstate_scheme" where
  "log_handler t f s = tstate.more_update (\<lambda>l. l @ [(t, curr_tick s)]) s"

text \<open>
  The driver's pending request does not let it sleep past any expiry: it announces no later
  than the expiry tick, or at once when that tick has already passed.
\<close>

definition wakes_in_time ::
  "(int \<Rightarrow> 'q \<Rightarrow> ('id \<rightharpoonup> int)) \<Rightarrow> ('id, 'fn, 'q, 'z) tstate_scheme \<Rightarrow> bool" where
  "wakes_in_time expiry s \<longleftrightarrow>
     (\<forall>e\<in>ran (expiry (curr_tick s) (tq s)).
        \<exists>w. clk_wait s = Some w \<and> curr_tick s + w \<le> max e (curr_tick s + clk_elapsed s))"

text \<open>
  \<open>expiry c q\<close> gives the absolute expiry of every pending timeout when the current tick is \<open>c\<close>,
  and \<open>qinv c q\<close> is the backend's invariant.  No pending timeout is ever overdue.  \<open>full q\<close>
  says that the backend has no room (only the heap has a capacity).  The answers about the
  earliest timeout are promised when nothing is due at \<open>c\<close> itself: between announces, and in
  the announce loop after each drain.
\<close>

locale timeout_q =
  fixes Q :: "('id, 'q) tq_ops"
    and qinv :: "int \<Rightarrow> 'q \<Rightarrow> bool"
    and expiry :: "int \<Rightarrow> 'q \<Rightarrow> ('id \<rightharpoonup> int)"
    and full :: "'q \<Rightarrow> bool"
  assumes exp_finite: "qinv c q \<Longrightarrow> finite (dom (expiry c q))"
    and exp_due: "qinv c q \<Longrightarrow> e \<in> ran (expiry c q) \<Longrightarrow> c \<le> e"
    and exp_inactive: "qinv c q \<Longrightarrow> q_inactive Q t q \<longleftrightarrow> t \<notin> dom (expiry c q)"
    and insert_inv: "qinv c q \<Longrightarrow> t \<notin> dom (expiry c q) \<Longrightarrow> 0 \<le> d \<Longrightarrow> c + d < 2 ^ 63 \<Longrightarrow> \<not> full q \<Longrightarrow>
      qinv c (snd (q_insert Q c t d q)) \<and> expiry c (snd (q_insert Q c t d q)) = (expiry c q)(t \<mapsto> c + d)"
    and insert_first: "qinv c q \<Longrightarrow> t \<notin> dom (expiry c q) \<Longrightarrow> 0 \<le> d \<Longrightarrow> c + d < 2 ^ 63 \<Longrightarrow> \<not> full q \<Longrightarrow>
      c \<notin> ran (expiry c q) \<Longrightarrow> fst (q_insert Q c t d q) \<longleftrightarrow> (\<forall>e\<in>ran (expiry c q). c + d < e)"
    and remove_inv: "qinv c q \<Longrightarrow> expiry c q t = Some e \<Longrightarrow>
      qinv c (snd (q_remove Q c t q)) \<and> expiry c (snd (q_remove Q c t q)) = (expiry c q)(t := None)"
    and remove_first: "qinv c q \<Longrightarrow> expiry c q t = Some e \<Longrightarrow> c \<notin> ran (expiry c q) \<Longrightarrow>
      \<forall>e'\<in>ran ((expiry c q)(t := None)). e < e' \<Longrightarrow> fst (q_remove Q c t q)"
    and remainder: "qinv c q \<Longrightarrow> expiry c q t = Some e \<Longrightarrow> q_remainder Q c t q = e - c"
    and next_expiry: "qinv c q \<Longrightarrow> c \<notin> ran (expiry c q) \<Longrightarrow> q_next_expiry Q c q =
      (if expiry c q = Map.empty then K_TICKS_FOREVER else Min (ran (expiry c q)) - c)"
    and next_gap: "qinv c q \<Longrightarrow> c \<notin> ran (expiry c q) \<Longrightarrow> q_next_gap Q c q =
      (if expiry c q = Map.empty then INT32_MAX else min (Min (ran (expiry c q)) - c) INT32_MAX)"
    and advance_inv: "qinv c q \<Longrightarrow> c \<notin> ran (expiry c q) \<Longrightarrow> 0 < dt \<Longrightarrow> c + dt < 2 ^ 63 \<Longrightarrow>
      \<forall>e\<in>ran (expiry c q). c + dt \<le> e \<Longrightarrow>
      qinv (c + dt) (q_advance Q c dt q) \<and> expiry (c + dt) (q_advance Q c dt q) = expiry c q"
    and pop_none: "qinv c q \<Longrightarrow> q_pop_due Q c q = None \<longleftrightarrow> c \<notin> ran (expiry c q)"
    and pop_some: "qinv c q \<Longrightarrow> q_pop_due Q c q = Some (t, q') \<Longrightarrow>
      expiry c q t = Some c \<and> qinv c q' \<and> expiry c q' = (expiry c q)(t := None)"
begin

lemma drain_rule:
  assumes H: "handler_ok Q qinv expiry P H" and "P s" and "qinv (curr_tick s) (tq s)"
  shows "\<exists>s'. drain_due Q H s = Some s' \<and> P s' \<and> qinv (curr_tick s') (tq s') \<and>
    curr_tick s' = curr_tick s \<and> announce_remaining s' = announce_remaining s \<and>
    curr_tick s' \<notin> ran (expiry (curr_tick s') (tq s'))"
  using assms(2,3)
proof (induction "card {t. expiry (curr_tick s) (tq s) t = Some (curr_tick s)}" arbitrary: s
    rule: less_induct)
  case less
  let ?c = "curr_tick s" and ?due = "\<lambda>q. {t. expiry (curr_tick s) q t = Some (curr_tick s)}"
  show ?case
  proof (cases "q_pop_due Q ?c (tq s)")
    case None
    with less.prems pop_none [OF less.prems(2)] show ?thesis by (subst drain_due.simps) simp
  next
    case (Some p)
    then obtain t q where pop: "q_pop_due Q ?c (tq s) = Some (t, q)" by (cases p) auto
    let ?s = "(H t (tfn s t) (s\<lparr>tq := q, inflight_timeout := Some (t, False)\<rparr>))
      \<lparr>inflight_timeout := None\<rparr>"
    from H less.prems pop have P: "P ?s" "qinv (curr_tick ?s) (tq ?s)" "curr_tick ?s = ?c"
      "announce_remaining ?s = announce_remaining s" "?due (tq ?s) \<subseteq> ?due q"
      unfolding handler_ok_def Let_def by blast+
    have q: "expiry ?c (tq s) t = Some ?c" "expiry ?c q = (expiry ?c (tq s))(t := None)"
      using pop_some [OF less.prems(2) pop] by auto
    have "finite (?due (tq s))"
      by (rule finite_subset [OF _ exp_finite [OF less.prems(2)]]) auto
    moreover have "?due (tq ?s) \<subset> ?due (tq s)" using P(5) q by (auto split: if_splits)
    ultimately have "card (?due (tq ?s)) < card (?due (tq s))" by (rule psubset_card_mono)
    with less.hyps [of ?s] P show ?thesis by (subst drain_due.simps) (simp add: pop)
  qed
qed

text \<open>A step of the announce loop moves the clock to the next expiry or to the end of the window.\<close>

lemma gap_step:
  assumes i: "qinv c q" and nd: "c \<notin> ran (expiry c q)" and r: "0 < r" "r < 2 ^ 32"
  defines "gap \<equiv> q_next_gap Q c q"
  defines "dt \<equiv> if u32 gap > r then s32 r else gap"
  shows "0 < dt" "dt \<le> r" "\<forall>e\<in>ran (expiry c q). c + dt \<le> e"
    and "dt = r \<or> dt = INT32_MAX \<or> c + dt \<in> ran (expiry c q)"
proof -
  have fin: "finite (ran (expiry c q))" using i by (simp add: exp_finite finite_ran)
  have lt: "c < e" if "e \<in> ran (expiry c q)" for e using exp_due [OF i that] nd that by (metis order_le_less)
  have g: "0 < gap \<and> gap \<le> INT32_MAX \<and> (\<forall>e\<in>ran (expiry c q). c + gap \<le> e) \<and>
      (gap = INT32_MAX \<or> c + gap \<in> ran (expiry c q))"
  proof (cases "expiry c q = Map.empty")
    case False
    then have "ran (expiry c q) \<noteq> {}" by (auto simp: ran_def fun_eq_iff)
    with fin have m: "Min (ran (expiry c q)) \<in> ran (expiry c q)"
      "\<forall>e\<in>ran (expiry c q). Min (ran (expiry c q)) \<le> e" by auto
    with lt [OF m(1)] False next_gap [OF i nd] show ?thesis unfolding gap_def
      by (auto simp: min_def)
  qed (simp add: gap_def next_gap [OF i nd])
  then have u: "u32 gap = gap" by (simp add: u32_id)
  have s: "s32 r = r" if "r < gap" using that g r by (intro s32_id) auto
  show "0 < dt" "dt \<le> r" "\<forall>e\<in>ran (expiry c q). c + dt \<le> e"
    "dt = r \<or> dt = INT32_MAX \<or> c + dt \<in> ran (expiry c q)"
    using g u s r unfolding dt_def by auto
qed

lemma announce_rule:
  assumes H: "handler_ok Q qinv expiry P H"
    and adv: "advance_ok Q qinv expiry lim P"
    and "P s" "qinv (curr_tick s) (tq s)" "curr_tick s \<notin> ran (expiry (curr_tick s) (tq s))"
    and "0 \<le> curr_tick s" "0 \<le> announce_remaining s" "announce_remaining s < 2 ^ 32"
    and "curr_tick s + announce_remaining s = lim" "lim < 2 ^ 63"
  shows "\<exists>s'. announce_loop Q H s = Some s' \<and> P s' \<and> qinv (curr_tick s') (tq s') \<and>
    curr_tick s' = curr_tick s + announce_remaining s \<and> announce_remaining s' = 0 \<and>
    curr_tick s' \<notin> ran (expiry (curr_tick s') (tq s'))"
  using assms(3-9)
proof (induction "nat (announce_remaining s)" arbitrary: s rule: less_induct)
  case less
  let ?c = "curr_tick s" and ?r = "announce_remaining s"
  show ?case
  proof (cases "?r > 0")
    case False
    with less.prems show ?thesis by (subst announce_loop.simps) auto
  next
    case True
    define gap where "gap = q_next_gap Q ?c (tq s)"
    define dt where "dt = (if u32 gap > ?r then s32 ?r else gap)"
    note gs = gap_step [OF less.prems(2,3) True less.prems(6), folded gap_def, folded dt_def]
    define s1 where "s1 = s\<lparr>tq := q_advance Q ?c dt (tq s), curr_tick := ?c + dt,
      announce_remaining := ?r - dt\<rparr>"
    have bound: "?c + dt < 2 ^ 63" using gs(2) less.prems(7) assms(10) by linarith
    have lim: "?c + dt \<le> lim" using gs(2) less.prems(7) by linarith
    note av = advance_inv [OF less.prems(2,3) gs(1) bound gs(3)]
    have s1: "P s1" "qinv (curr_tick s1) (tq s1)" "curr_tick s1 = ?c + dt"
      "announce_remaining s1 = ?r - dt"
      using adv less.prems(1,2,3) gs(1,3) lim av unfolding advance_ok_def s1_def
      by simp_all
    from drain_rule [OF H s1(1,2)] obtain s2 where s2: "drain_due Q H s1 = Some s2" "P s2"
      "qinv (curr_tick s2) (tq s2)" "curr_tick s2 = ?c + dt" "announce_remaining s2 = ?r - dt"
      "curr_tick s2 \<notin> ran (expiry (curr_tick s2) (tq s2))" using s1 by auto
    have un: "u64 (?c + dt) = ?c + dt" "u32 (?r - dt) = ?r - dt"
      using bound gs(1,2) less.prems(4-6) by (simp_all add: u64_id u32_id)
    have "announce_loop Q H s = announce_loop Q H s2"
      by (subst announce_loop.simps)
        (simp only: Let_def gap_def [symmetric] dt_def [symmetric] un s1_def [symmetric] s2(1)
          True if_True option.case)
    moreover have "nat (announce_remaining s2) < nat ?r" using s2(5) gs(1) True by simp
    from less.hyps [OF this s2(2,3,6)] have "\<exists>s'. announce_loop Q H s2 = Some s' \<and> P s' \<and>
      qinv (curr_tick s') (tq s') \<and> curr_tick s' = ?c + ?r \<and> announce_remaining s' = 0 \<and>
      curr_tick s' \<notin> ran (expiry (curr_tick s') (tq s'))" using s2(4,5) gs(1,2) less.prems by auto
    ultimately show ?thesis by simp
  qed
qed

end

context timeout_q
begin

text \<open>With handlers that leave the queue alone, exactly the due timeouts fire, each at its tick.\<close>

definition fired_so_far ::
  "('id \<rightharpoonup> int) \<Rightarrow> ('id \<times> int) list \<Rightarrow> ('id, 'fn, 'q, ('id \<times> int) list) tstate_scheme \<Rightarrow> bool" where
  "fired_so_far E l s \<longleftrightarrow>
     (\<exists>f. tstate.more s = l @ f \<and> distinct (map fst f) \<and> sorted (map snd f) \<and>
        (\<forall>p\<in>set f. snd p \<le> curr_tick s \<and> fst p \<notin> dom (expiry (curr_tick s) (tq s))) \<and>
        (\<forall>t e. E t = Some e \<longleftrightarrow> (t, e) \<in> set f \<or> expiry (curr_tick s) (tq s) t = Some e))"

lemma log_handler_frame [simp]:
  "curr_tick (log_handler t f s) = curr_tick s" "tq (log_handler t f s) = tq s"
  "announce_remaining (log_handler t f s) = announce_remaining s"
  "tstate.more (log_handler t f s) = tstate.more s @ [(t, curr_tick s)]"
  by (simp_all add: log_handler_def)

lemma log_handler_step:
  assumes "fired_so_far E l s" and i: "qinv (curr_tick s) (tq s)"
    and pop: "q_pop_due Q (curr_tick s) (tq s) = Some (t, q)"
  shows "fired_so_far E l (log_handler t g (s\<lparr>tq := q, inflight_timeout := Some (t, False)\<rparr>)
    \<lparr>inflight_timeout := None\<rparr>)"
proof -
  let ?c = "curr_tick s"
  from assms(1) obtain f where f: "tstate.more s = l @ f" "distinct (map fst f)" "sorted (map snd f)"
    "\<forall>p\<in>set f. snd p \<le> ?c \<and> fst p \<notin> dom (expiry ?c (tq s))"
    "\<forall>t e. E t = Some e \<longleftrightarrow> (t, e) \<in> set f \<or> expiry ?c (tq s) t = Some e"
    unfolding fired_so_far_def by blast
  have q: "expiry ?c (tq s) t = Some ?c" "expiry ?c q = (expiry ?c (tq s))(t := None)"
    using pop_some [OF i pop] by auto
  have "distinct (map fst (f @ [(t, ?c)]))" using f(2,4) q(1) by (force simp: dom_def)
  moreover have "sorted (map snd (f @ [(t, ?c)]))" using f(3,4) by (auto simp: sorted_append)
  moreover have "\<forall>p\<in>set (f @ [(t, ?c)]). snd p \<le> ?c \<and> fst p \<notin> dom (expiry ?c q)"
    using f(4) q(2) by auto
  moreover have "\<forall>t' e. E t' = Some e \<longleftrightarrow> (t', e) \<in> set (f @ [(t, ?c)]) \<or> expiry ?c q t' = Some e"
    using f(5) q by auto
  ultimately show ?thesis unfolding fired_so_far_def
    by (intro exI [of _ "f @ [(t, ?c)]"]) (simp add: f(1))
qed

lemma log_handler_ok: "handler_ok Q qinv expiry (fired_so_far E l) log_handler"
  unfolding handler_ok_def Let_def using log_handler_step pop_some by fastforce

lemma announce_log:
  fixes s :: "('id, 'fn, 'q, ('id \<times> int) list) tstate_scheme"
  assumes i: "qinv (curr_tick s) (tq s)" and nd: "curr_tick s \<notin> ran (expiry (curr_tick s) (tq s))"
    and "0 \<le> curr_tick s" "0 \<le> n" "n < 2 ^ 32" "curr_tick s + n < 2 ^ 63"
  shows "\<exists>s' f. sys_clock_announce_locked Q log_handler n s = Some s' \<and>
    curr_tick s' = curr_tick s + n \<and> qinv (curr_tick s') (tq s') \<and> tstate.more s' = tstate.more s @ f \<and>
    sorted (map snd f) \<and> distinct (map fst f) \<and>
    set f = {(t, e). expiry (curr_tick s) (tq s) t = Some e \<and> e \<le> curr_tick s + n} \<and>
    expiry (curr_tick s') (tq s') =
      (\<lambda>t. case expiry (curr_tick s) (tq s) t of None \<Rightarrow> None
         | Some e \<Rightarrow> if e \<le> curr_tick s + n then None else Some e)"
proof -
  let ?E = "expiry (curr_tick s) (tq s)" and ?s = "s\<lparr>announce_remaining := n, announcing_cpu := 0\<rparr>"
  have "fired_so_far ?E (tstate.more s) ?s"
    unfolding fired_so_far_def by (intro exI [of _ "[]"]) simp
  moreover have "advance_ok Q qinv expiry (curr_tick s + n)
      (fired_so_far ?E (tstate.more s) :: ('id, 'fn, 'q, ('id \<times> int) list) tstate_scheme \<Rightarrow> bool)"
    unfolding advance_ok_def fired_so_far_def using advance_inv assms(6) by fastforce
  ultimately obtain s1 where s1: "announce_loop Q log_handler ?s = Some s1"
      "fired_so_far ?E (tstate.more s) s1" "qinv (curr_tick s1) (tq s1)"
      "curr_tick s1 = curr_tick s + n" "curr_tick s1 \<notin> ran (expiry (curr_tick s1) (tq s1))"
    using announce_rule [OF log_handler_ok [of ?E "tstate.more s"], of "curr_tick s + n" ?s] assms by auto
  from s1(2) obtain f where f: "tstate.more s1 = tstate.more s @ f" "distinct (map fst f)"
    "sorted (map snd f)" "\<forall>p\<in>set f. snd p \<le> curr_tick s1 \<and> fst p \<notin> dom (expiry (curr_tick s1) (tq s1))"
    "\<forall>t e. ?E t = Some e \<longleftrightarrow> (t, e) \<in> set f \<or> expiry (curr_tick s1) (tq s1) t = Some e"
    unfolding fired_so_far_def by blast
  have late: "curr_tick s1 < e" if "expiry (curr_tick s1) (tq s1) t = Some e" for t e
    using exp_due [OF s1(3), of e] s1(5) that by (metis order_le_less ranI)
  have "set f = {(t, e). ?E t = Some e \<and> e \<le> curr_tick s + n}"
    using f(4,5) late s1(4) by force
  moreover have "expiry (curr_tick s1) (tq s1) t =
      (case ?E t of None \<Rightarrow> None | Some e \<Rightarrow> if e \<le> curr_tick s + n then None else Some e)" for t
    using f(4,5) late [of t] s1(4)
    by (cases "expiry (curr_tick s1) (tq s1) t"; cases "?E t") force+
  ultimately show ?thesis using s1 f by (auto simp: sys_clock_announce_locked_def)
qed

end

context timeout_q
begin

text \<open>
  Adding a relative timeout makes it expire \<open>n\<close> full ticks from now: rounded up by a tick
  unless the caller runs at a tick edge, inside the announce loop.
\<close>

definition rel_expiry :: "int \<Rightarrow> ('id, 'fn, 'q, 'z) tstate_scheme \<Rightarrow> int" where
  "rel_expiry n s = curr_tick s + n + elapsed s + (if this_cpu_announcing s then 0 else 1)"

lemma rel_expiry_ge: "0 \<le> n \<Longrightarrow> curr_tick s \<le> rel_expiry n s"
  using elapsed_nonneg [of s] by (simp add: rel_expiry_def)

lemma add_relative:
  assumes i: "qinv (curr_tick s) (tq s)" and t: "t \<notin> dom (expiry (curr_tick s) (tq s))"
    and f: "\<not> full (tq s)" and n: "0 \<le> n" and c: "0 \<le> curr_tick s" "rel_expiry n s < 2 ^ 63"
  shows "fst (z_add_timeout Q t g n s) = rel_expiry n s"
    and "qinv (curr_tick s) (tq (snd (z_add_timeout Q t g n s)))"
    and "expiry (curr_tick s) (tq (snd (z_add_timeout Q t g n s))) =
      (expiry (curr_tick s) (tq s))(t \<mapsto> rel_expiry n s)"
proof -
  define d where "d = rel_expiry n s - curr_tick s"
  have d: "0 \<le> d" "d < 2 ^ 63" using rel_expiry_ge [OF n, of s] c by (simp_all add: d_def)
  have "n + elapsed s + (if this_cpu_announcing s then 0 else 1) = d" "curr_tick s + d = rel_expiry n s"
    by (simp_all add: d_def rel_expiry_def)
  then have dd: "s64 (n + elapsed s + (if this_cpu_announcing s then 0 else 1)) = d"
    "s64 (curr_tick s + d) = rel_expiry n s" "curr_tick s + d < 2 ^ 63"
    using d c by (simp_all add: s64_id)
  have rel: "n \<noteq> -1" "Z_IS_TIMEOUT_RELATIVE n" using n by (simp_all add: Z_IS_TIMEOUT_RELATIVE_def)
  note ins = insert_inv [OF i t d(1) dd(3) f]
  show "fst (z_add_timeout Q t g n s) = rel_expiry n s"
    "qinv (curr_tick s) (tq (snd (z_add_timeout Q t g n s)))"
    "expiry (curr_tick s) (tq (snd (z_add_timeout Q t g n s))) =
      (expiry (curr_tick s) (tq s))(t \<mapsto> rel_expiry n s)"
    using ins rel dd d_def
    by (simp_all add: z_add_timeout_def Let_def case_prod_unfold this_cpu_announcing_def)
qed

lemma abort_active:
  assumes i: "qinv (curr_tick s) (tq s)" and t: "expiry (curr_tick s) (tq s) t = Some e"
  shows "fst (z_try_abort_timeout Q t s) = 0"
    and "qinv (curr_tick s) (tq (snd (z_try_abort_timeout Q t s)))"
    and "expiry (curr_tick s) (tq (snd (z_try_abort_timeout Q t s))) =
      (expiry (curr_tick s) (tq s))(t := None)"
proof -
  have "\<not> q_inactive Q t (tq s)" using exp_inactive [OF i] t by auto
  with remove_inv [OF i t] show "fst (z_try_abort_timeout Q t s) = 0"
    "qinv (curr_tick s) (tq (snd (z_try_abort_timeout Q t s)))"
    "expiry (curr_tick s) (tq (snd (z_try_abort_timeout Q t s))) =
      (expiry (curr_tick s) (tq s))(t := None)"
    by (simp_all add: z_try_abort_timeout_def Let_def case_prod_unfold inflight_mark_superseded_def)
qed

lemma abort_inactive:
  assumes i: "qinv (curr_tick s) (tq s)" and t: "t \<notin> dom (expiry (curr_tick s) (tq s))"
  shows "fst (z_try_abort_timeout Q t s) = - EINVAL"
    and "tq (snd (z_try_abort_timeout Q t s)) = tq s"
  using exp_inactive [OF i] t
  by (simp_all add: z_try_abort_timeout_def Let_def case_prod_unfold inflight_mark_superseded_def)

text \<open>The wait asked of the driver ends at the earliest expiry, or earlier.\<close>

lemma next_timeout_le:
  assumes i: "qinv (curr_tick s) (tq s)" and nd: "curr_tick s \<notin> ran (expiry (curr_tick s) (tq s))"
    and e: "e \<in> ran (expiry (curr_tick s) (tq s))" and el: "0 \<le> el"
  shows "curr_tick s + el + next_timeout Q el s \<le> max e (curr_tick s + el)"
proof -
  let ?E = "expiry (curr_tick s) (tq s)"
  have fin: "finite (ran ?E)" using i by (simp add: exp_finite finite_ran)
  with e have m: "Min (ran ?E) \<in> ran ?E" "Min (ran ?E) \<le> e" by (blast intro: Min_in, simp)
  then have "curr_tick s < Min (ran ?E)" using exp_due [OF i m(1)] nd by (metis order_le_less)
  moreover have "q_next_expiry Q (curr_tick s) (tq s) = Min (ran ?E) - curr_tick s"
    using next_expiry [OF i nd] e by (auto simp: ran_def)
  ultimately show ?thesis using m(2) el
    by (auto simp: next_timeout_def Let_def SYS_CLOCK_MAX_WAIT_def u32_id)
qed

lemma reprogram_wakes:
  assumes i: "qinv (curr_tick s) (tq s)" and nd: "curr_tick s \<notin> ran (expiry (curr_tick s) (tq s))"
    and el: "0 \<le> clk_elapsed s" "clk_elapsed s < 2 ^ 32"
  shows "wakes_in_time expiry (sys_clock_set_timeout (next_timeout Q (clk_elapsed s) s) s)"
    and "wakes_in_time expiry (reprogram_next Q (clk_elapsed s) s)"
proof -
  show "wakes_in_time expiry (sys_clock_set_timeout (next_timeout Q (clk_elapsed s) s) s)"
    using next_timeout_le [OF i nd _ el(1)] by (auto simp: wakes_in_time_def add.assoc)
  moreover have "ran (expiry (curr_tick s) (tq s)) = {}"
    if "q_next_expiry Q (curr_tick s) (tq s) = -1"
  proof (rule ccontr)
    let ?E = "expiry (curr_tick s) (tq s)"
    assume ne: "ran ?E \<noteq> {}"
    then have m: "Min (ran ?E) \<in> ran ?E" using i by (auto simp: exp_finite finite_ran)
    with exp_due [OF i m] next_expiry [OF i nd] that show False by (auto split: if_splits)
  qed
  ultimately show "wakes_in_time expiry (reprogram_next Q (clk_elapsed s) s)"
    by (auto simp: reprogram_next_def wakes_in_time_def sys_clock_no_timeout_def)
qed

end

context timeout_q
begin

lemma wakes_mono:
  assumes "wakes_in_time expiry s" and "curr_tick s' = curr_tick s" "clk_elapsed s' = clk_elapsed s"
    and "clk_wait s' = clk_wait s"
    and "\<And>e. e \<in> ran (expiry (curr_tick s) (tq s')) \<Longrightarrow> \<exists>e'\<in>ran (expiry (curr_tick s) (tq s)). e' \<le> e"
  shows "wakes_in_time expiry s'"
  unfolding wakes_in_time_def
proof
  fix e assume "e \<in> ran (expiry (curr_tick s') (tq s'))"
  with assms(2,5) obtain e' where e': "e' \<in> ran (expiry (curr_tick s) (tq s))" "e' \<le> e" by auto
  with assms(1) obtain w where "clk_wait s = Some w"
    "curr_tick s + w \<le> max e' (curr_tick s + clk_elapsed s)" unfolding wakes_in_time_def by blast
  with e'(2) assms(2-4) show "\<exists>w. clk_wait s' = Some w \<and>
      curr_tick s' + w \<le> max e (curr_tick s' + clk_elapsed s')" by fastforce
qed

lemma idle_elapsed:
  "announcing_cpu s = -1 \<Longrightarrow> 0 \<le> clk_elapsed s \<Longrightarrow> clk_elapsed s < 2 ^ 32 \<Longrightarrow>
   elapsed s = clk_elapsed s \<and> \<not> any_cpu_announcing s \<and> \<not> this_cpu_announcing s"
  by (simp add: elapsed_def this_cpu_announcing_def any_cpu_announcing_def u32_id)

lemma add_wakes:
  assumes i: "qinv (curr_tick s) (tq s)" and nd: "curr_tick s \<notin> ran (expiry (curr_tick s) (tq s))"
    and t: "t \<notin> dom (expiry (curr_tick s) (tq s))"
    and f: "\<not> full (tq s)" and n: "0 \<le> n" and c: "0 \<le> curr_tick s" "rel_expiry n s < 2 ^ 63"
    and idle: "announcing_cpu s = -1" "0 \<le> clk_elapsed s" "clk_elapsed s < 2 ^ 32"
    and w: "wakes_in_time expiry s"
  shows "wakes_in_time expiry (snd (z_add_timeout Q t g n s))"
proof -
  let ?d = "n + clk_elapsed s + 1" and ?E = "expiry (curr_tick s) (tq s)"
  note el = idle_elapsed [OF idle]
  have d: "0 \<le> ?d" "curr_tick s + ?d < 2 ^ 63" "s64 ?d = ?d" using n idle c el
    by (auto simp: rel_expiry_def add.assoc intro!: s64_id)
  define s2 where "s2 = s\<lparr>tfn := (tfn s)(t := g), tq := snd (q_insert Q (curr_tick s) t ?d (tq s))\<rparr>"
  have eq: "snd (z_add_timeout Q t g n s) =
      (if fst (q_insert Q (curr_tick s) t ?d (tq s))
       then sys_clock_set_timeout (next_timeout Q (clk_elapsed s2) s2) s2 else s2)"
    using n el d(3) unfolding z_add_timeout_def Let_def case_prod_unfold s2_def
    by (simp add: Z_IS_TIMEOUT_RELATIVE_def this_cpu_announcing_def any_cpu_announcing_def idle)
  note ins = insert_inv [OF i t d(1,2) f]
  have E2: "expiry (curr_tick s2) (tq s2) = ?E(t \<mapsto> curr_tick s + ?d)" "qinv (curr_tick s2) (tq s2)"
    using ins by (simp_all add: s2_def)
  show ?thesis
  proof (cases "fst (q_insert Q (curr_tick s) t ?d (tq s))")
    case True
    have "curr_tick s2 \<notin> ran (expiry (curr_tick s2) (tq s2))"
      using E2 t nd n idle by (simp add: s2_def ran_map_upd domIff)
    from reprogram_wakes(1) [OF E2(2) this] idle True eq show ?thesis by (simp add: s2_def)
  next
    case False
    then obtain e where e: "e \<in> ran ?E" "e \<le> curr_tick s + ?d"
      using insert_first [OF i t d(1,2) f nd] by (auto simp: not_less)
    have "wakes_in_time expiry s2"
      by (rule wakes_mono [OF w]) (use E2 e t in \<open>auto simp: s2_def ran_map_upd domIff\<close>)
    with eq False show ?thesis by simp
  qed
qed

lemma abort_wakes:
  assumes i: "qinv (curr_tick s) (tq s)" and nd: "curr_tick s \<notin> ran (expiry (curr_tick s) (tq s))"
    and idle: "announcing_cpu s = -1" "0 \<le> clk_elapsed s" "clk_elapsed s < 2 ^ 32"
    and w: "wakes_in_time expiry s"
  shows "wakes_in_time expiry (snd (z_try_abort_timeout Q t s))"
proof (cases "expiry (curr_tick s) (tq s) t")
  case None
  then have "tq (snd (z_try_abort_timeout Q t s)) = tq s" "q_inactive Q t (tq s)"
    using abort_inactive(2) [OF i] exp_inactive [OF i] by auto
  then show ?thesis
    by (intro wakes_mono [OF w])
      (auto simp: z_try_abort_timeout_def Let_def inflight_mark_superseded_def)
next
  case (Some e)
  let ?E = "expiry (curr_tick s) (tq s)" and ?r = "q_remove Q (curr_tick s) t (tq s)"
  let ?s = "s\<lparr>tq := snd ?r\<rparr>"
  have r: "qinv (curr_tick s) (tq ?s)" "expiry (curr_tick s) (tq ?s) = ?E(t := None)"
    using remove_inv [OF i Some] by auto
  have sub: "ran (?E(t := None)) \<subseteq> ran ?E" by (auto simp: ran_def)
  have "wakes_in_time expiry ?s" by (rule wakes_mono [OF w]) (use r sub in auto)
  moreover have "wakes_in_time expiry (reprogram_next Q (clk_elapsed s) ?s)"
    using reprogram_wakes(2) [of ?s] r sub nd idle by auto
  moreover have "wakes_in_time expiry (inflight_mark_superseded u) = wakes_in_time expiry u"
    for u :: "('id, 'a, 'q, 'b) tstate_scheme"
    by (simp add: wakes_in_time_def inflight_mark_superseded_def)
  ultimately show ?thesis using idle_elapsed [OF idle] exp_inactive [OF i, of t] Some
    by (simp add: z_try_abort_timeout_def Let_def case_prod_unfold domIff)
qed

text \<open>The announce, for arbitrary well-behaved handlers.\<close>

lemma announce_total:
  assumes H: "handler_ok Q qinv expiry P H"
    and adv: "advance_ok Q qinv expiry (curr_tick s + n) P"
    and P: "P (s\<lparr>announce_remaining := n, announcing_cpu := 0\<rparr>)"
    and i: "qinv (curr_tick s) (tq s)" "curr_tick s \<notin> ran (expiry (curr_tick s) (tq s))"
    and n: "0 \<le> curr_tick s" "0 \<le> n" "n < 2 ^ 32" "curr_tick s + n < 2 ^ 63"
  shows "\<exists>u s'. sys_clock_announce_locked Q H n s = Some s' \<and> P u \<and>
    s' = reprogram_next Q 0 (u\<lparr>announcing_cpu := -1\<rparr>) \<and> curr_tick s' = curr_tick s + n \<and>
    qinv (curr_tick s') (tq s') \<and> (\<forall>e\<in>ran (expiry (curr_tick s') (tq s')). curr_tick s' < e) \<and>
    (clk_elapsed s' = 0 \<longrightarrow> wakes_in_time expiry s')"
proof -
  let ?s = "s\<lparr>announce_remaining := n, announcing_cpu := 0\<rparr>"
  obtain u where u: "announce_loop Q H ?s = Some u" "P u" "qinv (curr_tick u) (tq u)"
      "curr_tick u = curr_tick s + n" "curr_tick u \<notin> ran (expiry (curr_tick u) (tq u))"
    using announce_rule [OF H adv P] i n by auto
  have "curr_tick u < e" if "e \<in> ran (expiry (curr_tick u) (tq u))" for e
    using exp_due [OF u(3) that] u(5) that by (metis order_le_less)
  moreover have "wakes_in_time expiry (reprogram_next Q 0 (u\<lparr>announcing_cpu := -1\<rparr>))"
    if "clk_elapsed u = 0"
    using reprogram_wakes(2) [of "u\<lparr>announcing_cpu := -1\<rparr>"] that u(3,5) by simp
  ultimately show ?thesis using u
    by (intro exI [of _ u] exI [of _ "reprogram_next Q 0 (u\<lparr>announcing_cpu := -1\<rparr>)"])
      (simp add: sys_clock_announce_locked_def)
qed

end

section \<open>Backends with first-in first-out order among equal expiries\<close>

locale timeout_fifo_q = timeout_q +
  fixes pending :: "int \<Rightarrow> 'b \<Rightarrow> ('a \<times> int) list"
  assumes pending_map: "qinv c q \<Longrightarrow> expiry c q = map_of (pending c q)"
    and pending_wf: "qinv c q \<Longrightarrow>
      distinct (map fst (pending c q)) \<and> sorted_wrt (\<lambda>a b. snd a \<le> snd b) (pending c q)"
    and pending_insert: "qinv c q \<Longrightarrow> t \<notin> dom (expiry c q) \<Longrightarrow> 0 \<le> d \<Longrightarrow> c + d < 2 ^ 63 \<Longrightarrow>
      \<not> full q \<Longrightarrow> pending c (snd (q_insert Q c t d q)) =
        insert_before (\<lambda>p. c + d < snd p) (t, c + d) (pending c q)"
    and pending_remove: "qinv c q \<Longrightarrow> t \<in> dom (expiry c q) \<Longrightarrow>
      pending c (snd (q_remove Q c t q)) = filter (\<lambda>p. fst p \<noteq> t) (pending c q)"
    and pending_advance: "qinv c q \<Longrightarrow> c \<notin> ran (expiry c q) \<Longrightarrow> 0 < dt \<Longrightarrow> c + dt < 2 ^ 63 \<Longrightarrow>
      \<forall>e\<in>ran (expiry c q). c + dt \<le> e \<Longrightarrow> pending (c + dt) (q_advance Q c dt q) = pending c q"
    and pending_pop: "qinv c q \<Longrightarrow> q_pop_due Q c q = Some (t, q') \<Longrightarrow>
      pending c q = (t, c) # pending c q'"
begin

definition fired_in_order ::
  "('a \<times> int) list \<Rightarrow> ('a \<times> int) list \<Rightarrow> ('a, 'fn, 'b, ('a \<times> int) list) tstate_scheme \<Rightarrow> bool" where
  "fired_in_order ps l s \<longleftrightarrow>
     (\<exists>f. tstate.more s = l @ f \<and> ps = f @ pending (curr_tick s) (tq s) \<and>
        (\<forall>p\<in>set f. snd p \<le> curr_tick s))"

lemma log_in_order_ok: "handler_ok Q qinv expiry (fired_in_order ps l) log_handler"
  unfolding handler_ok_def Let_def fired_in_order_def
  by (auto dest: pop_some pending_pop)

lemma announce_fifo:
  assumes i: "qinv (curr_tick s) (tq s)" and nd: "curr_tick s \<notin> ran (expiry (curr_tick s) (tq s))"
    and n: "0 \<le> curr_tick s" "0 \<le> n" "n < 2 ^ 32" "curr_tick s + n < 2 ^ 63"
  shows "\<exists>s'. sys_clock_announce_locked Q log_handler n s = Some s' \<and>
    curr_tick s' = curr_tick s + n \<and> qinv (curr_tick s') (tq s') \<and>
    tstate.more s' = tstate.more s @
      takeWhile (\<lambda>p. snd p \<le> curr_tick s + n) (pending (curr_tick s) (tq s)) \<and>
    pending (curr_tick s') (tq s') =
      dropWhile (\<lambda>p. snd p \<le> curr_tick s + n) (pending (curr_tick s) (tq s))"
proof -
  let ?p = "pending (curr_tick s) (tq s)" and ?l = "tstate.more s"
  have adv: "advance_ok Q qinv expiry (curr_tick s + n) (fired_in_order ?p ?l)"
    unfolding advance_ok_def fired_in_order_def using pending_advance n(4) by fastforce
  have "fired_in_order ?p ?l (s\<lparr>announce_remaining := n, announcing_cpu := 0\<rparr>)"
    by (simp add: fired_in_order_def)
  from announce_total [OF log_in_order_ok adv this i nd n]
  obtain u s' where s': "sys_clock_announce_locked Q log_handler n s = Some s'"
    "fired_in_order ?p ?l u" "s' = reprogram_next Q 0 (u\<lparr>announcing_cpu := -1\<rparr>)"
    "curr_tick s' = curr_tick s + n" "qinv (curr_tick s') (tq s')"
    "\<forall>e\<in>ran (expiry (curr_tick s') (tq s')). curr_tick s' < e" by auto
  from s'(2,3) obtain f where f: "tstate.more s' = ?l @ f"
    "?p = f @ pending (curr_tick s') (tq s')" "\<forall>p\<in>set f. snd p \<le> curr_tick s'"
    by (auto simp: fired_in_order_def)
  have "map_of (pending (curr_tick s') (tq s')) = expiry (curr_tick s') (tq s')"
    "distinct (map fst (pending (curr_tick s') (tq s')))"
    using pending_map pending_wf s'(5) by auto
  then have late: "curr_tick s' < snd p" if "p \<in> set (pending (curr_tick s') (tq s'))" for p
    using that s'(6) by (metis map_of_is_SomeI prod.collapse ranI)
  have "takeWhile (\<lambda>p. snd p \<le> curr_tick s + n) ?p = f \<and>
      dropWhile (\<lambda>p. snd p \<le> curr_tick s + n) ?p = pending (curr_tick s') (tq s')"
    unfolding f(2) using f(3) late s'(4)
    by (cases "pending (curr_tick s') (tq s')") (force simp: takeWhile_append dropWhile_append)+
  with s' f show ?thesis by auto
qed

end

section \<open>Timepoints\<close>

text \<open>
  C5: a timepoint computed from a relative timeout of \<open>n\<close> ticks turns back, \<open>k\<close> ticks later, into
  the \<open>n - k\<close> ticks that remain, and into \<^verbatim>\<open>K_NO_WAIT\<close> once they are over; \<^verbatim>\<open>K_FOREVER\<close> and
  \<^verbatim>\<open>K_NO_WAIT\<close> are kept at any time.
\<close>

theorem timepoint_roundtrip:
  assumes "0 \<le> sys_clock_tick_get s" and "0 \<le> k" and "0 < n"
    and "sys_clock_tick_get s' = sys_clock_tick_get s + k" and "sys_clock_tick_get s + n < 2 ^ 63"
  shows "sys_timepoint_timeout (sys_timepoint_calc n s) s' = max 0 (n - k) \<and>
    sys_timepoint_timeout (sys_timepoint_calc K_FOREVER s) s' = K_FOREVER \<and>
    sys_timepoint_timeout (sys_timepoint_calc K_NO_WAIT s) s' = K_NO_WAIT"
proof -
  have k: "sys_clock_tick_get s + k < 2 ^ 63"
    using s64_range(2) [of "u64 (curr_tick s' + elapsed s')"] assms(4)
    by (simp add: sys_clock_tick_get_def)
  have "sys_timepoint_calc n s = sys_clock_tick_get s + n"
    using assms by (simp add: sys_timepoint_calc_def Z_IS_TIMEOUT_RELATIVE_def u64_id)
  moreover have "u64 (sys_clock_tick_get s') = sys_clock_tick_get s + k"
    using assms k by (simp add: u64_id)
  ultimately show ?thesis using assms
    by (auto simp: sys_timepoint_timeout_def sys_timepoint_calc_def Let_def s64_id)
qed

text \<open>A front-end state at tick \<open>c\<close>, with no backend.\<close>

definition clock_at :: "int \<Rightarrow> (nat, unit, unit) tstate" where
  "clock_at c = \<lparr>curr_tick = c, announce_remaining = 0, announcing_cpu = -1,
     inflight_timeout = None, tq = (), tfn = (\<lambda>_. ()), clk_elapsed = 0, clk_wait = None,
     sloppy_idle = False\<rparr>"

theorem timepoint_roundtrip_witness:
  "sys_timepoint_timeout (sys_timepoint_calc 10 (clock_at 1000)) (clock_at 1004) = 6"
  using timepoint_roundtrip [of "clock_at 1000" 4 10 "clock_at 1004"]
  by (simp add: clock_at_def sys_clock_tick_get_def elapsed_def this_cpu_announcing_def u32_def
      u64_def s64_def)

end
