(* ===== verification/Timeout_List.thy ===== *)
theory Timeout_List
  imports Timeouts
begin

text \<open>
  The default backend of the timeout queue, \<^verbatim>\<open>kernel/timeout_list.h\<close>: a list sorted by expiry in
  which each node stores its expiry as a delta (\<^verbatim>\<open>dticks\<close>) to its predecessor.  The list of
  nodes is a HOL list, by the contract of theory \<open>Sys_Dlist\<close>; a timeout is inactive when it is
  not linked, that is not on the list.  \<open>dl_abs\<close> reads the absolute expiries off the deltas.
\<close>

section \<open>Operations\<close>

type_synonym 'id dlq = "('id \<times> int) list"

definition dl_q_first :: "'id dlq \<Rightarrow> 'id option" where
  "dl_q_first q = (case q of [] \<Rightarrow> None | (t, _) # _ \<Rightarrow> Some t)"

fun dl_insert :: "'id \<Rightarrow> int \<Rightarrow> 'id dlq \<Rightarrow> 'id dlq" where
  "dl_insert to d [] = [(to, d)]"
| "dl_insert to d ((t, dt) # ts) =
     (if dt > d then (to, d) # (t, dt - d) # ts else (t, dt) # dl_insert to (d - dt) ts)"

definition dl_q_insert :: "int \<Rightarrow> 'id \<Rightarrow> int \<Rightarrow> 'id dlq \<Rightarrow> bool \<times> 'id dlq" where
  "dl_q_insert c to dticks q = (let q' = dl_insert to dticks q in (dl_q_first q' = Some to, q'))"

fun dl_remove :: "'id \<Rightarrow> 'id dlq \<Rightarrow> 'id dlq" where
  "dl_remove to [] = []"
| "dl_remove to ((t, dt) # ts) =
     (if t = to then (case ts of [] \<Rightarrow> [] | (n, dn) # ns \<Rightarrow> (n, dn + dt) # ns)
      else (t, dt) # dl_remove to ts)"

definition dl_q_remove :: "int \<Rightarrow> 'id \<Rightarrow> 'id dlq \<Rightarrow> bool \<times> 'id dlq" where
  "dl_q_remove c to q = (dl_q_first q = Some to, dl_remove to q)"

fun dl_remainder :: "'id \<Rightarrow> int \<Rightarrow> 'id dlq \<Rightarrow> int" where
  "dl_remainder to ticks [] = ticks"
| "dl_remainder to ticks ((t, dt) # ts) =
     (if to = t then ticks + dt else dl_remainder to (ticks + dt) ts)"

definition dl_q_remainder :: "int \<Rightarrow> 'id \<Rightarrow> 'id dlq \<Rightarrow> int" where
  "dl_q_remainder c to q = dl_remainder to 0 q"

definition dl_q_next_expiry :: "int \<Rightarrow> 'id dlq \<Rightarrow> int" where
  "dl_q_next_expiry c q = (case q of [] \<Rightarrow> K_TICKS_FOREVER | (_, dt) # _ \<Rightarrow> dt)"

definition dl_q_next_gap :: "int \<Rightarrow> 'id dlq \<Rightarrow> int" where
  "dl_q_next_gap c q = (case q of [] \<Rightarrow> INT32_MAX | (_, dt) # _ \<Rightarrow> s32 (min dt INT32_MAX))"

definition dl_q_advance :: "int \<Rightarrow> int \<Rightarrow> 'id dlq \<Rightarrow> 'id dlq" where
  "dl_q_advance c dt q = (case q of [] \<Rightarrow> [] | (t, d) # ts \<Rightarrow> (t, d - dt) # ts)"

definition dl_q_pop_due :: "int \<Rightarrow> 'id dlq \<Rightarrow> ('id \<times> 'id dlq) option" where
  "dl_q_pop_due c q =
     (case q of [] \<Rightarrow> None | (t, d) # ts \<Rightarrow> if d \<noteq> 0 then None else Some (t, ts))"

definition dl_q_inactive :: "'id \<Rightarrow> 'id dlq \<Rightarrow> bool" where
  "dl_q_inactive to q \<longleftrightarrow> to \<notin> fst ` set q"

definition dlist_ops :: "('id, 'id dlq) tq_ops" where
  "dlist_ops = \<lparr>q_insert = dl_q_insert, q_remove = dl_q_remove, q_remainder = dl_q_remainder,
     q_next_expiry = dl_q_next_expiry, q_next_gap = dl_q_next_gap, q_advance = dl_q_advance,
     q_pop_due = dl_q_pop_due, q_inactive = dl_q_inactive\<rparr>"

lemma dlist_ops_simps [simp]:
  "q_insert dlist_ops = dl_q_insert" "q_remove dlist_ops = dl_q_remove"
  "q_remainder dlist_ops = dl_q_remainder" "q_next_expiry dlist_ops = dl_q_next_expiry"
  "q_next_gap dlist_ops = dl_q_next_gap" "q_advance dlist_ops = dl_q_advance"
  "q_pop_due dlist_ops = dl_q_pop_due" "q_inactive dlist_ops = dl_q_inactive"
  by (simp_all add: dlist_ops_def)

section \<open>The absolute expiries\<close>

fun dl_abs :: "int \<Rightarrow> 'id dlq \<Rightarrow> ('id \<times> int) list" where
  "dl_abs c [] = []"
| "dl_abs c ((t, d) # ts) = (t, c + d) # dl_abs (c + d) ts"

definition dl_inv :: "int \<Rightarrow> 'id dlq \<Rightarrow> bool" where
  "dl_inv c q \<longleftrightarrow> distinct (map fst q) \<and> (\<forall>p\<in>set q. 0 \<le> snd p)"

definition dl_expiry :: "int \<Rightarrow> 'id dlq \<Rightarrow> ('id \<rightharpoonup> int)" where
  "dl_expiry c q = map_of (dl_abs c q)"

lemma map_fst_dl_abs [simp]: "map fst (dl_abs c q) = map fst q"
  by (induction q arbitrary: c) auto

lemma fst_dl_abs [simp]: "fst ` set (dl_abs c q) = fst ` set q"
  by (metis list.set_map map_fst_dl_abs)

lemma dl_abs_ge: "\<forall>p\<in>set q. 0 \<le> snd p \<Longrightarrow> p \<in> set (dl_abs c q) \<Longrightarrow> c \<le> snd p"
  by (induction q arbitrary: c) (auto, fastforce)

lemma dl_abs_sorted: "\<forall>p\<in>set q. 0 \<le> snd p \<Longrightarrow> sorted_wrt (\<lambda>a b. snd a \<le> snd b) (dl_abs c q)"
  by (induction q arbitrary: c) (auto dest: dl_abs_ge)

lemma dl_abs_insert:
  "dl_abs c (dl_insert to d q) = insert_before (\<lambda>p. c + d < snd p) (to, c + d) (dl_abs c q)"
  by (induction to d q arbitrary: c rule: dl_insert.induct) (auto simp: algebra_simps)

lemma dl_abs_remove:
  assumes "distinct (map fst q)"
  shows "dl_abs c (dl_remove to q) = filter (\<lambda>p. fst p \<noteq> to) (dl_abs c q)"
  using assms
proof (induction to q arbitrary: c rule: dl_remove.induct)
  case (2 to t dt ts)
  have "filter (\<lambda>p. fst p \<noteq> to) (dl_abs x ts) = dl_abs x ts" if "t = to" for x
  proof -
    have "to \<notin> fst ` set (dl_abs x ts)" using 2(2) that by simp
    then show ?thesis unfolding filter_id_conv by (metis imageI)
  qed
  with 2 show ?case by (auto split: list.splits simp: algebra_simps)
qed simp

lemma dl_abs_remainder:
  "distinct (map fst q) \<Longrightarrow> map_of (dl_abs c q) to = Some e \<Longrightarrow> dl_remainder to k q = k + e - c"
proof (induction q arbitrary: c k)
  case (Cons p q)
  then show ?case by (cases p) (auto split: if_splits)
qed simp

lemma dl_expiry_dom [simp]: "dom (dl_expiry c q) = fst ` set q"
  by (simp add: dl_expiry_def dom_map_of_conv_image_fst)

lemma dl_expiry_ran: "dl_inv c q \<Longrightarrow> ran (dl_expiry c q) = snd ` set (dl_abs c q)"
  unfolding dl_expiry_def dl_inv_def by (intro ran_distinct) simp

lemma fst_dl_insert: "fst ` set (dl_insert to d q) = insert to (fst ` set q)"
  by (induction to d q rule: dl_insert.induct) auto

lemma dl_inv_insert:
  "dl_inv c q \<Longrightarrow> to \<notin> fst ` set q \<Longrightarrow> 0 \<le> d \<Longrightarrow> dl_inv c (dl_insert to d q)"
proof (induction to d q rule: dl_insert.induct)
  case (2 to d t dt ts)
  have "t \<notin> fst ` set (dl_insert to (d - dt) ts)" using 2(2,3) by (auto simp: dl_inv_def fst_dl_insert)
  with 2 show ?case by (simp add: dl_inv_def)
qed (simp add: dl_inv_def)

lemma set_dl_remove_fst: "fst ` set (dl_remove to q) \<subseteq> fst ` set q"
  by (induction to q rule: dl_remove.induct) (auto split: list.splits)

lemma dl_inv_remove: "dl_inv c q \<Longrightarrow> dl_inv c (dl_remove to q)"
proof (induction to q rule: dl_remove.induct)
  case (2 to t dt ts)
  then have "t \<notin> fst ` set (dl_remove to ts)" using set_dl_remove_fst [of to ts]
    by (auto simp: dl_inv_def)
  with 2 show ?case by (cases ts) (auto simp: dl_inv_def)
qed simp

lemma dl_map_of_remove:
  "dl_inv c q \<Longrightarrow> dl_expiry c (dl_remove to q) = (dl_expiry c q)(to := None)"
  by (auto simp: dl_expiry_def dl_abs_remove dl_inv_def map_of_filter_fst)

lemma dl_map_of_insert:
  "to \<notin> fst ` set q \<Longrightarrow> dl_expiry c (dl_insert to d q) = (dl_expiry c q)(to \<mapsto> c + d)"
  by (simp add: dl_expiry_def dl_abs_insert map_of_insert_before)

lemma dl_insert_first:
  assumes "dl_inv c q" and "to \<notin> fst ` set q"
  shows "dl_q_first (dl_insert to d q) = Some to \<longleftrightarrow> (\<forall>e\<in>ran (dl_expiry c q). c + d < e)"
proof (cases q)
  case (Cons p ts)
  obtain t dt where p: "p = (t, dt)" by (cases p)
  have "c + dt \<le> e" if "e \<in> snd ` set (dl_abs (c + dt) ts)" for e
    using dl_abs_ge [of ts _ "c + dt"] assms(1) that by (auto simp: dl_inv_def Cons)
  then have "(\<forall>e\<in>ran (dl_expiry c q). c + d < e) \<longleftrightarrow> d < dt"
    unfolding dl_expiry_ran [OF assms(1)] by (fastforce simp: Cons p)
  with assms(2) show ?thesis by (auto simp: Cons p dl_q_first_def)
qed (simp add: dl_q_first_def dl_expiry_def)

lemma dl_remove_first:
  assumes "dl_inv c q" and "dl_expiry c q t = Some e" and "\<forall>e'\<in>ran ((dl_expiry c q)(t := None)). e < e'"
  shows "dl_q_first q = Some t"
proof (cases q)
  case (Cons p ts)
  obtain t' dt where p: "p = (t', dt)" by (cases p)
  show ?thesis
  proof (cases "t' = t")
    case False
    have "c + dt \<in> ran ((dl_expiry c q)(t := None))"
      by (rule ranI [of _ t']) (use False in \<open>simp add: Cons p dl_expiry_def\<close>)
    moreover have "c + dt \<le> e"
      using assms(1,2) False dl_abs_ge [of ts "(t, e)" "c + dt"]
      by (auto simp: dl_inv_def Cons p dl_expiry_def dest: map_of_SomeD)
    ultimately show ?thesis using assms(3) by fastforce
  qed (simp add: Cons p dl_q_first_def)
qed (use assms(2) in \<open>simp add: dl_expiry_def\<close>)

lemma dl_min:
  assumes "dl_inv c ((t, d) # ts)"
  shows "Min (ran (dl_expiry c ((t, d) # ts))) = c + d"
  unfolding dl_expiry_ran [OF assms]
proof (rule Min_eqI)
  show "c + d \<le> e" if "e \<in> snd ` set (dl_abs c ((t, d) # ts))" for e
    using that assms dl_abs_ge [of ts _ "c + d"] by (auto simp: dl_inv_def)
qed auto

lemma dl_abs_advance: "dl_abs (c + dt) (dl_q_advance c dt q) = dl_abs c q"
  by (auto simp: dl_q_advance_def split: list.split)

lemma dl_expiry_advance: "dl_expiry (c + dt) (dl_q_advance c dt q) = dl_expiry c q"
  by (simp add: dl_expiry_def dl_abs_advance)

lemma dl_inv_advance:
  "dl_inv c q \<Longrightarrow> \<forall>e\<in>ran (dl_expiry c q). c + dt \<le> e \<Longrightarrow> dl_inv (c + dt) (dl_q_advance c dt q)"
  using dl_expiry_ran [of c q] by (cases q) (auto simp: dl_q_advance_def dl_inv_def)

lemma dl_pop_some:
  assumes "dl_inv c q" and "dl_q_pop_due c q = Some (t, q')"
  shows "q = (t, 0) # q'" "dl_inv c q'" "dl_expiry c q t = Some c"
    "dl_expiry c q' = (dl_expiry c q)(t := None)"
proof -
  show q: "q = (t, 0) # q'" using assms(2) by (auto simp: dl_q_pop_due_def split: list.splits if_splits)
  then show "dl_inv c q'" "dl_expiry c q t = Some c" using assms(1) by (simp_all add: dl_inv_def dl_expiry_def)
  have "t \<notin> dom (dl_expiry c q')" using assms(1) q by (simp add: dl_inv_def)
  then show "dl_expiry c q' = (dl_expiry c q)(t := None)"
    by (auto simp: q dl_expiry_def domIff)
qed

lemma dl_pop_none:
  assumes "dl_inv c q"
  shows "dl_q_pop_due c q = None \<longleftrightarrow> c \<notin> ran (dl_expiry c q)"
proof (cases q)
  case (Cons p ts)
  obtain t d where p: "p = (t, d)" by (cases p)
  have "0 \<le> d" "\<And>p. p \<in> set (dl_abs (c + d) ts) \<Longrightarrow> c + d \<le> snd p"
    using assms dl_abs_ge [of ts _ "c + d"] by (auto simp: Cons p dl_inv_def)
  then show ?thesis unfolding dl_expiry_ran [OF assms] by (force simp: Cons p dl_q_pop_due_def)
qed (simp add: dl_q_pop_due_def dl_expiry_def)

interpretation dlt: timeout_fifo_q dlist_ops dl_inv dl_expiry "\<lambda>_. False" dl_abs
proof
  fix c :: int and q :: "'a dlq" and t :: 'a
  assume i: "dl_inv c q"
  show "finite (dom (dl_expiry c q))" by simp
  show "dl_expiry c q = map_of (dl_abs c q)" by (simp add: dl_expiry_def)
  show "distinct (map fst (dl_abs c q)) \<and> sorted_wrt (\<lambda>a b. snd a \<le> snd b) (dl_abs c q)"
    using i by (simp add: dl_inv_def dl_abs_sorted)
  show "c \<le> e" if "e \<in> ran (dl_expiry c q)" for e
    using that i dl_abs_ge by (auto simp: dl_expiry_ran dl_inv_def)
  show "q_inactive dlist_ops t q \<longleftrightarrow> t \<notin> dom (dl_expiry c q)"
    by (simp add: dl_q_inactive_def)
  show "q_remainder dlist_ops c t q = e - c" if "dl_expiry c q t = Some e" for e
    using dl_abs_remainder [of q c t e 0] that i
    by (simp add: dl_q_remainder_def dl_expiry_def dl_inv_def)
  show "q_next_expiry dlist_ops c q =
      (if dl_expiry c q = Map.empty then K_TICKS_FOREVER else Min (ran (dl_expiry c q)) - c)"
    using i by (auto simp: dl_q_next_expiry_def dl_min split: list.split) (simp_all add: dl_expiry_def)
  show "q_next_gap dlist_ops c q =
      (if dl_expiry c q = Map.empty then INT32_MAX else min (Min (ran (dl_expiry c q)) - c) INT32_MAX)"
    if "c \<notin> ran (dl_expiry c q)"
    using i by (auto simp: dl_q_next_gap_def dl_min dl_inv_def s32_id min_def split: list.split)
      (simp_all add: dl_expiry_def)
  show "q_pop_due dlist_ops c q = None \<longleftrightarrow> c \<notin> ran (dl_expiry c q)"
    using i by (simp add: dl_pop_none)
  show "dl_expiry c q t = Some c \<and> dl_inv c q' \<and> dl_expiry c q' = (dl_expiry c q)(t := None)"
    if "q_pop_due dlist_ops c q = Some (t, q')" for q'
    using dl_pop_some [OF i] that by simp
  show "dl_abs c q = (t, c) # dl_abs c q'" if "q_pop_due dlist_ops c q = Some (t, q')" for q'
    using dl_pop_some [OF i] that by auto
  show "dl_abs c (snd (q_remove dlist_ops c t q)) = filter (\<lambda>p. fst p \<noteq> t) (dl_abs c q)"
    using i by (simp add: dl_q_remove_def dl_abs_remove dl_inv_def)
qed (auto simp: dl_q_insert_def dl_q_remove_def Let_def dl_inv_insert dl_inv_remove dl_abs_insert
  dl_insert_first dl_map_of_remove dl_remove_first dl_map_of_insert dl_abs_advance
  dl_expiry_advance dl_inv_advance)

section \<open>Properties of the timeout subsystem with this backend\<close>

text \<open>A state of the front end with the pending timeouts \<open>q\<close>, for the witnesses.\<close>

definition idle_timeouts :: "int \<Rightarrow> nat dlq \<Rightarrow> (nat, unit, nat dlq, (nat \<times> int) list) tstate_scheme" where
  "idle_timeouts c q = \<lparr>curr_tick = c, announce_remaining = 0, announcing_cpu = -1,
     inflight_timeout = None, tq = q, tfn = (\<lambda>_. ()), clk_elapsed = 0, clk_wait = Some 0,
     sloppy_idle = False, \<dots> = []\<rparr>"




text \<open>A periodic handler: each firing schedules the timeout again, \<open>period\<close> ticks later.\<close>

definition periodic ::
  "int \<Rightarrow> nat \<Rightarrow> unit \<Rightarrow> (nat, unit, nat dlq, 'z) tstate_scheme \<Rightarrow> (nat, unit, nat dlq, 'z) tstate_scheme" where
  "periodic period t f s = snd (z_add_timeout dlist_ops t f period s)"

definition announcing_soon :: "(nat, unit, nat dlq, 'z) tstate_scheme \<Rightarrow> bool" where
  "announcing_soon s \<longleftrightarrow> announcing_cpu s = 0 \<and> 0 \<le> curr_tick s \<and> curr_tick s < 2 ^ 40"

lemma periodic_ok:
  assumes "0 < period" "period < 2 ^ 40"
  shows "handler_ok dlist_ops dl_inv dl_expiry announcing_soon (periodic period)"
  unfolding handler_ok_def
proof (intro allI impI, elim conjE)
  fix s :: "(nat, unit, nat dlq, 'z) tstate_scheme" and t q
  assume P: "announcing_soon s" and i: "dl_inv (curr_tick s) (tq s)"
    and pop: "q_pop_due dlist_ops (curr_tick s) (tq s) = Some (t, q)"
  let ?u = "s\<lparr>tq := q, inflight_timeout := Some (t, False)\<rparr>"
  let ?s = "(periodic period t (tfn s t) ?u)\<lparr>inflight_timeout := None\<rparr>"
  note ps = dlt.pop_some [OF i pop]
  have rel: "dlt.rel_expiry period ?u = curr_tick s + period"
    using P by (simp add: dlt.rel_expiry_def announcing_soon_def elapsed_def this_cpu_announcing_def)
  have u: "dl_inv (curr_tick ?u) (tq ?u)" "t \<notin> dom (dl_expiry (curr_tick ?u) (tq ?u))"
    "0 \<le> period" "0 \<le> curr_tick ?u" "dlt.rel_expiry period ?u < 2 ^ 63"
    using ps P assms rel by (simp_all add: announcing_soon_def domIff)
  note add = dlt.add_relative [OF u(1,2) _ u(3-5)]
  have "dl_expiry (curr_tick s) (tq ?s) = (dl_expiry (curr_tick s) q)(t \<mapsto> curr_tick s + period)"
    "dl_inv (curr_tick s) (tq ?s)"
    using add [of "tfn s t"] rel by (simp_all add: periodic_def)
  with P assms(1) show "let s' = ?s in announcing_soon s' \<and> dl_inv (curr_tick s') (tq s') \<and>
      curr_tick s' = curr_tick s \<and> announce_remaining s' = announce_remaining s \<and>
      (\<forall>t. dl_expiry (curr_tick s) (tq s') t = Some (curr_tick s) \<longrightarrow>
           dl_expiry (curr_tick s) q t = Some (curr_tick s))"
    by (simp add: Let_def periodic_def announcing_soon_def)
qed


text \<open>
  C3: \<^verbatim>\<open>z_add_timeout\<close> with a relative timeout of \<open>n\<close> ticks returns the absolute tick at which it
  expires, which is the one \<^verbatim>\<open>z_timeout_expires\<close> then reports and is at least \<open>n\<close> full ticks
  away; no other timeout moves, the queue stays well formed, and the driver's wake-up still
  precedes every expiry.
\<close>

theorem add_timeout_correct:
  fixes s :: "('id, 'fn, 'id dlq, 'z) tstate_scheme"
  assumes i: "dl_inv (curr_tick s) (tq s)" and nd: "curr_tick s \<notin> ran (dl_expiry (curr_tick s) (tq s))"
    and t: "t \<notin> fst ` set (tq s)" and n: "0 \<le> n" "0 \<le> curr_tick s"
    and idle: "announcing_cpu s = -1" "0 \<le> clk_elapsed s" "clk_elapsed s < 2 ^ 32"
    and ov: "curr_tick s + clk_elapsed s + n + 1 < 2 ^ 63" and w: "wakes_in_time dl_expiry s"
    and r: "z_add_timeout dlist_ops t f n s = (ticks, s')"
  shows "ticks = curr_tick s + clk_elapsed s + n + 1 \<and> z_timeout_expires dlist_ops t s' = ticks \<and>
    dl_expiry (curr_tick s') (tq s') = (dl_expiry (curr_tick s) (tq s))(t \<mapsto> ticks) \<and>
    dl_inv (curr_tick s') (tq s') \<and> wakes_in_time dl_expiry s'"
proof -
  have rel: "dlt.rel_expiry n s = curr_tick s + clk_elapsed s + n + 1"
    using dlt.idle_elapsed [OF idle] by (simp add: dlt.rel_expiry_def)
  have s': "s' = snd (z_add_timeout dlist_ops t f n s)" "ticks = fst (z_add_timeout dlist_ops t f n s)"
    using r by simp_all
  have t': "t \<notin> dom (dl_expiry (curr_tick s) (tq s))" using t by simp
  note a = dlt.add_relative [OF i t' _ n, of f] and w' = dlt.add_wakes [OF i nd t' _ n _ idle w, of f]
  have e: "dl_expiry (curr_tick s') (tq s') = (dl_expiry (curr_tick s) (tq s))(t \<mapsto> ticks)"
    "dl_inv (curr_tick s') (tq s')" "ticks = curr_tick s + clk_elapsed s + n + 1"
    using a rel ov s' by simp_all
  have "z_timeout_expires dlist_ops t s' = ticks"
    using dlt.remainder [OF e(2), of t ticks] dlt.exp_inactive [OF e(2), of t] e(1)
    by (simp add: z_timeout_expires_def)
  with e w' rel ov s' show ?thesis by simp
qed

theorem add_timeout_correct_witness:
  "fst (z_add_timeout dlist_ops 9 () 4 (idle_timeouts 100 [(1, 3), (2, 6)])) = 105 \<and>
   wakes_in_time dl_expiry (snd (z_add_timeout dlist_ops 9 () 4 (idle_timeouts 100 [(1, 3), (2, 6)])))"
proof -
  let ?s = "idle_timeouts 100 [(1, 3), (2, 6)]"
  have i: "dl_inv 100 [(1::nat, 3), (2, 6)]" by (simp add: dl_inv_def)
  have "100 \<notin> ran (dl_expiry 100 [(1::nat, 3), (2, 6)])" "wakes_in_time dl_expiry ?s"
    unfolding wakes_in_time_def idle_timeouts_def using dl_expiry_ran [OF i] by simp_all
  then show ?thesis
    using add_timeout_correct [where s = ?s and t = 9 and f = "()" and n = 4
        and ticks = "fst (z_add_timeout dlist_ops 9 () 4 ?s)" and s' = "snd (z_add_timeout dlist_ops 9 () 4 ?s)"] i
    by (simp add: idle_timeouts_def)
qed



section \<open>Two departures from the documented behaviour\<close>

text \<open>
  \<^verbatim>\<open>K_TICK_MAX\<close>, documented as the largest timeout, is \<^term>\<open>INT64_MAX\<close> ticks: adding the elapsed
  ticks and the rounding to it overflows, and the timeout is queued in the past, before all
  others.
\<close>

lemma add_timeout_tick_max_overflows:
  "fst (z_add_timeout dlist_ops 9 () INT64_MAX (idle_timeouts 100 [(1, 3)])) = 100 - 2 ^ 63 \<and>
   tq (snd (z_add_timeout dlist_ops 9 () INT64_MAX (idle_timeouts 100 [(1, 3)]))) =
     [(9, - (2 ^ 63)), (1, 3 + 2 ^ 63)]"
  by (simp add: z_add_timeout_def idle_timeouts_def Z_IS_TIMEOUT_RELATIVE_def elapsed_def
      this_cpu_announcing_def u32_def s64_def dl_q_insert_def dl_q_first_def Let_def)

text \<open>
  For an absolute timeout \<^verbatim>\<open>z_add_timeout\<close> returns the encoded timeout it was given, not the tick
  at which it expires.
\<close>

lemma add_timeout_absolute_return:
  "fst (z_add_timeout dlist_ops 9 () (Z_TICK_ABS 105) (idle_timeouts 100 [(1, 3)])) = -107 \<and>
   dl_abs 100 (tq (snd (z_add_timeout dlist_ops 9 () (Z_TICK_ABS 105) (idle_timeouts 100 [(1, 3)])))) =
     [(1, 103), (9, 105)]"
  by (simp add: z_add_timeout_def idle_timeouts_def Z_IS_TIMEOUT_RELATIVE_def Z_TICK_ABS_def
      elapsed_def this_cpu_announcing_def u32_def s64_def dl_q_insert_def dl_q_first_def Let_def)

end
