(* ===== verification/Sched_State.thy ===== *)
theory Sched_State
  imports Timeout_List
begin

text \<open>
  Threads, the kernel state and the thread-state helpers: \<^verbatim>\<open>struct k_thread\<close> of
  \<^verbatim>\<open>include/zephyr/kernel/thread.h\<close>, \<^verbatim>\<open>struct z_kernel\<close> of \<^verbatim>\<open>include/zephyr/kernel_structs.h\<close>, the
  inline functions of \<^verbatim>\<open>kernel/include/kthread.h\<close>, and the simple priority queue of
  \<^verbatim>\<open>kernel/include/priority_q.h\<close> (the default for the run queue and the wait queues).

  The configuration is the uniprocessor one: one CPU, no metairq priorities, no deadline
  scheduling, no time slicing, context switches through \<^verbatim>\<open>arch_switch\<close>.  The kernel state
  extends the state of the timeout queue, with its default backend.  A thread is a number;
  its record is \<open>threads s t\<close>.  A queue of threads is a HOL list.  A wait queue is named by
  the object it is embedded in.  The objects themselves are the field \<open>objs\<close>, of a type the
  scheduler does not look into.
\<close>

section \<open>Threads and the kernel state\<close>

type_synonym tid = nat

datatype wqid = WqSem nat | WqMutex nat | WqCondvar nat | WqMsgq nat | WqStack nat | WqSlab nat
  | WqQueue nat | WqEvent nat | WqTimer nat | WqPipeData nat | WqPipeSpace nat | WqMboxTx nat
  | WqMboxRx nat | WqHeap nat | WqJoin tid

datatype timeout_id = ThreadTimeout tid | TimerTimeout nat | WorkTimeout nat

datatype timeout_func = Z_THREAD_TIMEOUT | Z_TIMER_EXPIRATION_HANDLER | WORK_TIMEOUT

record k_thread =
  prio :: int
  sched_locked :: int
  thread_state :: "8 word"
  user_options :: "16 word"
  pended_on :: "wqid option"
  swap_retval :: int
  swap_data :: nat
  thread_events :: "32 word"
  event_options :: "32 word"
  held_mutexes :: "nat list"
  mutex_pended_on :: "nat option"
  orig_prio :: int

record 'o kstate = "(timeout_id, timeout_func, timeout_id dlq) tstate" +
  threads :: "tid \<Rightarrow> k_thread"
  runq :: "tid list"
  cache :: tid
  current :: tid
  idle_thread :: tid
  dummy_thread :: tid
  waitq :: "wqid \<Rightarrow> tid list"
  in_isr :: bool
  irq_unlocked :: bool
  fatal :: bool
  objs :: 'o

definition upd_thread :: "tid \<Rightarrow> (k_thread \<Rightarrow> k_thread) \<Rightarrow> 'o kstate \<Rightarrow> 'o kstate" where
  "upd_thread t f s = s\<lparr>threads := (threads s)(t := f (threads s t))\<rparr>"

definition k_panic :: "'o kstate \<Rightarrow> 'o kstate" where
  "k_panic s = s\<lparr>fatal := True\<rparr>"

section \<open>Thread states\<close>

definition THREAD_DUMMY :: "8 word" where "THREAD_DUMMY = 2 ^ 0"
definition THREAD_PENDING :: "8 word" where "THREAD_PENDING = 2 ^ 1"
definition THREAD_SLEEPING :: "8 word" where "THREAD_SLEEPING = 2 ^ 2"
definition THREAD_DEAD :: "8 word" where "THREAD_DEAD = 2 ^ 3"
definition THREAD_SUSPENDED :: "8 word" where "THREAD_SUSPENDED = 2 ^ 4"
definition THREAD_ABORTING :: "8 word" where "THREAD_ABORTING = 2 ^ 5"
definition THREAD_SUSPENDING :: "8 word" where "THREAD_SUSPENDING = 2 ^ 6"
definition THREAD_QUEUED :: "8 word" where "THREAD_QUEUED = 2 ^ 7"

definition K_ESSENTIAL :: "16 word" where "K_ESSENTIAL = 2 ^ 0"

lemmas thread_flags = THREAD_DUMMY_def THREAD_PENDING_def THREAD_SLEEPING_def THREAD_DEAD_def
  THREAD_SUSPENDED_def THREAD_ABORTING_def THREAD_SUSPENDING_def THREAD_QUEUED_def

definition PREEMPT_THRESHOLD :: int where "PREEMPT_THRESHOLD = 0x7F"

definition preempt :: "k_thread \<Rightarrow> int" where
  "preempt th = sched_locked th * 2 ^ 8 + u8 (prio th)"

definition thread_is_preemptible :: "k_thread \<Rightarrow> bool" where
  "thread_is_preemptible th \<longleftrightarrow> preempt th \<le> PREEMPT_THRESHOLD"

definition is_thread_dummy :: "k_thread \<Rightarrow> bool" where
  "is_thread_dummy th \<longleftrightarrow> thread_state th AND THREAD_DUMMY \<noteq> 0"

definition z_is_thread_suspended :: "k_thread \<Rightarrow> bool" where
  "z_is_thread_suspended th \<longleftrightarrow> thread_state th AND THREAD_SUSPENDED \<noteq> 0"

definition z_is_thread_pending :: "k_thread \<Rightarrow> bool" where
  "z_is_thread_pending th \<longleftrightarrow> thread_state th AND THREAD_PENDING \<noteq> 0"

definition z_is_thread_dead :: "k_thread \<Rightarrow> bool" where
  "z_is_thread_dead th \<longleftrightarrow> thread_state th AND THREAD_DEAD \<noteq> 0"

definition z_is_thread_aborting :: "k_thread \<Rightarrow> bool" where
  "z_is_thread_aborting th \<longleftrightarrow> thread_state th AND THREAD_ABORTING \<noteq> 0"

definition z_is_thread_prevented_from_running :: "k_thread \<Rightarrow> bool" where
  "z_is_thread_prevented_from_running th \<longleftrightarrow>
     thread_state th AND (THREAD_PENDING OR THREAD_SLEEPING OR THREAD_DEAD OR THREAD_DUMMY OR
       THREAD_SUSPENDED) \<noteq> 0"

definition z_is_thread_ready :: "k_thread \<Rightarrow> bool" where
  "z_is_thread_ready th \<longleftrightarrow> \<not> z_is_thread_prevented_from_running th"

definition z_is_thread_state_set :: "k_thread \<Rightarrow> 8 word \<Rightarrow> bool" where
  "z_is_thread_state_set th st \<longleftrightarrow> thread_state th AND st \<noteq> 0"

definition z_is_thread_queued :: "k_thread \<Rightarrow> bool" where
  "z_is_thread_queued th \<longleftrightarrow> z_is_thread_state_set th THREAD_QUEUED"

definition z_is_thread_sleeping :: "k_thread \<Rightarrow> bool" where
  "z_is_thread_sleeping th \<longleftrightarrow> thread_state th AND THREAD_SLEEPING \<noteq> 0"

definition z_mark_thread_as_queued :: "k_thread \<Rightarrow> k_thread" where
  "z_mark_thread_as_queued th = th\<lparr>thread_state := thread_state th OR THREAD_QUEUED\<rparr>"

definition z_mark_thread_as_not_queued :: "k_thread \<Rightarrow> k_thread" where
  "z_mark_thread_as_not_queued th = th\<lparr>thread_state := thread_state th AND NOT THREAD_QUEUED\<rparr>"

definition z_mark_thread_as_suspended :: "k_thread \<Rightarrow> k_thread" where
  "z_mark_thread_as_suspended th = th\<lparr>thread_state := thread_state th OR THREAD_SUSPENDED\<rparr>"

definition z_mark_thread_as_not_suspended :: "k_thread \<Rightarrow> k_thread" where
  "z_mark_thread_as_not_suspended th =
     th\<lparr>thread_state := thread_state th AND NOT THREAD_SUSPENDED\<rparr>"

definition z_mark_thread_as_pending :: "k_thread \<Rightarrow> k_thread" where
  "z_mark_thread_as_pending th = th\<lparr>thread_state := thread_state th OR THREAD_PENDING\<rparr>"

definition z_mark_thread_as_not_pending :: "k_thread \<Rightarrow> k_thread" where
  "z_mark_thread_as_not_pending th = th\<lparr>thread_state := thread_state th AND NOT THREAD_PENDING\<rparr>"

definition z_mark_thread_as_sleeping :: "k_thread \<Rightarrow> k_thread" where
  "z_mark_thread_as_sleeping th = th\<lparr>thread_state := thread_state th OR THREAD_SLEEPING\<rparr>"

definition z_mark_thread_as_not_sleeping :: "k_thread \<Rightarrow> k_thread" where
  "z_mark_thread_as_not_sleeping th = th\<lparr>thread_state := thread_state th AND NOT THREAD_SLEEPING\<rparr>"

definition z_is_thread_essential :: "k_thread \<Rightarrow> bool" where
  "z_is_thread_essential th \<longleftrightarrow> user_options th AND K_ESSENTIAL = K_ESSENTIAL"

lemmas thread_marks = z_mark_thread_as_queued_def z_mark_thread_as_not_queued_def
  z_mark_thread_as_suspended_def z_mark_thread_as_not_suspended_def z_mark_thread_as_pending_def
  z_mark_thread_as_not_pending_def z_mark_thread_as_sleeping_def z_mark_thread_as_not_sleeping_def

text \<open>The tests as single bits, so that marks and tests compose by simplification.\<close>

lemma thread_tests [state_defs]:
  "is_thread_dummy th \<longleftrightarrow> bit (thread_state th) 0"
  "z_is_thread_pending th \<longleftrightarrow> bit (thread_state th) 1"
  "z_is_thread_sleeping th \<longleftrightarrow> bit (thread_state th) 2"
  "z_is_thread_dead th \<longleftrightarrow> bit (thread_state th) 3"
  "z_is_thread_suspended th \<longleftrightarrow> bit (thread_state th) 4"
  "z_is_thread_aborting th \<longleftrightarrow> bit (thread_state th) 5"
  "z_is_thread_queued th \<longleftrightarrow> bit (thread_state th) 7"
  unfolding is_thread_dummy_def z_is_thread_pending_def z_is_thread_sleeping_def
    z_is_thread_dead_def z_is_thread_suspended_def z_is_thread_aborting_def z_is_thread_queued_def
    z_is_thread_state_set_def thread_flags and_flag_iff by (rule refl)+

lemma thread_ready_iff [state_defs]:
  "z_is_thread_ready th \<longleftrightarrow> \<not> bit (thread_state th) 0 \<and> \<not> bit (thread_state th) 1 \<and>
     \<not> bit (thread_state th) 2 \<and> \<not> bit (thread_state th) 3 \<and> \<not> bit (thread_state th) 4"
proof -
  have disj: "w AND (a OR b) \<noteq> 0 \<longleftrightarrow> w AND a \<noteq> 0 \<or> w AND b \<noteq> 0" for w a b :: "8 word"
    by (simp add: bit.conj_disj_distrib or_eq_0_iff)
  show ?thesis
    unfolding z_is_thread_ready_def z_is_thread_prevented_from_running_def thread_flags disj
      and_flag_iff by blast
qed

lemma thread_marks_bits [state_defs]:
  "bit (thread_state (z_mark_thread_as_queued th)) n \<longleftrightarrow> bit (thread_state th) n \<or> n = 7"
  "bit (thread_state (z_mark_thread_as_not_queued th)) n \<longleftrightarrow> bit (thread_state th) n \<and> n \<noteq> 7"
  "bit (thread_state (z_mark_thread_as_suspended th)) n \<longleftrightarrow> bit (thread_state th) n \<or> n = 4"
  "bit (thread_state (z_mark_thread_as_not_suspended th)) n \<longleftrightarrow> bit (thread_state th) n \<and> n \<noteq> 4"
  "bit (thread_state (z_mark_thread_as_pending th)) n \<longleftrightarrow> bit (thread_state th) n \<or> n = 1"
  "bit (thread_state (z_mark_thread_as_not_pending th)) n \<longleftrightarrow> bit (thread_state th) n \<and> n \<noteq> 1"
  "bit (thread_state (z_mark_thread_as_sleeping th)) n \<longleftrightarrow> bit (thread_state th) n \<or> n = 2"
  "bit (thread_state (z_mark_thread_as_not_sleeping th)) n \<longleftrightarrow> bit (thread_state th) n \<and> n \<noteq> 2"
proof -
  have or_flag: "bit (w OR 2 ^ 7) n \<longleftrightarrow> bit w n \<or> n = 7" "bit (w OR 2 ^ 4) n \<longleftrightarrow> bit w n \<or> n = 4"
    "bit (w OR 2 ^ 1) n \<longleftrightarrow> bit w n \<or> n = 1" "bit (w OR 2 ^ 2) n \<longleftrightarrow> bit w n \<or> n = 2"
    for w :: "8 word" by (rule bit_or_flag, simp)+
  have upd: "thread_state (th\<lparr>thread_state := w\<rparr>) = w" for w by simp
  show
    "bit (thread_state (z_mark_thread_as_queued th)) n \<longleftrightarrow> bit (thread_state th) n \<or> n = 7"
    "bit (thread_state (z_mark_thread_as_not_queued th)) n \<longleftrightarrow> bit (thread_state th) n \<and> n \<noteq> 7"
    "bit (thread_state (z_mark_thread_as_suspended th)) n \<longleftrightarrow> bit (thread_state th) n \<or> n = 4"
    "bit (thread_state (z_mark_thread_as_not_suspended th)) n \<longleftrightarrow> bit (thread_state th) n \<and> n \<noteq> 4"
    "bit (thread_state (z_mark_thread_as_pending th)) n \<longleftrightarrow> bit (thread_state th) n \<or> n = 1"
    "bit (thread_state (z_mark_thread_as_not_pending th)) n \<longleftrightarrow> bit (thread_state th) n \<and> n \<noteq> 1"
    "bit (thread_state (z_mark_thread_as_sleeping th)) n \<longleftrightarrow> bit (thread_state th) n \<or> n = 2"
    "bit (thread_state (z_mark_thread_as_not_sleeping th)) n \<longleftrightarrow> bit (thread_state th) n \<and> n \<noteq> 2"
    unfolding thread_marks thread_flags upd or_flag bit_and_not_flag by (rule refl)+
qed

lemma thread_marks_frame [simp]:
  "prio (z_mark_thread_as_queued th) = prio th" "prio (z_mark_thread_as_not_queued th) = prio th"
  "prio (z_mark_thread_as_suspended th) = prio th" "prio (z_mark_thread_as_not_suspended th) = prio th"
  "prio (z_mark_thread_as_pending th) = prio th" "prio (z_mark_thread_as_not_pending th) = prio th"
  "prio (z_mark_thread_as_sleeping th) = prio th" "prio (z_mark_thread_as_not_sleeping th) = prio th"
  "pended_on (z_mark_thread_as_queued th) = pended_on th"
  "pended_on (z_mark_thread_as_not_queued th) = pended_on th"
  "pended_on (z_mark_thread_as_suspended th) = pended_on th"
  "pended_on (z_mark_thread_as_not_suspended th) = pended_on th"
  "pended_on (z_mark_thread_as_pending th) = pended_on th"
  "pended_on (z_mark_thread_as_not_pending th) = pended_on th"
  "pended_on (z_mark_thread_as_sleeping th) = pended_on th"
  "pended_on (z_mark_thread_as_not_sleeping th) = pended_on th"
  by (simp_all add: thread_marks)

lemma thread_marks_other [simp]:
  "swap_retval (z_mark_thread_as_queued th) = swap_retval th"
  "swap_data (z_mark_thread_as_queued th) = swap_data th"
  "sched_locked (z_mark_thread_as_queued th) = sched_locked th"
  "user_options (z_mark_thread_as_queued th) = user_options th"
  "thread_events (z_mark_thread_as_queued th) = thread_events th"
  "event_options (z_mark_thread_as_queued th) = event_options th"
  "held_mutexes (z_mark_thread_as_queued th) = held_mutexes th"
  "mutex_pended_on (z_mark_thread_as_queued th) = mutex_pended_on th"
  "orig_prio (z_mark_thread_as_queued th) = orig_prio th"
  "swap_retval (z_mark_thread_as_not_queued th) = swap_retval th"
  "swap_data (z_mark_thread_as_not_queued th) = swap_data th"
  "sched_locked (z_mark_thread_as_not_queued th) = sched_locked th"
  "user_options (z_mark_thread_as_not_queued th) = user_options th"
  "thread_events (z_mark_thread_as_not_queued th) = thread_events th"
  "event_options (z_mark_thread_as_not_queued th) = event_options th"
  "held_mutexes (z_mark_thread_as_not_queued th) = held_mutexes th"
  "mutex_pended_on (z_mark_thread_as_not_queued th) = mutex_pended_on th"
  "orig_prio (z_mark_thread_as_not_queued th) = orig_prio th"
  "swap_retval (z_mark_thread_as_suspended th) = swap_retval th"
  "swap_data (z_mark_thread_as_suspended th) = swap_data th"
  "sched_locked (z_mark_thread_as_suspended th) = sched_locked th"
  "user_options (z_mark_thread_as_suspended th) = user_options th"
  "thread_events (z_mark_thread_as_suspended th) = thread_events th"
  "event_options (z_mark_thread_as_suspended th) = event_options th"
  "held_mutexes (z_mark_thread_as_suspended th) = held_mutexes th"
  "mutex_pended_on (z_mark_thread_as_suspended th) = mutex_pended_on th"
  "orig_prio (z_mark_thread_as_suspended th) = orig_prio th"
  "swap_retval (z_mark_thread_as_not_suspended th) = swap_retval th"
  "swap_data (z_mark_thread_as_not_suspended th) = swap_data th"
  "sched_locked (z_mark_thread_as_not_suspended th) = sched_locked th"
  "user_options (z_mark_thread_as_not_suspended th) = user_options th"
  "thread_events (z_mark_thread_as_not_suspended th) = thread_events th"
  "event_options (z_mark_thread_as_not_suspended th) = event_options th"
  "held_mutexes (z_mark_thread_as_not_suspended th) = held_mutexes th"
  "mutex_pended_on (z_mark_thread_as_not_suspended th) = mutex_pended_on th"
  "orig_prio (z_mark_thread_as_not_suspended th) = orig_prio th"
  "swap_retval (z_mark_thread_as_pending th) = swap_retval th"
  "swap_data (z_mark_thread_as_pending th) = swap_data th"
  "sched_locked (z_mark_thread_as_pending th) = sched_locked th"
  "user_options (z_mark_thread_as_pending th) = user_options th"
  "thread_events (z_mark_thread_as_pending th) = thread_events th"
  "event_options (z_mark_thread_as_pending th) = event_options th"
  "held_mutexes (z_mark_thread_as_pending th) = held_mutexes th"
  "mutex_pended_on (z_mark_thread_as_pending th) = mutex_pended_on th"
  "orig_prio (z_mark_thread_as_pending th) = orig_prio th"
  "swap_retval (z_mark_thread_as_not_pending th) = swap_retval th"
  "swap_data (z_mark_thread_as_not_pending th) = swap_data th"
  "sched_locked (z_mark_thread_as_not_pending th) = sched_locked th"
  "user_options (z_mark_thread_as_not_pending th) = user_options th"
  "thread_events (z_mark_thread_as_not_pending th) = thread_events th"
  "event_options (z_mark_thread_as_not_pending th) = event_options th"
  "held_mutexes (z_mark_thread_as_not_pending th) = held_mutexes th"
  "mutex_pended_on (z_mark_thread_as_not_pending th) = mutex_pended_on th"
  "orig_prio (z_mark_thread_as_not_pending th) = orig_prio th"
  "swap_retval (z_mark_thread_as_sleeping th) = swap_retval th"
  "swap_data (z_mark_thread_as_sleeping th) = swap_data th"
  "sched_locked (z_mark_thread_as_sleeping th) = sched_locked th"
  "user_options (z_mark_thread_as_sleeping th) = user_options th"
  "thread_events (z_mark_thread_as_sleeping th) = thread_events th"
  "event_options (z_mark_thread_as_sleeping th) = event_options th"
  "held_mutexes (z_mark_thread_as_sleeping th) = held_mutexes th"
  "mutex_pended_on (z_mark_thread_as_sleeping th) = mutex_pended_on th"
  "orig_prio (z_mark_thread_as_sleeping th) = orig_prio th"
  "swap_retval (z_mark_thread_as_not_sleeping th) = swap_retval th"
  "swap_data (z_mark_thread_as_not_sleeping th) = swap_data th"
  "sched_locked (z_mark_thread_as_not_sleeping th) = sched_locked th"
  "user_options (z_mark_thread_as_not_sleeping th) = user_options th"
  "thread_events (z_mark_thread_as_not_sleeping th) = thread_events th"
  "event_options (z_mark_thread_as_not_sleeping th) = event_options th"
  "held_mutexes (z_mark_thread_as_not_sleeping th) = held_mutexes th"
  "mutex_pended_on (z_mark_thread_as_not_sleeping th) = mutex_pended_on th"
  "orig_prio (z_mark_thread_as_not_sleeping th) = orig_prio th"
  by (simp_all add: thread_marks)

lemma thread_mark_test [simp]:
  "z_is_thread_queued (z_mark_thread_as_queued th)"
  "z_is_thread_pending (z_mark_thread_as_queued th) = z_is_thread_pending th"
  "z_is_thread_sleeping (z_mark_thread_as_queued th) = z_is_thread_sleeping th"
  "z_is_thread_dead (z_mark_thread_as_queued th) = z_is_thread_dead th"
  "z_is_thread_suspended (z_mark_thread_as_queued th) = z_is_thread_suspended th"
  "z_is_thread_aborting (z_mark_thread_as_queued th) = z_is_thread_aborting th"
  "is_thread_dummy (z_mark_thread_as_queued th) = is_thread_dummy th"
  "\<not> z_is_thread_queued (z_mark_thread_as_not_queued th)"
  "z_is_thread_pending (z_mark_thread_as_not_queued th) = z_is_thread_pending th"
  "z_is_thread_sleeping (z_mark_thread_as_not_queued th) = z_is_thread_sleeping th"
  "z_is_thread_dead (z_mark_thread_as_not_queued th) = z_is_thread_dead th"
  "z_is_thread_suspended (z_mark_thread_as_not_queued th) = z_is_thread_suspended th"
  "z_is_thread_aborting (z_mark_thread_as_not_queued th) = z_is_thread_aborting th"
  "is_thread_dummy (z_mark_thread_as_not_queued th) = is_thread_dummy th"
  "z_is_thread_queued (z_mark_thread_as_suspended th) = z_is_thread_queued th"
  "z_is_thread_pending (z_mark_thread_as_suspended th) = z_is_thread_pending th"
  "z_is_thread_sleeping (z_mark_thread_as_suspended th) = z_is_thread_sleeping th"
  "z_is_thread_dead (z_mark_thread_as_suspended th) = z_is_thread_dead th"
  "z_is_thread_suspended (z_mark_thread_as_suspended th)"
  "z_is_thread_aborting (z_mark_thread_as_suspended th) = z_is_thread_aborting th"
  "is_thread_dummy (z_mark_thread_as_suspended th) = is_thread_dummy th"
  "z_is_thread_queued (z_mark_thread_as_not_suspended th) = z_is_thread_queued th"
  "z_is_thread_pending (z_mark_thread_as_not_suspended th) = z_is_thread_pending th"
  "z_is_thread_sleeping (z_mark_thread_as_not_suspended th) = z_is_thread_sleeping th"
  "z_is_thread_dead (z_mark_thread_as_not_suspended th) = z_is_thread_dead th"
  "\<not> z_is_thread_suspended (z_mark_thread_as_not_suspended th)"
  "z_is_thread_aborting (z_mark_thread_as_not_suspended th) = z_is_thread_aborting th"
  "is_thread_dummy (z_mark_thread_as_not_suspended th) = is_thread_dummy th"
  "z_is_thread_queued (z_mark_thread_as_pending th) = z_is_thread_queued th"
  "z_is_thread_pending (z_mark_thread_as_pending th)"
  "z_is_thread_sleeping (z_mark_thread_as_pending th) = z_is_thread_sleeping th"
  "z_is_thread_dead (z_mark_thread_as_pending th) = z_is_thread_dead th"
  "z_is_thread_suspended (z_mark_thread_as_pending th) = z_is_thread_suspended th"
  "z_is_thread_aborting (z_mark_thread_as_pending th) = z_is_thread_aborting th"
  "is_thread_dummy (z_mark_thread_as_pending th) = is_thread_dummy th"
  "z_is_thread_queued (z_mark_thread_as_not_pending th) = z_is_thread_queued th"
  "\<not> z_is_thread_pending (z_mark_thread_as_not_pending th)"
  "z_is_thread_sleeping (z_mark_thread_as_not_pending th) = z_is_thread_sleeping th"
  "z_is_thread_dead (z_mark_thread_as_not_pending th) = z_is_thread_dead th"
  "z_is_thread_suspended (z_mark_thread_as_not_pending th) = z_is_thread_suspended th"
  "z_is_thread_aborting (z_mark_thread_as_not_pending th) = z_is_thread_aborting th"
  "is_thread_dummy (z_mark_thread_as_not_pending th) = is_thread_dummy th"
  "z_is_thread_queued (z_mark_thread_as_sleeping th) = z_is_thread_queued th"
  "z_is_thread_pending (z_mark_thread_as_sleeping th) = z_is_thread_pending th"
  "z_is_thread_sleeping (z_mark_thread_as_sleeping th)"
  "z_is_thread_dead (z_mark_thread_as_sleeping th) = z_is_thread_dead th"
  "z_is_thread_suspended (z_mark_thread_as_sleeping th) = z_is_thread_suspended th"
  "z_is_thread_aborting (z_mark_thread_as_sleeping th) = z_is_thread_aborting th"
  "is_thread_dummy (z_mark_thread_as_sleeping th) = is_thread_dummy th"
  "z_is_thread_queued (z_mark_thread_as_not_sleeping th) = z_is_thread_queued th"
  "z_is_thread_pending (z_mark_thread_as_not_sleeping th) = z_is_thread_pending th"
  "\<not> z_is_thread_sleeping (z_mark_thread_as_not_sleeping th)"
  "z_is_thread_dead (z_mark_thread_as_not_sleeping th) = z_is_thread_dead th"
  "z_is_thread_suspended (z_mark_thread_as_not_sleeping th) = z_is_thread_suspended th"
  "z_is_thread_aborting (z_mark_thread_as_not_sleeping th) = z_is_thread_aborting th"
  "is_thread_dummy (z_mark_thread_as_not_sleeping th) = is_thread_dummy th"
  unfolding thread_tests thread_marks_bits by simp_all

lemma thread_ready_tests:
  "z_is_thread_ready th \<longleftrightarrow> \<not> is_thread_dummy th \<and> \<not> z_is_thread_pending th \<and>
     \<not> z_is_thread_sleeping th \<and> \<not> z_is_thread_dead th \<and> \<not> z_is_thread_suspended th"
  unfolding thread_tests thread_ready_iff ..

lemma thread_mark_ready [simp]:
  "z_is_thread_ready (z_mark_thread_as_queued th) = z_is_thread_ready th"
  "z_is_thread_ready (z_mark_thread_as_not_queued th) = z_is_thread_ready th"
  "\<not> z_is_thread_ready (z_mark_thread_as_pending th)"
  "\<not> z_is_thread_ready (z_mark_thread_as_sleeping th)"
  "\<not> z_is_thread_ready (z_mark_thread_as_suspended th)"
  by (simp_all add: thread_ready_tests)

lemma thread_state_tests_cong:
  assumes "thread_state th = thread_state th'"
  shows "z_is_thread_ready th = z_is_thread_ready th'" "z_is_thread_queued th = z_is_thread_queued th'"
    "z_is_thread_pending th = z_is_thread_pending th'" "z_is_thread_dead th = z_is_thread_dead th'"
    "z_is_thread_sleeping th = z_is_thread_sleeping th'"
    "z_is_thread_suspended th = z_is_thread_suspended th'" "is_thread_dummy th = is_thread_dummy th'"
  using assms by (simp_all add: thread_tests thread_ready_iff)

lemma thread_tests_pended_on [simp]:
  "z_is_thread_ready (th\<lparr>pended_on := w\<rparr>) = z_is_thread_ready th"
  "z_is_thread_queued (th\<lparr>pended_on := w\<rparr>) = z_is_thread_queued th"
  "z_is_thread_pending (th\<lparr>pended_on := w\<rparr>) = z_is_thread_pending th"
  "z_is_thread_dead (th\<lparr>pended_on := w\<rparr>) = z_is_thread_dead th"
  "z_is_thread_sleeping (th\<lparr>pended_on := w\<rparr>) = z_is_thread_sleeping th"
  "z_is_thread_suspended (th\<lparr>pended_on := w\<rparr>) = z_is_thread_suspended th"
  "is_thread_dummy (th\<lparr>pended_on := w\<rparr>) = is_thread_dummy th"
  by (rule thread_state_tests_cong; simp)+

lemma thread_tests_prio [simp]:
  "z_is_thread_ready (th\<lparr>prio := p\<rparr>) = z_is_thread_ready th"
  "z_is_thread_queued (th\<lparr>prio := p\<rparr>) = z_is_thread_queued th"
  "z_is_thread_pending (th\<lparr>prio := p\<rparr>) = z_is_thread_pending th"
  "z_is_thread_dead (th\<lparr>prio := p\<rparr>) = z_is_thread_dead th"
  "z_is_thread_sleeping (th\<lparr>prio := p\<rparr>) = z_is_thread_sleeping th"
  by (rule thread_state_tests_cong; simp)+

lemma mark_queued_id: "z_is_thread_queued th \<Longrightarrow> z_mark_thread_as_queued th = th"
proof -
  assume q: "z_is_thread_queued th"
  have "thread_state (z_mark_thread_as_queued th) = thread_state th"
    using q unfolding thread_tests by (intro bit_word_eqI, unfold thread_marks_bits) metis
  then show ?thesis by (simp add: z_mark_thread_as_queued_def)
qed

lemma mark_not_queued_id: "\<not> z_is_thread_queued th \<Longrightarrow> z_mark_thread_as_not_queued th = th"
proof -
  assume q: "\<not> z_is_thread_queued th"
  have "thread_state (z_mark_thread_as_not_queued th) = thread_state th"
    using q unfolding thread_tests by (intro bit_word_eqI, unfold thread_marks_bits) metis
  then show ?thesis by (simp add: z_mark_thread_as_not_queued_def)
qed

text \<open>A thread is preemptible when its priority is not cooperative and it has not locked the scheduler.\<close>

lemma preemptible_iff:
  assumes "- 128 \<le> prio th" "prio th < 128" "0 \<le> sched_locked th" "sched_locked th < 256"
  shows "thread_is_preemptible th \<longleftrightarrow> 0 \<le> prio th \<and> sched_locked th = 0"
proof (cases "0 \<le> prio th")
  case True
  then have "u8 (prio th) = prio th" using assms by (simp add: u8_def)
  with True assms show ?thesis
    by (auto simp: thread_is_preemptible_def preempt_def PREEMPT_THRESHOLD_def)
next
  case False
  then have "(prio th + 256) mod 256 = prio th + 256" using assms
    by (intro mod_pos_pos_trivial) auto
  then have "u8 (prio th) = prio th + 256" by (simp add: u8_def)
  with False assms show ?thesis
    by (auto simp: thread_is_preemptible_def preempt_def PREEMPT_THRESHOLD_def)
qed

end
