(* ===== verification/Priority_Q.thy ===== *)
theory Priority_Q
  imports Sched_State
begin

text \<open>
  The thread priority queues of \<^verbatim>\<open>kernel/include/priority_q.h\<close>, used for the run queue and the wait
  queues.  A queue holds threads by number; the priorities are read from the thread records,
  so every operation takes the map of threads.

  The simple queue, the default, is a doubly linked list in priority order, a HOL list here; the
  multi-queue is in theory \<open>Priority_Mq\<close>.  The locale \<open>prio_queue\<close> is what the scheduler
  relies on: \<open>order q\<close> lists the threads in the order in which they would be taken, by priority
  and first-in first-out within a priority.
\<close>

section \<open>The simple queue\<close>

definition z_sched_prio_cmp :: "k_thread \<Rightarrow> k_thread \<Rightarrow> int" where
  "z_sched_prio_cmp thread_1 thread_2 =
     (let b1 = prio thread_1; b2 = prio thread_2 in if b1 \<noteq> b2 then b2 - b1 else 0)"

definition z_priq_simple_init :: "tid list" where
  "z_priq_simple_init = []"

definition z_priq_simple_add :: "(tid \<Rightarrow> k_thread) \<Rightarrow> tid \<Rightarrow> tid list \<Rightarrow> tid list" where
  "z_priq_simple_add th thread pq =
     insert_before (\<lambda>t. z_sched_prio_cmp (th thread) (th t) > 0) thread pq"

definition z_priq_simple_remove :: "tid \<Rightarrow> tid list \<Rightarrow> tid list" where
  "z_priq_simple_remove thread pq = remove1 thread pq"

definition z_priq_simple_yield :: "(tid \<Rightarrow> k_thread) \<Rightarrow> tid \<Rightarrow> tid list \<Rightarrow> tid list" where
  "z_priq_simple_yield th cur pq =
     takeWhile (\<lambda>t. t \<noteq> cur) pq @
     insert_before (\<lambda>t. z_sched_prio_cmp (th cur) (th t) > 0) cur (tl (dropWhile (\<lambda>t. t \<noteq> cur) pq))"

definition z_priq_simple_best :: "tid list \<Rightarrow> tid option" where
  "z_priq_simple_best pq = (case pq of [] \<Rightarrow> None | t # _ \<Rightarrow> Some t)"

section \<open>The contract\<close>

text \<open>The priority order on a list of threads.\<close>

definition prio_sorted :: "(tid \<Rightarrow> k_thread) \<Rightarrow> tid list \<Rightarrow> bool" where
  "prio_sorted th = sorted_wrt (\<lambda>a b. prio (th a) \<le> prio (th b))"

definition prio_insert :: "(tid \<Rightarrow> k_thread) \<Rightarrow> tid \<Rightarrow> tid list \<Rightarrow> tid list" where
  "prio_insert th t = insert_before (\<lambda>u. prio (th t) < prio (th u)) t"

locale prio_queue =
  fixes qok :: "(tid \<Rightarrow> k_thread) \<Rightarrow> 'q \<Rightarrow> bool"
    and order :: "'q \<Rightarrow> tid list"
    and qinit :: 'q
    and add :: "(tid \<Rightarrow> k_thread) \<Rightarrow> tid \<Rightarrow> 'q \<Rightarrow> 'q"
    and rem :: "(tid \<Rightarrow> k_thread) \<Rightarrow> tid \<Rightarrow> 'q \<Rightarrow> 'q"
    and yield :: "(tid \<Rightarrow> k_thread) \<Rightarrow> tid \<Rightarrow> 'q \<Rightarrow> 'q"
    and best :: "'q \<Rightarrow> tid option"
    and valid :: "k_thread \<Rightarrow> bool"
  assumes init_ok: "qok th qinit" "order qinit = []"
    and ok_order: "qok th q \<Longrightarrow> distinct (order q) \<and> prio_sorted th (order q)"
    and add_ok: "qok th q \<Longrightarrow> t \<notin> set (order q) \<Longrightarrow> valid (th t) \<Longrightarrow>
      qok th (add th t q) \<and> order (add th t q) = prio_insert th t (order q)"
    and rem_ok: "qok th q \<Longrightarrow> t \<in> set (order q) \<Longrightarrow> valid (th t) \<Longrightarrow>
      qok th (rem th t q) \<and> order (rem th t q) = remove1 t (order q)"
    and yield_ok: "qok th q \<Longrightarrow> t \<in> set (order q) \<Longrightarrow> valid (th t) \<Longrightarrow>
      qok th (yield th t q) \<and> order (yield th t q) = prio_insert th t (remove1 t (order q))"
    and best_ok: "qok th q \<Longrightarrow> best q = (case order q of [] \<Rightarrow> None | t # _ \<Rightarrow> Some t)"
begin

text \<open>The best thread is one of the highest priority, and removing best threads in turn sorts them.\<close>

lemma best_highest:
  assumes "qok th q" and "best q = Some t"
  shows "t \<in> set (order q)" and "u \<in> set (order q) \<Longrightarrow> prio (th t) \<le> prio (th u)"
  using assms ok_order [OF assms(1)] best_ok [OF assms(1)]
  by (auto simp: prio_sorted_def split: list.splits)

lemma best_none: "qok th q \<Longrightarrow> best q = None \<longleftrightarrow> order q = []"
  using best_ok by (simp split: list.split)

lemma add_all:
  assumes "qok th q" and "distinct ts" "set ts \<inter> set (order q) = {}" "\<forall>t\<in>set ts. valid (th t)"
  shows "qok th (fold (add th) ts q) \<and>
    order (fold (add th) ts q) = sort_key (\<lambda>t. prio (th t)) (order q @ ts)"
proof -
  have "qok th (fold (add th) ts q) \<and> order (fold (add th) ts q) = fold (prio_insert th) ts (order q)"
    using assms
  proof (induction ts arbitrary: q)
    case (Cons t ts)
    then have "qok th (add th t q) \<and> order (add th t q) = prio_insert th t (order q)"
      by (intro add_ok) auto
    with Cons.IH [of "add th t q"] Cons.prems show ?case by (auto simp: prio_insert_def)
  qed simp
  then show ?thesis
    using fold_insert_before_sorted [of "\<lambda>t. prio (th t)" "order q" ts] ok_order [OF assms(1)]
    by (simp add: prio_insert_def [abs_def] prio_sorted_def)
qed

end

section \<open>The simple queue meets the contract\<close>

lemma prio_cmp_pos [simp]: "z_sched_prio_cmp a b > 0 \<longleftrightarrow> prio a < prio b"
  by (simp add: z_sched_prio_cmp_def Let_def)

lemma simple_add_insert: "z_priq_simple_add th t q = prio_insert th t q"
  by (simp add: z_priq_simple_add_def prio_insert_def)

lemma set_prio_insert [simp]: "set (prio_insert th t q) = insert t (set q)"
  by (simp add: prio_insert_def)

lemma distinct_prio_insert [simp]: "distinct (prio_insert th t q) \<longleftrightarrow> t \<notin> set q \<and> distinct q"
  by (simp add: prio_insert_def)

lemma sorted_prio_insert [simp]: "prio_sorted th q \<Longrightarrow> prio_sorted th (prio_insert th t q)"
  unfolding prio_sorted_def prio_insert_def by (rule sorted_insert_before)

lemma sorted_prio_remove [simp]: "prio_sorted th q \<Longrightarrow> prio_sorted th (remove1 t q)"
  unfolding prio_sorted_def by (rule sorted_wrt_remove1)

lemma prio_sorted_cong:
  "(\<And>t. t \<in> set q \<Longrightarrow> prio (th t) = prio (th' t)) \<Longrightarrow> prio_sorted th q = prio_sorted th' q"
  unfolding prio_sorted_def by (rule sorted_wrt_key_cong)

lemma prio_insert_cong:
  "(\<And>u. u \<in> insert t (set q) \<Longrightarrow> prio (th u) = prio (th' u)) \<Longrightarrow> prio_insert th t q = prio_insert th' t q"
  unfolding prio_insert_def by (rule insert_before_cong) simp

text \<open>
  Yielding inserts from the thread's own position on, which is the same as inserting from the
  front: everything before it has a priority at least as high.
\<close>

lemma simple_yield_insert:
  assumes "distinct q" and "prio_sorted th q" and "t \<in> set q"
  shows "z_priq_simple_yield th t q = prio_insert th t (remove1 t q)"
  using assms
proof (induction q)
  case (Cons a q)
  then show ?case
    by (cases "a = t") (auto simp: z_priq_simple_yield_def prio_insert_def prio_sorted_def)
qed simp

interpretation simpleq: prio_queue "\<lambda>th q. distinct q \<and> prio_sorted th q" "\<lambda>q. q"
  z_priq_simple_init z_priq_simple_add "\<lambda>_. z_priq_simple_remove" z_priq_simple_yield
  z_priq_simple_best "\<lambda>_. True"
proof
  fix th q t assume "distinct q \<and> prio_sorted th q"
  then show "(distinct (z_priq_simple_yield th t q) \<and> prio_sorted th (z_priq_simple_yield th t q)) \<and>
      z_priq_simple_yield th t q = prio_insert th t (remove1 t q)" if "t \<in> set q"
    using that by (simp add: simple_yield_insert)
qed (simp_all add: z_priq_simple_init_def simple_add_insert z_priq_simple_remove_def
  z_priq_simple_best_def prio_sorted_def sorted_wrt_remove1 sorted_prio_insert [unfolded prio_sorted_def])

end
