(* ===== verification/Sched.thy ===== *)
theory Sched
  imports Priority_Q
begin

text \<open>
  The scheduler: \<^verbatim>\<open>kernel/sched.c\<close>, \<^verbatim>\<open>kernel/scheduler.c\<close>, \<^verbatim>\<open>kernel/sleep.c\<close>, the inline functions of
  \<^verbatim>\<open>run_q.h\<close>, \<^verbatim>\<open>ksched.h\<close>, \<^verbatim>\<open>kswap.h\<close> and \<^verbatim>\<open>scheduler.h\<close> under \<^verbatim>\<open>kernel/include\<close>, and the thread life
  cycle of \<^verbatim>\<open>kernel/thread.c\<close>.

  A spinlock is an interrupt lock on a uniprocessor, so what a function does under a lock is
  one step.  \<open>irq_unlocked\<close> is the interrupt state the lock key saves, \<open>in_isr\<close> whether an
  interrupt is being served.  \<open>cache\<close> is \<^verbatim>\<open>_kernel.ready_q.cache\<close>, the thread the next context
  switch will run.

  A call that may switch contexts returns \<^verbatim>\<open>Ret v\<close> when it comes back to the caller at once,
  and \<^verbatim>\<open>Swapped\<close> when the processor went to another thread.  What the caller then sees when it
  runs again is a definition of its own, named after the call with the suffix \<^verbatim>\<open>_resume\<close>.  An
  operation that ends in a reschedule gives its return value and the state after the switch.
\<close>

section \<open>Run queue and cache\<close>

datatype 'a kres = Ret 'a | Swapped | Panic

definition K_NUM_COOP :: int where "K_NUM_COOP = 16"
definition K_NUM_PREEMPT :: int where "K_NUM_PREEMPT = 15"
definition K_HIGHEST_THREAD_PRIO :: int where "K_HIGHEST_THREAD_PRIO = - K_NUM_COOP"
definition K_LOWEST_THREAD_PRIO :: int where "K_LOWEST_THREAD_PRIO = K_NUM_PREEMPT"

definition valid_prio :: "int \<Rightarrow> bool" where
  "valid_prio p \<longleftrightarrow> K_HIGHEST_THREAD_PRIO \<le> p \<and> p \<le> K_LOWEST_THREAD_PRIO - 1"

definition z_is_idle_thread_object :: "tid \<Rightarrow> 'o kstate \<Rightarrow> bool" where
  "z_is_idle_thread_object thread s \<longleftrightarrow> thread = idle_thread s"

definition runq_add :: "tid \<Rightarrow> 'o kstate \<Rightarrow> 'o kstate" where
  "runq_add thread s = s\<lparr>runq := z_priq_simple_add (threads s) thread (runq s)\<rparr>"

definition runq_remove :: "tid \<Rightarrow> 'o kstate \<Rightarrow> 'o kstate" where
  "runq_remove thread s = s\<lparr>runq := z_priq_simple_remove thread (runq s)\<rparr>"

definition runq_yield :: "'o kstate \<Rightarrow> 'o kstate" where
  "runq_yield s = s\<lparr>runq := z_priq_simple_yield (threads s) (current s) (runq s)\<rparr>"

definition runq_best :: "'o kstate \<Rightarrow> tid option" where
  "runq_best s = z_priq_simple_best (runq s)"

definition should_queue_thread :: "tid \<Rightarrow> 'o kstate \<Rightarrow> bool" where
  "should_queue_thread thread s \<longleftrightarrow> \<not> CONFIG_SMP \<or> thread \<noteq> current s"

definition queue_thread :: "tid \<Rightarrow> 'o kstate \<Rightarrow> 'o kstate" where
  "queue_thread thread s =
     (let s1 = upd_thread thread z_mark_thread_as_queued s
      in if should_queue_thread thread s1 then runq_add thread s1 else s1)"

definition dequeue_thread :: "tid \<Rightarrow> 'o kstate \<Rightarrow> 'o kstate" where
  "dequeue_thread thread s =
     (let s1 = upd_thread thread z_mark_thread_as_not_queued s
      in if should_queue_thread thread s1 then runq_remove thread s1 else s1)"

definition should_preempt :: "bool \<Rightarrow> 'o kstate \<Rightarrow> bool" where
  "should_preempt preempt_ok s \<longleftrightarrow>
     preempt_ok \<or> z_is_thread_prevented_from_running (threads s (current s)) \<or>
     thread_is_preemptible (threads s (current s))"

definition next_up :: "'o kstate \<Rightarrow> tid" where
  "next_up s = (case runq_best s of Some thread \<Rightarrow> thread | None \<Rightarrow> idle_thread s)"

definition update_cache :: "bool \<Rightarrow> 'o kstate \<Rightarrow> 'o kstate" where
  "update_cache preempt_ok s =
     (let thread = next_up s
      in if should_preempt preempt_ok s then s\<lparr>cache := thread\<rparr> else s\<lparr>cache := current s\<rparr>)"

definition move_current_to_end_of_prio_q :: "'o kstate \<Rightarrow> 'o kstate" where
  "move_current_to_end_of_prio_q s = update_cache True (runq_yield s)"

definition ready_thread :: "tid \<Rightarrow> 'o kstate \<Rightarrow> 'o kstate" where
  "ready_thread thread s =
     (if \<not> z_is_thread_queued (threads s thread) \<and> z_is_thread_ready (threads s thread)
      then update_cache False (queue_thread thread s) else s)"

definition z_ready_thread :: "tid \<Rightarrow> 'o kstate \<Rightarrow> 'o kstate" where
  "z_ready_thread thread s = ready_thread thread s"

definition unready_thread :: "tid \<Rightarrow> 'o kstate \<Rightarrow> 'o kstate" where
  "unready_thread thread s =
     (let s1 = (if z_is_thread_queued (threads s thread) then dequeue_thread thread s else s)
      in update_cache (thread = current s1) s1)"

section \<open>Context switch\<close>

definition do_swap :: "'o kstate \<Rightarrow> int kres \<times> 'o kstate" where
  "do_swap s =
     (let old_thread = current s;
          s1 = upd_thread old_thread (\<lambda>th. th\<lparr>swap_retval := - EAGAIN\<rparr>) s;
          new_thread = cache s1
      in if new_thread \<noteq> old_thread then (Swapped, s1\<lparr>current := new_thread\<rparr>)
         else (Ret (swap_retval (threads s1 (current s1))), s1))"

definition do_swap_resume :: "'o kstate \<Rightarrow> int" where
  "do_swap_resume s = swap_retval (threads s (current s))"

definition resched :: "'o kstate \<Rightarrow> bool" where
  "resched s \<longleftrightarrow> irq_unlocked s \<and> \<not> in_isr s"

definition need_swap :: "'o kstate \<Rightarrow> bool" where
  "need_swap s \<longleftrightarrow> cache s \<noteq> current s"

definition reschedule :: "'o kstate \<Rightarrow> 'o kstate" where
  "reschedule s = (if resched s \<and> need_swap s then snd (do_swap s) else s)"

definition z_sched_lock_reschedule :: "'o kstate \<Rightarrow> 'o kstate" where
  "z_sched_lock_reschedule s = reschedule (update_cache False s)"

definition z_sched_yield :: "'o kstate \<Rightarrow> int kres \<times> 'o kstate" where
  "z_sched_yield s = do_swap (update_cache True (runq_yield s))"

definition z_get_next_switch_handle :: "'o kstate \<Rightarrow> 'o kstate" where
  "z_get_next_switch_handle s = s\<lparr>current := cache s\<rparr>"

section \<open>Pending and waking\<close>

definition z_add_thread_timeout :: "tid \<Rightarrow> int \<Rightarrow> 'o kstate \<Rightarrow> int \<times> 'o kstate" where
  "z_add_thread_timeout thread ticks s =
     z_add_timeout dlist_ops (ThreadTimeout thread) Z_THREAD_TIMEOUT ticks s"

definition z_try_abort_thread_timeout :: "tid \<Rightarrow> 'o kstate \<Rightarrow> int \<times> 'o kstate" where
  "z_try_abort_thread_timeout thread s = z_try_abort_timeout dlist_ops (ThreadTimeout thread) s"

definition wait_add :: "wqid \<Rightarrow> tid \<Rightarrow> 'o kstate \<Rightarrow> 'o kstate" where
  "wait_add w thread s =
     s\<lparr>waitq := (waitq s)(w := z_priq_simple_add (threads s) thread (waitq s w))\<rparr>"

definition wait_remove :: "wqid \<Rightarrow> tid \<Rightarrow> 'o kstate \<Rightarrow> 'o kstate" where
  "wait_remove w thread s = s\<lparr>waitq := (waitq s)(w := z_priq_simple_remove thread (waitq s w))\<rparr>"

definition add_to_waitq_locked :: "tid \<Rightarrow> wqid option \<Rightarrow> 'o kstate \<Rightarrow> 'o kstate" where
  "add_to_waitq_locked thread wait_q s =
     (let s1 = upd_thread thread z_mark_thread_as_pending (unready_thread thread s)
      in case wait_q of
           None \<Rightarrow> s1
         | Some w \<Rightarrow> wait_add w thread (upd_thread thread (\<lambda>th. th\<lparr>pended_on := Some w\<rparr>) s1))"

definition pend_locked :: "tid \<Rightarrow> wqid option \<Rightarrow> int \<Rightarrow> 'o kstate \<Rightarrow> 'o kstate" where
  "pend_locked thread wait_q timeout s =
     snd (z_add_thread_timeout thread timeout (add_to_waitq_locked thread wait_q s))"

definition z_pend_thread :: "tid \<Rightarrow> wqid option \<Rightarrow> int \<Rightarrow> 'o kstate \<Rightarrow> 'o kstate" where
  "z_pend_thread thread wait_q timeout s = pend_locked thread wait_q timeout s"

definition unpend_thread_no_timeout :: "tid \<Rightarrow> 'o kstate \<Rightarrow> 'o kstate" where
  "unpend_thread_no_timeout thread s =
     (case pended_on (threads s thread) of
        None \<Rightarrow> k_panic s
      | Some w \<Rightarrow> upd_thread thread (\<lambda>th. (z_mark_thread_as_not_pending th)\<lparr>pended_on := None\<rparr>)
                   (wait_remove w thread s))"

definition z_unpend_thread_no_timeout :: "tid \<Rightarrow> 'o kstate \<Rightarrow> 'o kstate" where
  "z_unpend_thread_no_timeout thread s =
     (if pended_on (threads s thread) \<noteq> None then unpend_thread_no_timeout thread s else s)"

definition z_unpend_thread :: "tid \<Rightarrow> 'o kstate \<Rightarrow> 'o kstate" where
  "z_unpend_thread thread s =
     snd (z_try_abort_thread_timeout thread
            (if pended_on (threads s thread) \<noteq> None then unpend_thread_no_timeout thread s else s))"

definition z_sched_wake_thread_locked :: "tid \<Rightarrow> 'o kstate \<Rightarrow> 'o kstate" where
  "z_sched_wake_thread_locked thread s =
     (let killed = thread_state (threads s thread) AND (THREAD_DEAD OR THREAD_ABORTING) \<noteq> 0
      in if \<not> killed
         then let s1 = (if pended_on (threads s thread) \<noteq> None
                        then unpend_thread_no_timeout thread s else s)
              in ready_thread thread (upd_thread thread z_mark_thread_as_not_sleeping s1)
         else s)"

definition z_thread_timeout :: "tid \<Rightarrow> 'o kstate \<Rightarrow> 'o kstate" where
  "z_thread_timeout thread s =
     (if \<not> z_timeout_inflight_superseded (ThreadTimeout thread) s
      then z_sched_wake_thread_locked thread s else s)"

definition z_pend_curr :: "wqid option \<Rightarrow> int \<Rightarrow> 'o kstate \<Rightarrow> int kres \<times> 'o kstate" where
  "z_pend_curr wait_q timeout s =
     (if in_isr s then (Panic, k_panic s)
      else do_swap (pend_locked (current s) wait_q timeout s))"

definition z_waitq_head :: "wqid \<Rightarrow> 'o kstate \<Rightarrow> tid option" where
  "z_waitq_head w s = z_priq_simple_best (waitq s w)"

definition z_unpend1_no_timeout :: "wqid \<Rightarrow> 'o kstate \<Rightarrow> tid option \<times> 'o kstate" where
  "z_unpend1_no_timeout wait_q s =
     (case z_waitq_head wait_q s of
        None \<Rightarrow> (None, s)
      | Some thread \<Rightarrow> (Some thread, unpend_thread_no_timeout thread s))"

definition z_unpend_first_thread_locked :: "wqid \<Rightarrow> 'o kstate \<Rightarrow> tid option \<times> 'o kstate" where
  "z_unpend_first_thread_locked wait_q s =
     (case z_waitq_head wait_q s of
        None \<Rightarrow> (None, s)
      | Some thread \<Rightarrow>
          (Some thread, snd (z_try_abort_thread_timeout thread (unpend_thread_no_timeout thread s))))"

definition z_thread_return_value_set_with_data :: "tid \<Rightarrow> int \<Rightarrow> nat \<Rightarrow> 'o kstate \<Rightarrow> 'o kstate" where
  "z_thread_return_value_set_with_data thread val data s =
     upd_thread thread (\<lambda>th. th\<lparr>swap_retval := val, swap_data := data\<rparr>) s"

definition z_sched_wake :: "wqid \<Rightarrow> int \<Rightarrow> nat \<Rightarrow> 'o kstate \<Rightarrow> bool \<times> 'o kstate" where
  "z_sched_wake wait_q retval data s =
     (case z_unpend_first_thread_locked wait_q s of
        (None, s1) \<Rightarrow> (False, s1)
      | (Some thread, s1) \<Rightarrow>
          (True, ready_thread thread (z_thread_return_value_set_with_data thread retval data s1)))"

text \<open>
  The wake-up loops take one thread off the wait queue in each turn.  One more turn than the
  queue has threads is enough fuel: the loop has then ended because the queue is empty.
\<close>

fun wake_all_loop :: "nat \<Rightarrow> wqid \<Rightarrow> int \<Rightarrow> nat \<Rightarrow> bool \<Rightarrow> 'o kstate \<Rightarrow> bool \<times> 'o kstate" where
  "wake_all_loop 0 w retval data woken s = (woken, s)"
| "wake_all_loop (Suc n) w retval data woken s =
     (let (b, s1) = z_sched_wake w retval data s
      in if b then wake_all_loop n w retval data True s1 else (woken, s1))"

definition z_sched_wake_all :: "wqid \<Rightarrow> int \<Rightarrow> nat \<Rightarrow> 'o kstate \<Rightarrow> bool \<times> 'o kstate" where
  "z_sched_wake_all w retval data s =
     wake_all_loop (Suc (length (waitq s w))) w retval data False s"

fun unpend_all_loop ::
  "nat \<Rightarrow> (tid \<Rightarrow> 'o kstate \<Rightarrow> 'o kstate) \<Rightarrow> wqid \<Rightarrow> int \<Rightarrow> 'o kstate \<Rightarrow> int \<times> 'o kstate" where
  "unpend_all_loop 0 f w need_sched s = (need_sched, s)"
| "unpend_all_loop (Suc n) f w need_sched s =
     (case z_waitq_head w s of
        None \<Rightarrow> (need_sched, s)
      | Some thread \<Rightarrow>
          unpend_all_loop n f w 1
            (ready_thread thread
               (snd (z_try_abort_thread_timeout thread
                  (f thread (unpend_thread_no_timeout thread s))))))"

definition z_unpend_all :: "wqid \<Rightarrow> 'o kstate \<Rightarrow> int \<times> 'o kstate" where
  "z_unpend_all w s = unpend_all_loop (Suc (length (waitq s w))) (\<lambda>_ s. s) w 0 s"

definition unpend_all :: "wqid \<Rightarrow> 'o kstate \<Rightarrow> 'o kstate" where
  "unpend_all w s =
     snd (unpend_all_loop (Suc (length (waitq s w)))
            (\<lambda>t. upd_thread t (\<lambda>th. th\<lparr>swap_retval := 0\<rparr>)) w 0 s)"

definition z_sched_wait :: "wqid option \<Rightarrow> int \<Rightarrow> 'o kstate \<Rightarrow> int kres \<times> 'o kstate" where
  "z_sched_wait wait_q timeout s = z_pend_curr wait_q timeout s"

definition z_sched_wait_resume :: "'o kstate \<Rightarrow> int \<times> nat" where
  "z_sched_wait_resume s = (do_swap_resume s, swap_data (threads s (current s)))"

fun waitq_walk ::
  "(tid \<Rightarrow> 'd \<times> 'o kstate \<Rightarrow> int \<times> 'd \<times> 'o kstate) \<Rightarrow> tid list \<Rightarrow> 'd \<times> 'o kstate \<Rightarrow>
   int \<times> 'd \<times> 'o kstate" where
  "waitq_walk walk_func [] ds = (0, ds)"
| "waitq_walk walk_func (thread # ts) ds =
     (let (status, ds1) = walk_func thread ds
      in if status \<noteq> 0 then (status, ds1) else waitq_walk walk_func ts ds1)"

definition z_sched_waitq_walk ::
  "wqid \<Rightarrow> (tid \<Rightarrow> 'd \<times> 'o kstate \<Rightarrow> int \<times> 'd \<times> 'o kstate) \<Rightarrow>
   (int \<Rightarrow> 'd \<times> 'o kstate \<Rightarrow> 'd \<times> 'o kstate) option \<Rightarrow> 'd \<times> 'o kstate \<Rightarrow> int \<times> 'd \<times> 'o kstate" where
  "z_sched_waitq_walk wait_q walk_func post_func ds =
     (let (status, ds1) = waitq_walk walk_func (waitq (snd ds) wait_q) ds
      in (status, case post_func of Some f \<Rightarrow> f status ds1 | None \<Rightarrow> ds1))"

section \<open>Thread life cycle\<close>

definition z_thread_prio_set :: "tid \<Rightarrow> int \<Rightarrow> 'o kstate \<Rightarrow> bool \<times> 'o kstate" where
  "z_thread_prio_set thread p s =
     (let set_prio = upd_thread thread (\<lambda>th. th\<lparr>prio := s8 p\<rparr>);
          need_sched = z_is_thread_ready (threads s thread)
      in (need_sched,
          if need_sched
          then update_cache True (queue_thread thread (set_prio (dequeue_thread thread s)))
          else if z_is_thread_pending (threads s thread)
          then (case pended_on (threads s thread) of
                  None \<Rightarrow> k_panic s
                | Some w \<Rightarrow> wait_add w thread (set_prio (wait_remove w thread s)))
          else set_prio s))"

definition z_dummy_thread_init :: "'o kstate \<Rightarrow> 'o kstate" where
  "z_dummy_thread_init s =
     (upd_thread (dummy_thread s)
        (\<lambda>th. th\<lparr>thread_state := THREAD_DUMMY, user_options := K_ESSENTIAL, held_mutexes := [],
                 mutex_pended_on := None, orig_prio := prio th\<rparr>) s)
      \<lparr>current := dummy_thread s\<rparr>"

definition halt_thread :: "tid \<Rightarrow> 8 word \<Rightarrow> 'o kstate \<Rightarrow> 'o kstate" where
  "halt_thread thread new_state s =
     (if thread_state (threads s thread) AND new_state = 0
      then
        let s1 = upd_thread thread (\<lambda>th. th\<lparr>thread_state := thread_state th OR new_state\<rparr>) s;
            s2 = (if z_is_thread_queued (threads s1 thread) then dequeue_thread thread s1 else s1);
            s3 = (if new_state = THREAD_DEAD
                  then unpend_all (WqJoin thread)
                    (snd (z_try_abort_thread_timeout thread
                       (if pended_on (threads s2 thread) \<noteq> None
                        then unpend_thread_no_timeout thread s2 else s2)))
                  else s2);
            dummify = (new_state = THREAD_DEAD \<and> thread = current s3 \<and> in_isr s3);
            s4 = update_cache True s3
        in if new_state = THREAD_SUSPENDED then s4
           else if dummify then z_dummy_thread_init s4 else s4
      else s)"

definition z_thread_halt :: "tid \<Rightarrow> bool \<Rightarrow> 'o kstate \<Rightarrow> int kres \<times> 'o kstate" where
  "z_thread_halt thread terminate s =
     (let s1 = halt_thread thread (if terminate then THREAD_DEAD else THREAD_SUSPENDED) s
      in if thread = current s1 \<and> \<not> in_isr s1
         then do_swap (if z_is_thread_essential (threads s1 thread) then k_panic s1 else s1)
         else (Ret 0, s1))"

definition z_thread_suspend_current :: "tid \<Rightarrow> 'o kstate \<Rightarrow> int kres \<times> 'o kstate" where
  "z_thread_suspend_current thread s =
     do_swap (update_cache True (dequeue_thread thread (upd_thread thread z_mark_thread_as_suspended s)))"

definition k_thread_priority_set :: "tid \<Rightarrow> int \<Rightarrow> 'o kstate \<Rightarrow> 'o kstate" where
  "k_thread_priority_set thread p s =
     (let (need_sched, s1) = z_thread_prio_set thread p s
      in if need_sched \<and> (CONFIG_SMP \<or> sched_locked (threads s1 (current s1)) = 0)
         then reschedule s1 else s1)"

definition k_thread_suspend :: "tid \<Rightarrow> 'o kstate \<Rightarrow> int kres \<times> 'o kstate" where
  "k_thread_suspend thread s =
     (if \<not> CONFIG_SMP \<and> thread = current s \<and> \<not> in_isr s then z_thread_suspend_current thread s
      else if z_is_thread_suspended (threads s thread) then (Ret 0, s)
      else z_thread_halt thread False s)"

definition k_thread_resume :: "tid \<Rightarrow> 'o kstate \<Rightarrow> 'o kstate" where
  "k_thread_resume thread s =
     (if \<not> z_is_thread_suspended (threads s thread) then s
      else reschedule (ready_thread thread (upd_thread thread z_mark_thread_as_not_suspended s)))"

definition k_wakeup :: "tid \<Rightarrow> 'o kstate \<Rightarrow> 'o kstate" where
  "k_wakeup thread s =
     (if z_is_thread_sleeping (threads s thread)
      then reschedule (ready_thread thread
             (upd_thread thread z_mark_thread_as_not_sleeping
                (snd (z_try_abort_thread_timeout thread s))))
      else s)"

definition z_thread_abort :: "tid \<Rightarrow> 'o kstate \<Rightarrow> int kres \<times> 'o kstate" where
  "z_thread_abort thread s =
     (let essential = z_is_thread_essential (threads s thread)
      in if z_is_thread_dead (threads s thread) then (Ret 0, s)
         else case z_thread_halt thread True s of
                (Ret v, s1) \<Rightarrow> (Ret v, if essential then k_panic s1 else s1)
              | r \<Rightarrow> r)"

definition k_thread_join :: "tid \<Rightarrow> int \<Rightarrow> 'o kstate \<Rightarrow> int kres \<times> 'o kstate" where
  "k_thread_join thread timeout s =
     (if z_is_thread_dead (threads s thread) then (Ret 0, s)
      else if timeout = K_NO_WAIT then (Ret (- EBUSY), s)
      else if thread = current s \<or> pended_on (threads s thread) = Some (WqJoin (current s))
        then (Ret (- EDEADLK), s)
      else do_swap (snd (z_add_thread_timeout (current s) timeout
             (add_to_waitq_locked (current s) (Some (WqJoin thread)) s))))"

definition k_yield :: "'o kstate \<Rightarrow> int kres \<times> 'o kstate" where
  "k_yield s = z_sched_yield s"

definition k_sleep_ticks :: "int \<Rightarrow> 'o kstate \<Rightarrow> int \<times> int kres \<times> 'o kstate" where
  "k_sleep_ticks timeout s =
     (if timeout = K_NO_WAIT then let (r, s1) = k_yield s in (0, map_kres (\<lambda>_. 0) r, s1)
      else let s1 = unready_thread (current s) s;
               (expected, s2) = z_add_thread_timeout (current s1) timeout s1;
               s3 = upd_thread (current s2) z_mark_thread_as_sleeping s2
           in (u32 expected, do_swap s3))"

definition k_sleep_ticks_resume :: "int \<Rightarrow> int \<Rightarrow> 'o kstate \<Rightarrow> int" where
  "k_sleep_ticks_resume timeout expected_wakeup_ticks s =
     (if timeout = K_NO_WAIT then 0
      else if timeout = K_FOREVER then K_TICKS_FOREVER
      else let left_ticks = u32 (expected_wakeup_ticks - sys_clock_tick_get_32 s);
               signed_left = s32 left_ticks
           in if signed_left < 0 then 0 else signed_left)"

definition k_sched_lock :: "'o kstate \<Rightarrow> 'o kstate" where
  "k_sched_lock s = upd_thread (current s) (\<lambda>th. th\<lparr>sched_locked := u8 (sched_locked th - 1)\<rparr>) s"

definition k_sched_unlock :: "'o kstate \<Rightarrow> 'o kstate" where
  "k_sched_unlock s =
     z_sched_lock_reschedule
       (upd_thread (current s) (\<lambda>th. th\<lparr>sched_locked := u8 (sched_locked th + 1)\<rparr>) s)"

definition k_reschedule :: "'o kstate \<Rightarrow> 'o kstate" where
  "k_reschedule s = z_sched_lock_reschedule s"

definition k_is_preempt_thread :: "'o kstate \<Rightarrow> bool" where
  "k_is_preempt_thread s \<longleftrightarrow> \<not> in_isr s \<and> thread_is_preemptible (threads s (current s))"

definition z_init_thread_base :: "int \<Rightarrow> 8 word \<Rightarrow> 16 word \<Rightarrow> k_thread \<Rightarrow> k_thread" where
  "z_init_thread_base priority initial_state options th =
     th\<lparr>pended_on := None, user_options := options, thread_state := initial_state,
        prio := s8 priority, sched_locked := 0\<rparr>"

definition z_setup_new_thread :: "tid \<Rightarrow> int \<Rightarrow> 16 word \<Rightarrow> 'o kstate \<Rightarrow> 'o kstate" where
  "z_setup_new_thread new_thread p options s =
     upd_thread new_thread
       (\<lambda>th. let th1 = z_init_thread_base p THREAD_SLEEPING options th
             in th1\<lparr>held_mutexes := [], mutex_pended_on := None, orig_prio := prio th1\<rparr>)
       (s\<lparr>waitq := (waitq s)(WqJoin new_thread := [])\<rparr>)"

definition thread_schedule_new :: "tid \<Rightarrow> int \<Rightarrow> 'o kstate \<Rightarrow> 'o kstate" where
  "thread_schedule_new thread delay s =
     (if delay = K_NO_WAIT then k_wakeup thread s else snd (z_add_thread_timeout thread delay s))"

definition k_thread_create :: "tid \<Rightarrow> int \<Rightarrow> 16 word \<Rightarrow> int \<Rightarrow> 'o kstate \<Rightarrow> 'o kstate" where
  "k_thread_create new_thread p options delay s =
     thread_schedule_new new_thread delay (z_setup_new_thread new_thread p options s)"

end
