(* ===== verification/Sched_Inv.thy ===== *)
theory Sched_Inv
  imports Sched
begin

text \<open>
  The scheduler's invariant and what every operation of theory \<open>Sched\<close> keeps of it.
\<close>

section \<open>Frames\<close>

lemma upd_thread_sel [simp]:
  "threads (upd_thread t f s) = (threads s)(t := f (threads s t))"
  "runq (upd_thread t f s) = runq s" "cache (upd_thread t f s) = cache s"
  "current (upd_thread t f s) = current s" "idle_thread (upd_thread t f s) = idle_thread s"
  "dummy_thread (upd_thread t f s) = dummy_thread s" "waitq (upd_thread t f s) = waitq s"
  "in_isr (upd_thread t f s) = in_isr s" "irq_unlocked (upd_thread t f s) = irq_unlocked s"
  "fatal (upd_thread t f s) = fatal s" "objs (upd_thread t f s) = objs s"
  "tq (upd_thread t f s) = tq s" "curr_tick (upd_thread t f s) = curr_tick s"
  "tfn (upd_thread t f s) = tfn s" "announcing_cpu (upd_thread t f s) = announcing_cpu s"
  "announce_remaining (upd_thread t f s) = announce_remaining s"
  "inflight_timeout (upd_thread t f s) = inflight_timeout s"
  "clk_elapsed (upd_thread t f s) = clk_elapsed s" "clk_wait (upd_thread t f s) = clk_wait s"
  "elapsed (upd_thread t f s) = elapsed s"
  by (simp_all add: upd_thread_def elapsed_def this_cpu_announcing_def)

lemma kframe:
  assumes "tstate.more s' = tstate.more (s :: 'o kstate)"
  shows "threads s' = threads s" "runq s' = runq s" "cache s' = cache s" "current s' = current s"
    "idle_thread s' = idle_thread s" "dummy_thread s' = dummy_thread s" "waitq s' = waitq s"
    "in_isr s' = in_isr s" "irq_unlocked s' = irq_unlocked s" "fatal s' = fatal s" "objs s' = objs s"
  using assms by (cases s; cases s'; simp)+

lemmas add_thread_timeout_sel [simp] =
  kframe [OF add_timeout_frame(7) [where Q = dlist_ops and t = "ThreadTimeout t" and g = Z_THREAD_TIMEOUT and n = n and s = s],
    folded z_add_thread_timeout_def] for t n and s :: "'o kstate"

lemmas abort_thread_timeout_sel [simp] =
  kframe [OF abort_frame(6) [where Q = dlist_ops and t = "ThreadTimeout t" and s = s],
    folded z_try_abort_thread_timeout_def] for t and s :: "'o kstate"

lemma thread_timeout_clock [simp]:
  "curr_tick (snd (z_add_thread_timeout t n s)) = curr_tick s"
  "curr_tick (snd (z_try_abort_thread_timeout t s)) = curr_tick s"
  "tfn (snd (z_try_abort_thread_timeout t s)) = tfn s"
  "announcing_cpu (snd (z_add_thread_timeout t n s)) = announcing_cpu s"
  "announcing_cpu (snd (z_try_abort_thread_timeout t s)) = announcing_cpu s"
  "announce_remaining (snd (z_add_thread_timeout t n s)) = announce_remaining s"
  "announce_remaining (snd (z_try_abort_thread_timeout t s)) = announce_remaining s"
  "clk_elapsed (snd (z_add_thread_timeout t n s)) = clk_elapsed s"
  "clk_elapsed (snd (z_try_abort_thread_timeout t s)) = clk_elapsed s"
  by (simp_all add: z_add_thread_timeout_def z_try_abort_thread_timeout_def)

lemma update_cache_sel [simp]:
  "threads (update_cache p s) = threads s" "runq (update_cache p s) = runq s"
  "current (update_cache p s) = current s" "idle_thread (update_cache p s) = idle_thread s"
  "dummy_thread (update_cache p s) = dummy_thread s" "waitq (update_cache p s) = waitq s"
  "in_isr (update_cache p s) = in_isr s" "irq_unlocked (update_cache p s) = irq_unlocked s"
  "fatal (update_cache p s) = fatal s" "objs (update_cache p s) = objs s"
  "tq (update_cache p s) = tq s" "curr_tick (update_cache p s) = curr_tick s"
  "tfn (update_cache p s) = tfn s" "announcing_cpu (update_cache p s) = announcing_cpu s"
  "announce_remaining (update_cache p s) = announce_remaining s"
  "inflight_timeout (update_cache p s) = inflight_timeout s"
  "clk_elapsed (update_cache p s) = clk_elapsed s" "elapsed (update_cache p s) = elapsed s"
  by (simp_all add: update_cache_def Let_def elapsed_def this_cpu_announcing_def)

section \<open>The invariant\<close>

abbreviation RDY :: "'o kstate \<Rightarrow> tid \<Rightarrow> bool" where
  "RDY s t \<equiv> z_is_thread_ready (threads s t)"

definition armed :: "'o kstate \<Rightarrow> tid \<Rightarrow> bool" where
  "armed s t \<longleftrightarrow> ThreadTimeout t \<in> fst ` set (tq s)"

text \<open>Only a pending or sleeping thread has a timeout.\<close>

abbreviation waits :: "k_thread \<Rightarrow> bool" where
  "waits th \<equiv> z_is_thread_pending th \<or> z_is_thread_sleeping th"

definition rq_inv :: "tid set \<Rightarrow> 'o kstate \<Rightarrow> bool" where
  "rq_inv X s \<longleftrightarrow> distinct (runq s) \<and> prio_sorted (threads s) (runq s) \<and>
     idle_thread s \<notin> set (runq s) \<and> RDY s (idle_thread s) \<and>
     (\<forall>t. t \<in> set (runq s) \<longleftrightarrow> z_is_thread_queued (threads s t)) \<and>
     (\<forall>t. t \<in> set (runq s) \<longrightarrow> RDY s t) \<and>
     (\<forall>t. RDY s t \<longrightarrow> t \<in> set (runq s) \<or> t = idle_thread s \<or> t \<in> X)"

definition wq_inv :: "'o kstate \<Rightarrow> bool" where
  "wq_inv s \<longleftrightarrow> (\<forall>w. distinct (waitq s w) \<and> prio_sorted (threads s) (waitq s w)) \<and>
     (\<forall>w t. t \<in> set (waitq s w) \<longleftrightarrow> pended_on (threads s t) = Some w) \<and>
     (\<forall>t. pended_on (threads s t) \<noteq> None \<longrightarrow> z_is_thread_pending (threads s t))"

definition to_inv :: "tid set \<Rightarrow> 'o kstate \<Rightarrow> bool" where
  "to_inv X s \<longleftrightarrow> dl_inv (curr_tick s) (tq s) \<and> 0 \<le> curr_tick s \<and>
     (\<forall>t. armed s t \<longrightarrow> waits (threads s t) \<or> t \<in> X) \<and>
     (\<forall>t. armed s t \<longrightarrow> tfn s (ThreadTimeout t) = Z_THREAD_TIMEOUT)"

definition dead_inv :: "tid set \<Rightarrow> 'o kstate \<Rightarrow> bool" where
  "dead_inv X s \<longleftrightarrow> (\<forall>t. z_is_thread_dead (threads s t) \<and> t \<notin> X \<longrightarrow>
     pended_on (threads s t) = None \<and> \<not> armed s t \<and> waitq s (WqJoin t) = [])"

definition dummy_inv :: "'o kstate \<Rightarrow> bool" where
  "dummy_inv s \<longleftrightarrow> is_thread_dummy (threads s (dummy_thread s)) \<and>
     pended_on (threads s (dummy_thread s)) = None \<and> \<not> armed s (dummy_thread s)"

definition sinv :: "tid set \<Rightarrow> 'o kstate \<Rightarrow> bool" where
  "sinv X s \<longleftrightarrow> rq_inv X s \<and> wq_inv s \<and> to_inv X s \<and> dead_inv X s \<and> dummy_inv s"

lemmas inv_defs = sinv_def rq_inv_def wq_inv_def to_inv_def dead_inv_def dummy_inv_def

lemma armed_sel [simp]:
  "armed (upd_thread t f s) = armed s" "armed (update_cache p s) = armed s"
  "armed (s\<lparr>runq := r\<rparr>) = armed s" "armed (s\<lparr>waitq := w\<rparr>) = armed s"
  "armed (s\<lparr>cache := c\<rparr>) = armed s" "armed (s\<lparr>current := c\<rparr>) = armed s"
  "armed (s\<lparr>objs := obj\<rparr>) = armed s" "armed (s\<lparr>in_isr := b\<rparr>) = armed s"
  "armed (s\<lparr>fatal := b\<rparr>) = armed s" "armed (s\<lparr>inflight_timeout := i\<rparr>) = armed s"
  by (simp_all add: armed_def fun_eq_iff)

text \<open>The invariant reads the queues, the timeouts and three fields of each thread.\<close>

lemma sinv_cong:
  assumes "\<And>t. prio (threads s' t) = prio (threads s t)"
    "\<And>t. pended_on (threads s' t) = pended_on (threads s t)"
    "\<And>t. thread_state (threads s' t) = thread_state (threads s t)"
    and "runq s' = runq s" "waitq s' = waitq s" "idle_thread s' = idle_thread s"
    and "dummy_thread s' = dummy_thread s"
    and "tq s' = tq s" "curr_tick s' = curr_tick s" "tfn s' = tfn s"
  shows "sinv X s' = sinv X s"
proof -
  have st: "RDY s' t = RDY s t" "z_is_thread_queued (threads s' t) = z_is_thread_queued (threads s t)"
    "z_is_thread_pending (threads s' t) = z_is_thread_pending (threads s t)"
    "z_is_thread_dead (threads s' t) = z_is_thread_dead (threads s t)"
    "is_thread_dummy (threads s' t) = is_thread_dummy (threads s t)"
    "z_is_thread_sleeping (threads s' t) = z_is_thread_sleeping (threads s t)"
    "armed s' t = armed s t" for t
    using assms(3,8) by (simp_all add: state_defs armed_def)
  have so: "prio_sorted (threads s') = prio_sorted (threads s)"
    by (rule ext, rule prio_sorted_cong) (simp add: assms)
  show ?thesis unfolding inv_defs st so assms ..
qed

lemma sinv_mono: "sinv X s \<Longrightarrow> X \<subseteq> Y \<Longrightarrow> sinv Y s"
  unfolding inv_defs by blast

lemma sinv_update_cache [simp]: "sinv X (update_cache p s) = sinv X s"
  by (rule sinv_cong) simp_all

lemma sinv_thread_field:
  "(\<And>th. prio (f th) = prio th) \<Longrightarrow> (\<And>th. pended_on (f th) = pended_on th) \<Longrightarrow>
   (\<And>th. thread_state (f th) = thread_state th) \<Longrightarrow> sinv X (upd_thread t f s) = sinv X s"
  by (rule sinv_cong) simp_all

lemma sinv_sel [simp]:
  "sinv X (s\<lparr>cache := c\<rparr>) = sinv X s" "sinv X (s\<lparr>current := c\<rparr>) = sinv X s"
  "sinv X (s\<lparr>objs := obj\<rparr>) = sinv X s" "sinv X (s\<lparr>in_isr := b\<rparr>) = sinv X s"
  "sinv X (s\<lparr>fatal := b\<rparr>) = sinv X s" "sinv X (s\<lparr>inflight_timeout := i\<rparr>) = sinv X s"
  by (rule sinv_cong; simp)+

section \<open>Elementary steps\<close>

lemma sinvD:
  assumes "sinv X s"
  shows "t \<in> set (runq s) \<longleftrightarrow> z_is_thread_queued (threads s t)" "t \<in> set (runq s) \<Longrightarrow> RDY s t"
    "RDY s (idle_thread s)" "idle_thread s \<notin> set (runq s)"
    "RDY s t \<Longrightarrow> t \<in> set (runq s) \<or> t = idle_thread s \<or> t \<in> X" "distinct (runq s)"
    "prio_sorted (threads s) (runq s)" "distinct (waitq s w)" "prio_sorted (threads s) (waitq s w)"
    "t \<in> set (waitq s w) \<longleftrightarrow> pended_on (threads s t) = Some w"
    "pended_on (threads s t) \<noteq> None \<Longrightarrow> z_is_thread_pending (threads s t)"
    "dl_inv (curr_tick s) (tq s)" "0 \<le> curr_tick s" "RDY s t \<Longrightarrow> armed s t \<Longrightarrow> t \<in> X"
    "z_is_thread_dead (threads s t) \<Longrightarrow> t \<notin> X \<Longrightarrow>
       pended_on (threads s t) = None \<and> \<not> armed s t \<and> waitq s (WqJoin t) = []"
    "is_thread_dummy (threads s (dummy_thread s))" "pended_on (threads s (dummy_thread s)) = None"
    "\<not> armed s (dummy_thread s)" "RDY s t \<Longrightarrow> t \<noteq> dummy_thread s"
    "pended_on (threads s t) = Some w \<Longrightarrow> t \<noteq> dummy_thread s"
    "armed s t \<Longrightarrow> waits (threads s t) \<or> t \<in> X"
proof -
  show d: "is_thread_dummy (threads s (dummy_thread s))" "pended_on (threads s (dummy_thread s)) = None"
    "\<not> armed s (dummy_thread s)" using assms unfolding inv_defs by blast+
  show "RDY s t \<Longrightarrow> t \<noteq> dummy_thread s" using d by (auto simp: thread_ready_tests)
  show "pended_on (threads s t) = Some w \<Longrightarrow> t \<noteq> dummy_thread s" using d by auto
  show a: "armed s t \<Longrightarrow> waits (threads s t) \<or> t \<in> X" using assms unfolding inv_defs by blast
  then show "RDY s t \<Longrightarrow> armed s t \<Longrightarrow> t \<in> X" by (auto simp: thread_ready_tests)
qed (use assms in \<open>unfold inv_defs, blast+\<close>)

text \<open>A step that changes one thread record and its membership in the queues.\<close>

lemma sinv_upd:
  assumes s: "sinv X s" and th: "threads s' = (threads s)(t := x)"
    and same: "idle_thread s' = idle_thread s" "dummy_thread s' = dummy_thread s" "curr_tick s' = curr_tick s" "tq s' = tq s" "tfn s' = tfn s"
    and X: "X \<subseteq> insert t Y"
    and rq: "distinct (runq s')" "prio_sorted (threads s') (runq s')"
      "set (runq s') - {t} = set (runq s) - {t}" "t \<in> set (runq s') \<longleftrightarrow> z_is_thread_queued x"
      "t \<in> set (runq s') \<Longrightarrow> z_is_thread_ready x \<and> t \<noteq> idle_thread s"
      "z_is_thread_ready x \<Longrightarrow> t \<in> set (runq s') \<or> t = idle_thread s \<or> t \<in> Y"
      "t = idle_thread s \<Longrightarrow> z_is_thread_ready x"
    and wq: "\<And>w. distinct (waitq s' w)" "\<And>w. prio_sorted (threads s') (waitq s' w)"
      "\<And>w. set (waitq s' w) - {t} = set (waitq s w) - {t}"
      "\<And>w. t \<in> set (waitq s' w) \<longleftrightarrow> pended_on x = Some w"
      "pended_on x \<noteq> None \<Longrightarrow> z_is_thread_pending x"
    and to: "armed s t \<Longrightarrow> waits x \<or> t \<in> Y"
    and dead: "z_is_thread_dead x \<Longrightarrow> t \<notin> Y \<Longrightarrow>
      pended_on x = None \<and> \<not> armed s t \<and> waitq s' (WqJoin t) = []"
      "\<And>u. waitq s (WqJoin u) = [] \<Longrightarrow> u \<noteq> t \<Longrightarrow> z_is_thread_dead (threads s u) \<Longrightarrow> waitq s' (WqJoin u) = []"
    and dm: "t = dummy_thread s \<Longrightarrow> is_thread_dummy x \<and> pended_on x = None"
  shows "sinv Y s'"
proof -
  have a: "armed s' = armed s" using same(4) by (simp add: armed_def fun_eq_iff)
  have "rq_inv Y s'"
    unfolding rq_inv_def
  proof (intro conjI allI impI)
    fix u
    show "u \<in> set (runq s') \<longleftrightarrow> z_is_thread_queued (threads s' u)"
      using sinvD(1) [OF s, of u] rq(3,4) th by (cases "u = t") auto
    show "RDY s' u" if "u \<in> set (runq s')"
      using sinvD(2) [OF s, of u] rq(3,5) th that by (cases "u = t") auto
    show "u \<in> set (runq s') \<or> u = idle_thread s' \<or> u \<in> Y" if "RDY s' u"
      using sinvD(5) [OF s, of u] rq(3,6) th same(1) X that by (cases "u = t") auto
  qed (use sinvD(3,4) [OF s] rq th same in \<open>auto\<close>)
  moreover have "wq_inv s'"
    unfolding wq_inv_def
  proof (intro conjI allI impI)
    fix w u
    show "u \<in> set (waitq s' w) \<longleftrightarrow> pended_on (threads s' u) = Some w"
      using sinvD(10) [OF s, of u w] wq(3) [of w] wq(4) [of w] th by (cases "u = t") auto
    show "z_is_thread_pending (threads s' u)" if "pended_on (threads s' u) \<noteq> None"
      using sinvD(11) [OF s, of u] wq(5) th that by (cases "u = t") auto
  qed (use wq in auto)
  moreover have "to_inv Y s'"
    using s X to th same a unfolding sinv_def to_inv_def by auto
  moreover have "dead_inv Y s'"
    unfolding dead_inv_def
  proof (intro allI impI)
    fix u assume u: "z_is_thread_dead (threads s' u) \<and> u \<notin> Y"
    show "pended_on (threads s' u) = None \<and> \<not> armed s' u \<and> waitq s' (WqJoin u) = []"
    proof (cases "u = t")
      case False
      with u th X have "z_is_thread_dead (threads s u)" "u \<notin> X" by auto
      with sinvD(15) [OF s] dead(2) False th a show ?thesis by auto
    qed (use u th dead(1) a in auto)
  qed
  moreover have "dummy_inv s'"
    using sinvD(16-18) [OF s] dm th same(2) a unfolding dummy_inv_def by auto
  ultimately show ?thesis by (simp add: sinv_def)
qed

lemma sorted_other:
  "t \<notin> set q \<Longrightarrow> prio_sorted (th(t := x)) q = prio_sorted th q"
  by (rule prio_sorted_cong) auto

lemma sorted_same [simp]:
  "prio x = prio (th t) \<Longrightarrow> prio_sorted (th(t := x)) q = prio_sorted th q"
  by (rule prio_sorted_cong) auto

lemma insert_same [simp]:
  "prio x = prio (th t) \<Longrightarrow> prio_insert (th(t := x)) u q = prio_insert th u q"
  by (rule prio_insert_cong) auto

lemma sinv_simps:
  assumes "sinv X s"
  shows "distinct (runq s)" "prio_sorted (threads s) (runq s)" "distinct (waitq s w)"
    "prio_sorted (threads s) (waitq s w)" "z_is_thread_queued (threads s t) \<longleftrightarrow> t \<in> set (runq s)"
    "t \<in> set (waitq s w) \<longleftrightarrow> pended_on (threads s t) = Some w" "idle_thread s \<notin> set (runq s)"
    "RDY s (idle_thread s)"
  using sinvD [OF assms] by metis+

lemma queue_thread_eq:
  "queue_thread t s = (upd_thread t z_mark_thread_as_queued s)\<lparr>runq := prio_insert (threads s) t (runq s)\<rparr>"
  by (simp add: queue_thread_def Let_def should_queue_thread_def runq_add_def simple_add_insert)

lemma dequeue_thread_eq:
  "dequeue_thread t s = (upd_thread t z_mark_thread_as_not_queued s)\<lparr>runq := remove1 t (runq s)\<rparr>"
  by (simp add: dequeue_thread_def Let_def should_queue_thread_def runq_remove_def
      z_priq_simple_remove_def)

lemma sinv_dequeue:
  assumes s: "sinv X s" and t: "t \<in> set (runq s)"
  shows "sinv (insert t X) (dequeue_thread t s)"
  unfolding dequeue_thread_eq
  by (rule sinv_upd [OF s, where t = t and x = "z_mark_thread_as_not_queued (threads s t)"])
    (use t sinvD(2,11,14,15) [OF s, of t] sinv_simps(7) [OF s] sinvD(19) [OF s sinvD(2) [OF s t]] in
      \<open>auto simp: sinv_simps(1-6) [OF s]\<close>)

lemma sinv_queue:
  assumes s: "sinv (insert t X) s" and t: "RDY s t" "t \<notin> set (runq s)" "t \<noteq> idle_thread s" "\<not> armed s t"
  shows "sinv X (queue_thread t s)"
  unfolding queue_thread_eq
  by (rule sinv_upd [OF s, where t = t and x = "z_mark_thread_as_queued (threads s t)"])
    (use t sinvD(11) [OF s, of t] sinv_simps(7) [OF s] sinvD(19) [OF s t(1)] in
      \<open>auto simp: sinv_simps(1-6) [OF s] thread_ready_tests\<close>)

text \<open>A thread that is in no queue becomes blocked, or a blocking reason goes away.\<close>

lemma sinv_mark:
  assumes s: "sinv (insert t X) s" and t: "t \<notin> set (runq s)" "t \<noteq> idle_thread s"
    and f: "prio (f (threads s t)) = prio (threads s t)"
      "pended_on (f (threads s t)) = pended_on (threads s t)"
      "z_is_thread_queued (f (threads s t)) = z_is_thread_queued (threads s t)"
      "z_is_thread_pending (threads s t) \<Longrightarrow> z_is_thread_pending (f (threads s t))"
    and r: "z_is_thread_ready (f (threads s t)) \<Longrightarrow> t \<in> Y"
    and d: "z_is_thread_dead (f (threads s t)) \<Longrightarrow> t \<notin> Y \<Longrightarrow>
      pended_on (threads s t) = None \<and> \<not> armed s t \<and> waitq s (WqJoin t) = []"
    and Y: "X \<subseteq> Y"
    and dm: "is_thread_dummy (threads s t) \<Longrightarrow> is_thread_dummy (f (threads s t))"
    and a: "armed s t \<Longrightarrow> waits (f (threads s t)) \<or> t \<in> Y"
  shows "sinv Y (upd_thread t f s)"
  by (rule sinv_upd [OF s, where t = t and x = "f (threads s t)"])
    (use t f r d Y dm a sinvD(11) [OF s, of t] in \<open>auto simp: sinv_simps(1-6) [OF s] sinvD(16,17) [OF s]\<close>)

lemma sinv_wait_add:
  assumes s: "sinv X s" and t: "pended_on (threads s t) = None" "z_is_thread_pending (threads s t)"
    and d: "z_is_thread_dead (threads s t) \<Longrightarrow> t \<in> X"
      "\<And>u. w = WqJoin u \<Longrightarrow> \<not> z_is_thread_dead (threads s u)" "t \<noteq> dummy_thread s"
  shows "sinv X (wait_add w t (upd_thread t (\<lambda>th. th\<lparr>pended_on := Some w\<rparr>) s))"
proof -
  have "t \<notin> set (runq s)" "t \<noteq> idle_thread s" using sinvD(2) [OF s, of t] sinvD(3) [OF s] t(2) by (auto simp: thread_ready_tests)
  then show ?thesis unfolding wait_add_def simple_add_insert
    by (intro sinv_upd [OF s, where t = t and x = "(threads s t)\<lparr>pended_on := Some w\<rparr>"])
      (use t d in \<open>auto simp: sinv_simps(1-6) [OF s] thread_ready_tests split: if_splits\<close>)
qed

lemma unpend_eq:
  "pended_on (threads s t) = Some w \<Longrightarrow> unpend_thread_no_timeout t s =
     upd_thread t (\<lambda>th. (z_mark_thread_as_not_pending th)\<lparr>pended_on := None\<rparr>)
       (s\<lparr>waitq := (waitq s)(w := remove1 t (waitq s w))\<rparr>)"
  by (simp add: unpend_thread_no_timeout_def wait_remove_def z_priq_simple_remove_def)

lemma sinv_unpend:
  assumes s: "sinv X s" and w: "pended_on (threads s t) = Some w"
  shows "sinv (insert t X) (unpend_thread_no_timeout t s)"
proof -
  have p: "z_is_thread_pending (threads s t)" using sinvD(11) [OF s] w by simp
  have "t \<notin> set (runq s)" "t \<noteq> idle_thread s" using p sinvD(2) [OF s, of t] sinvD(3) [OF s] by (auto simp: thread_ready_tests)
  then show ?thesis unfolding unpend_eq [OF w]
    by (intro sinv_upd [OF s, where t = t and
        x = "(z_mark_thread_as_not_pending (threads s t))\<lparr>pended_on := None\<rparr>"])
      (use w p sinvD(20) [OF s w] in \<open>auto simp: sinv_simps(1-6) [OF s]\<close>)
qed

section \<open>Thread timeouts\<close>

definition timeout_fits :: "int \<Rightarrow> 'o kstate \<Rightarrow> bool" where
  "timeout_fits n s \<longleftrightarrow> n = K_FOREVER \<or>
     (if 0 \<le> n then curr_tick s + elapsed s + n + 1 < 2 ^ 63
      else - (2 ^ 63) \<le> n \<and> curr_tick s + 1 < 2 ^ 63)"

lemma add_timeout_queue:
  fixes s :: "'o kstate"
  assumes "timeout_fits n s" "n \<noteq> K_FOREVER" "0 \<le> curr_tick s"
  shows "\<exists>d. 0 \<le> d \<and> tq (snd (z_add_timeout dlist_ops to f n s)) = dl_insert to d (tq s)"
proof -
  define d where "d = (if 0 \<le> n then s64 (n + elapsed s + (if this_cpu_announcing s then 0 else 1))
    else max 1 (s64 (Z_TICK_ABS n - curr_tick s)))"
  have "tq (snd (z_add_timeout dlist_ops to f n s)) = dl_insert to d (tq s)"
    using assms(2) by (simp add: z_add_timeout_def Let_def case_prod_unfold dl_q_insert_def
        Z_IS_TIMEOUT_RELATIVE_def this_cpu_announcing_def d_def)
  moreover have "0 \<le> d"
  proof (cases "0 \<le> n")
    case True
    with assms elapsed_nonneg [of s] have "0 \<le> n + elapsed s" "n + elapsed s + 1 < 2 ^ 63"
      by (auto simp: timeout_fits_def)
    then have "s64 (n + elapsed s) = n + elapsed s" "s64 (n + elapsed s + 1) = n + elapsed s + 1"
      by (intro s64_id; linarith)+
    with \<open>0 \<le> n + elapsed s\<close> True show ?thesis by (simp add: d_def)
  qed (simp add: d_def)
  ultimately show ?thesis by blast
qed

lemma armed_add:
  assumes "timeout_fits n s" "0 \<le> curr_tick s"
  shows "armed (snd (z_add_thread_timeout t n s)) u \<longleftrightarrow> armed s u \<or> (u = t \<and> n \<noteq> K_FOREVER)"
proof (cases "n = K_FOREVER")
  case False
  from add_timeout_queue [OF assms(1) this assms(2)] obtain d where
    "tq (snd (z_add_timeout dlist_ops (ThreadTimeout t) Z_THREAD_TIMEOUT n s)) =
       dl_insert (ThreadTimeout t) d (tq s)" by blast
  with False show ?thesis by (auto simp: armed_def z_add_thread_timeout_def fst_dl_insert)
qed (simp add: armed_def z_add_thread_timeout_def)

lemma sinv_add_timeout:
  assumes s: "sinv X s" and n: "timeout_fits n s" and t: "\<not> armed s t" "waits (threads s t) \<or> t \<in> X"
    "z_is_thread_dead (threads s t) \<Longrightarrow> t \<in> X" "t \<noteq> dummy_thread s"
  shows "sinv X (snd (z_add_thread_timeout t n s))"
proof (cases "n = K_FOREVER")
  case True
  with s show ?thesis by (simp add: z_add_thread_timeout_def)
next
  case False
  from add_timeout_queue [OF n this sinvD(13) [OF s]] obtain d where d: "0 \<le> d"
    "tq (snd (z_add_thread_timeout t n s)) = dl_insert (ThreadTimeout t) d (tq s)"
    unfolding z_add_thread_timeout_def by blast
  have a: "armed (snd (z_add_thread_timeout t n s)) u \<longleftrightarrow> armed s u \<or> u = t" for u
    using armed_add [OF n sinvD(13) [OF s]] False by simp
  have "dl_inv (curr_tick s) (dl_insert (ThreadTimeout t) d (tq s))"
    using d(1) t(1) sinvD(12) [OF s] by (simp add: armed_def dl_inv_insert)
  moreover have "tfn (snd (z_add_thread_timeout t n s)) = (tfn s)(ThreadTimeout t := Z_THREAD_TIMEOUT)"
    using False by (simp add: z_add_thread_timeout_def add_timeout_tfn)
  ultimately show ?thesis
    using s t by (auto simp: inv_defs a d(2))
qed

lemma armed_abort:
  assumes "dl_inv (curr_tick s) (tq s)"
  shows "armed (snd (z_try_abort_thread_timeout t s)) u \<longleftrightarrow> armed s u \<and> u \<noteq> t"
    "dl_inv (curr_tick s) (tq (snd (z_try_abort_thread_timeout t s)))"
proof -
  let ?s = "snd (z_try_abort_timeout dlist_ops (ThreadTimeout t) s)"
  have "dl_inv (curr_tick s) (tq ?s) \<and>
      dom (dl_expiry (curr_tick s) (tq ?s)) = dom (dl_expiry (curr_tick s) (tq s)) - {ThreadTimeout t}"
  proof (cases "dl_expiry (curr_tick s) (tq s) (ThreadTimeout t)")
    case None
    then have "ThreadTimeout t \<notin> dom (dl_expiry (curr_tick s) (tq s))" by (simp add: domIff del: dl_expiry_dom)
    from dlt.abort_inactive(2) [OF assms this] None assms show ?thesis by (auto simp: domIff simp del: dl_expiry_dom)
  next
    case (Some e)
    from dlt.abort_active(2,3) [OF assms Some] show ?thesis by (simp del: dl_expiry_dom) 
  qed
  then show "armed (snd (z_try_abort_thread_timeout t s)) u \<longleftrightarrow> armed s u \<and> u \<noteq> t"
    "dl_inv (curr_tick s) (tq (snd (z_try_abort_thread_timeout t s)))"
    by (auto simp: armed_def z_try_abort_thread_timeout_def)
qed

lemma sinv_abort_timeout:
  assumes s: "sinv X s"
  shows "sinv X (snd (z_try_abort_thread_timeout t s))" "\<not> armed (snd (z_try_abort_thread_timeout t s)) t"
    "armed (snd (z_try_abort_thread_timeout t s)) u \<Longrightarrow> armed s u"
proof -
  note a = armed_abort [OF sinvD(12) [OF s]]
  show "sinv X (snd (z_try_abort_thread_timeout t s))"
    using s unfolding inv_defs by (simp only: abort_thread_timeout_sel thread_timeout_clock a) blast
  show "\<not> armed (snd (z_try_abort_thread_timeout t s)) t"
    "armed (snd (z_try_abort_thread_timeout t s)) u \<Longrightarrow> armed s u" by (simp_all add: a)
qed

section \<open>What the composite operations leave alone\<close>

lemma queue_thread_sel [simp]:
  "idle_thread (queue_thread t s) = idle_thread s"
  "dummy_thread (queue_thread t s) = dummy_thread s" "in_isr (queue_thread t s) = in_isr s"
  "irq_unlocked (queue_thread t s) = irq_unlocked s" "objs (queue_thread t s) = objs s"
  "current (queue_thread t s) = current s" "curr_tick (queue_thread t s) = curr_tick s"
  "announcing_cpu (queue_thread t s) = announcing_cpu s"
  "announce_remaining (queue_thread t s) = announce_remaining s"
  "clk_elapsed (queue_thread t s) = clk_elapsed s" "waitq (queue_thread t s) = waitq s"
  "tq (queue_thread t s) = tq s" "tfn (queue_thread t s) = tfn s"
  "inflight_timeout (queue_thread t s) = inflight_timeout s" "cache (queue_thread t s) = cache s"
  "fatal (queue_thread t s) = fatal s"
  by (simp_all add: queue_thread_eq)

lemma dequeue_thread_sel [simp]:
  "idle_thread (dequeue_thread t s) = idle_thread s"
  "dummy_thread (dequeue_thread t s) = dummy_thread s" "in_isr (dequeue_thread t s) = in_isr s"
  "irq_unlocked (dequeue_thread t s) = irq_unlocked s" "objs (dequeue_thread t s) = objs s"
  "current (dequeue_thread t s) = current s" "curr_tick (dequeue_thread t s) = curr_tick s"
  "announcing_cpu (dequeue_thread t s) = announcing_cpu s"
  "announce_remaining (dequeue_thread t s) = announce_remaining s"
  "clk_elapsed (dequeue_thread t s) = clk_elapsed s" "waitq (dequeue_thread t s) = waitq s"
  "tq (dequeue_thread t s) = tq s" "tfn (dequeue_thread t s) = tfn s"
  "inflight_timeout (dequeue_thread t s) = inflight_timeout s"
  "cache (dequeue_thread t s) = cache s" "fatal (dequeue_thread t s) = fatal s"
  by (simp_all add: dequeue_thread_eq)

lemma ready_thread_sel [simp]:
  "idle_thread (ready_thread t s) = idle_thread s"
  "dummy_thread (ready_thread t s) = dummy_thread s" "in_isr (ready_thread t s) = in_isr s"
  "irq_unlocked (ready_thread t s) = irq_unlocked s" "objs (ready_thread t s) = objs s"
  "current (ready_thread t s) = current s" "curr_tick (ready_thread t s) = curr_tick s"
  "announcing_cpu (ready_thread t s) = announcing_cpu s"
  "announce_remaining (ready_thread t s) = announce_remaining s"
  "clk_elapsed (ready_thread t s) = clk_elapsed s" "waitq (ready_thread t s) = waitq s"
  "tq (ready_thread t s) = tq s" "tfn (ready_thread t s) = tfn s"
  "inflight_timeout (ready_thread t s) = inflight_timeout s" "fatal (ready_thread t s) = fatal s"
  by (simp_all add: ready_thread_def)

lemma unready_thread_sel [simp]:
  "idle_thread (unready_thread t s) = idle_thread s"
  "dummy_thread (unready_thread t s) = dummy_thread s" "in_isr (unready_thread t s) = in_isr s"
  "irq_unlocked (unready_thread t s) = irq_unlocked s" "objs (unready_thread t s) = objs s"
  "current (unready_thread t s) = current s" "curr_tick (unready_thread t s) = curr_tick s"
  "announcing_cpu (unready_thread t s) = announcing_cpu s"
  "announce_remaining (unready_thread t s) = announce_remaining s"
  "clk_elapsed (unready_thread t s) = clk_elapsed s" "waitq (unready_thread t s) = waitq s"
  "tq (unready_thread t s) = tq s" "tfn (unready_thread t s) = tfn s"
  "inflight_timeout (unready_thread t s) = inflight_timeout s"
  "fatal (unready_thread t s) = fatal s"
  by (simp_all add: unready_thread_def Let_def)

lemma wait_add_sel [simp]:
  "idle_thread (wait_add w t s) = idle_thread s" "dummy_thread (wait_add w t s) = dummy_thread s"
  "in_isr (wait_add w t s) = in_isr s" "irq_unlocked (wait_add w t s) = irq_unlocked s"
  "objs (wait_add w t s) = objs s" "current (wait_add w t s) = current s"
  "curr_tick (wait_add w t s) = curr_tick s" "announcing_cpu (wait_add w t s) = announcing_cpu s"
  "announce_remaining (wait_add w t s) = announce_remaining s"
  "clk_elapsed (wait_add w t s) = clk_elapsed s" "threads (wait_add w t s) = threads s"
  "runq (wait_add w t s) = runq s" "cache (wait_add w t s) = cache s"
  "tq (wait_add w t s) = tq s" "tfn (wait_add w t s) = tfn s"
  "inflight_timeout (wait_add w t s) = inflight_timeout s" "fatal (wait_add w t s) = fatal s"
  by (simp_all add: wait_add_def)

lemma wait_remove_sel [simp]:
  "idle_thread (wait_remove w t s) = idle_thread s"
  "dummy_thread (wait_remove w t s) = dummy_thread s" "in_isr (wait_remove w t s) = in_isr s"
  "irq_unlocked (wait_remove w t s) = irq_unlocked s" "objs (wait_remove w t s) = objs s"
  "current (wait_remove w t s) = current s" "curr_tick (wait_remove w t s) = curr_tick s"
  "announcing_cpu (wait_remove w t s) = announcing_cpu s"
  "announce_remaining (wait_remove w t s) = announce_remaining s"
  "clk_elapsed (wait_remove w t s) = clk_elapsed s" "threads (wait_remove w t s) = threads s"
  "runq (wait_remove w t s) = runq s" "cache (wait_remove w t s) = cache s"
  "tq (wait_remove w t s) = tq s" "tfn (wait_remove w t s) = tfn s"
  "inflight_timeout (wait_remove w t s) = inflight_timeout s"
  "fatal (wait_remove w t s) = fatal s"
  by (simp_all add: wait_remove_def)

lemma add_to_waitq_sel [simp]:
  "idle_thread (add_to_waitq_locked t w s) = idle_thread s"
  "dummy_thread (add_to_waitq_locked t w s) = dummy_thread s"
  "in_isr (add_to_waitq_locked t w s) = in_isr s"
  "irq_unlocked (add_to_waitq_locked t w s) = irq_unlocked s"
  "objs (add_to_waitq_locked t w s) = objs s" "current (add_to_waitq_locked t w s) = current s"
  "curr_tick (add_to_waitq_locked t w s) = curr_tick s"
  "announcing_cpu (add_to_waitq_locked t w s) = announcing_cpu s"
  "announce_remaining (add_to_waitq_locked t w s) = announce_remaining s"
  "clk_elapsed (add_to_waitq_locked t w s) = clk_elapsed s"
  "tq (add_to_waitq_locked t w s) = tq s" "tfn (add_to_waitq_locked t w s) = tfn s"
  "inflight_timeout (add_to_waitq_locked t w s) = inflight_timeout s"
  "fatal (add_to_waitq_locked t w s) = fatal s"
  by (simp_all add: add_to_waitq_locked_def Let_def split: option.split)

lemma pend_locked_sel [simp]:
  "idle_thread (pend_locked t w n s) = idle_thread s"
  "dummy_thread (pend_locked t w n s) = dummy_thread s" "in_isr (pend_locked t w n s) = in_isr s"
  "irq_unlocked (pend_locked t w n s) = irq_unlocked s" "objs (pend_locked t w n s) = objs s"
  "current (pend_locked t w n s) = current s" "curr_tick (pend_locked t w n s) = curr_tick s"
  "announcing_cpu (pend_locked t w n s) = announcing_cpu s"
  "announce_remaining (pend_locked t w n s) = announce_remaining s"
  "clk_elapsed (pend_locked t w n s) = clk_elapsed s"
  by (simp_all add: pend_locked_def)

lemma unpend_sel [simp]:
  "idle_thread (unpend_thread_no_timeout t s) = idle_thread s"
  "dummy_thread (unpend_thread_no_timeout t s) = dummy_thread s"
  "in_isr (unpend_thread_no_timeout t s) = in_isr s"
  "irq_unlocked (unpend_thread_no_timeout t s) = irq_unlocked s"
  "objs (unpend_thread_no_timeout t s) = objs s"
  "current (unpend_thread_no_timeout t s) = current s"
  "curr_tick (unpend_thread_no_timeout t s) = curr_tick s"
  "announcing_cpu (unpend_thread_no_timeout t s) = announcing_cpu s"
  "announce_remaining (unpend_thread_no_timeout t s) = announce_remaining s"
  "clk_elapsed (unpend_thread_no_timeout t s) = clk_elapsed s"
  "runq (unpend_thread_no_timeout t s) = runq s" "cache (unpend_thread_no_timeout t s) = cache s"
  "tq (unpend_thread_no_timeout t s) = tq s" "tfn (unpend_thread_no_timeout t s) = tfn s"
  "inflight_timeout (unpend_thread_no_timeout t s) = inflight_timeout s"
  by (simp_all add: unpend_thread_no_timeout_def k_panic_def split: option.split)

lemma wake_thread_sel [simp]:
  "idle_thread (z_sched_wake_thread_locked t s) = idle_thread s"
  "dummy_thread (z_sched_wake_thread_locked t s) = dummy_thread s"
  "in_isr (z_sched_wake_thread_locked t s) = in_isr s"
  "irq_unlocked (z_sched_wake_thread_locked t s) = irq_unlocked s"
  "objs (z_sched_wake_thread_locked t s) = objs s"
  "current (z_sched_wake_thread_locked t s) = current s"
  "curr_tick (z_sched_wake_thread_locked t s) = curr_tick s"
  "announcing_cpu (z_sched_wake_thread_locked t s) = announcing_cpu s"
  "announce_remaining (z_sched_wake_thread_locked t s) = announce_remaining s"
  "clk_elapsed (z_sched_wake_thread_locked t s) = clk_elapsed s"
  "tq (z_sched_wake_thread_locked t s) = tq s" "tfn (z_sched_wake_thread_locked t s) = tfn s"
  "inflight_timeout (z_sched_wake_thread_locked t s) = inflight_timeout s"
  by (simp_all add: z_sched_wake_thread_locked_def Let_def)

lemma unpend_first_sel [simp]:
  "idle_thread (snd (z_unpend_first_thread_locked w s)) = idle_thread s"
  "dummy_thread (snd (z_unpend_first_thread_locked w s)) = dummy_thread s"
  "in_isr (snd (z_unpend_first_thread_locked w s)) = in_isr s"
  "irq_unlocked (snd (z_unpend_first_thread_locked w s)) = irq_unlocked s"
  "objs (snd (z_unpend_first_thread_locked w s)) = objs s"
  "current (snd (z_unpend_first_thread_locked w s)) = current s"
  "curr_tick (snd (z_unpend_first_thread_locked w s)) = curr_tick s"
  "announcing_cpu (snd (z_unpend_first_thread_locked w s)) = announcing_cpu s"
  "announce_remaining (snd (z_unpend_first_thread_locked w s)) = announce_remaining s"
  "clk_elapsed (snd (z_unpend_first_thread_locked w s)) = clk_elapsed s"
  "runq (snd (z_unpend_first_thread_locked w s)) = runq s"
  "cache (snd (z_unpend_first_thread_locked w s)) = cache s"
  "tfn (snd (z_unpend_first_thread_locked w s)) = tfn s"
  by (simp_all add: z_unpend_first_thread_locked_def split: option.split)

lemma sched_wake_sel [simp]:
  "idle_thread (snd (z_sched_wake w r d s)) = idle_thread s"
  "dummy_thread (snd (z_sched_wake w r d s)) = dummy_thread s"
  "in_isr (snd (z_sched_wake w r d s)) = in_isr s"
  "irq_unlocked (snd (z_sched_wake w r d s)) = irq_unlocked s"
  "objs (snd (z_sched_wake w r d s)) = objs s" "current (snd (z_sched_wake w r d s)) = current s"
  "curr_tick (snd (z_sched_wake w r d s)) = curr_tick s"
  "announcing_cpu (snd (z_sched_wake w r d s)) = announcing_cpu s"
  "announce_remaining (snd (z_sched_wake w r d s)) = announce_remaining s"
  "clk_elapsed (snd (z_sched_wake w r d s)) = clk_elapsed s"
  "tfn (snd (z_sched_wake w r d s)) = tfn s"
  using unpend_first_sel [of w s]
  by (cases "z_unpend_first_thread_locked w s",
    simp add: z_sched_wake_def z_thread_return_value_set_with_data_def split: option.split)+

section \<open>The cached choice\<close>

definition cache_ok :: "'o kstate \<Rightarrow> bool" where
  "cache_ok s \<longleftrightarrow> cache s = next_up s \<or>
     (cache s = current s \<and> RDY s (current s) \<and> \<not> thread_is_preemptible (threads s (current s)))"

lemma next_up_simps [simp]:
  "next_up (upd_thread t f s) = next_up s" "next_up (update_cache p s) = next_up s"
  "next_up (s\<lparr>cache := c\<rparr>) = next_up s" "next_up (s\<lparr>current := c\<rparr>) = next_up s"
  "next_up (s\<lparr>waitq := wq\<rparr>) = next_up s" "next_up (wait_add w t s) = next_up s"
  "next_up (wait_remove w t s) = next_up s" "next_up (s\<lparr>objs := obj\<rparr>) = next_up s"
  "next_up (s\<lparr>in_isr := b\<rparr>) = next_up s" "next_up (s\<lparr>fatal := b\<rparr>) = next_up s"
  "next_up (s\<lparr>inflight_timeout := i\<rparr>) = next_up s"
  "next_up (snd (z_add_thread_timeout t n s)) = next_up s"
  "next_up (snd (z_try_abort_thread_timeout t s)) = next_up s"
  "next_up (unpend_thread_no_timeout t s) = next_up s"
  by (simp_all add: next_up_def runq_best_def split: option.split)

lemma next_up_eq: "next_up s = (case runq s of [] \<Rightarrow> idle_thread s | t # _ \<Rightarrow> t)"
  by (simp add: next_up_def runq_best_def z_priq_simple_best_def split: list.split)

lemma next_up_mem:
  assumes "sinv X s"
  shows "next_up s \<in> set (runq s) \<or> next_up s = idle_thread s" "RDY s (next_up s)"
  using sinvD(2) [OF assms, of "next_up s"] sinvD(3) [OF assms]
  by (auto simp: next_up_eq split: list.splits)

text \<open>The head of the run queue has the highest priority of all ready threads but the idle one.\<close>

lemma next_up_best:
  assumes "sinv {} s" and "RDY s t" "t \<noteq> idle_thread s"
  shows "next_up s \<noteq> idle_thread s" "prio (threads s (next_up s)) \<le> prio (threads s t)"
proof -
  have t: "t \<in> set (runq s)" using sinvD(5) [OF assms(1,2)] assms(3) by simp
  then show "prio (threads s (next_up s)) \<le> prio (threads s t)"
    using sinvD(7) [OF assms(1)] by (auto simp: next_up_eq prio_sorted_def split: list.split)
  show "next_up s \<noteq> idle_thread s"
    using t sinvD(4) [OF assms(1)] by (auto simp: next_up_eq split: list.split)
qed

lemma cache_ok_update [simp]: "cache_ok (update_cache p s)"
  by (auto simp: cache_ok_def update_cache_def Let_def should_preempt_def z_is_thread_ready_def
      next_up_def runq_best_def split: option.split)

lemma cache_update_True [simp]: "cache (update_cache True s) = next_up s"
  by (simp add: update_cache_def Let_def should_preempt_def)

lemma cache_ok_upd:
  assumes "cache_ok s"
    and "t = current s \<Longrightarrow> RDY s t \<Longrightarrow> z_is_thread_ready (f (threads s t)) \<and>
      (thread_is_preemptible (f (threads s t)) \<longrightarrow> thread_is_preemptible (threads s t))"
  shows "cache_ok (upd_thread t f s)"
  using assms by (auto simp: cache_ok_def)

lemma preemptible_cong:
  "prio th = prio th' \<Longrightarrow> sched_locked th = sched_locked th' \<Longrightarrow>
   thread_is_preemptible th = thread_is_preemptible th'"
  by (simp add: thread_is_preemptible_def preempt_def)

section \<open>Making threads ready and blocking them\<close>

lemma sinv_drop:
  assumes "sinv (insert t X) s" and "RDY s t \<Longrightarrow> t \<in> set (runq s) \<or> t = idle_thread s"
    and "armed s t \<Longrightarrow> waits (threads s t)"
    and "z_is_thread_dead (threads s t) \<Longrightarrow> t \<in> X \<or>
      (pended_on (threads s t) = None \<and> \<not> armed s t \<and> waitq s (WqJoin t) = [])"
  shows "sinv X s"
  using assms unfolding inv_defs by auto

lemma sinv_ready:
  assumes s: "sinv (insert t X) s" and t: "t \<noteq> idle_thread s" "armed s t \<Longrightarrow> waits (threads s t)"
    and d: "z_is_thread_dead (threads s t) \<Longrightarrow> t \<in> X \<or>
      (pended_on (threads s t) = None \<and> \<not> armed s t \<and> waitq s (WqJoin t) = [])"
  shows "sinv X (ready_thread t s)"
proof (cases "RDY s t \<and> t \<notin> set (runq s)")
  case True
  with t have "\<not> armed s t" by (auto simp: thread_ready_tests)
  with sinv_queue [OF s] t True show ?thesis by (simp add: ready_thread_def sinv_simps(5) [OF s])
next
  case False
  then have "ready_thread t s = s" by (auto simp: ready_thread_def sinv_simps(5) [OF s])
  with sinv_drop [OF s] False t d show ?thesis by auto
qed

lemma cache_ok_ready [simp]: "cache_ok s \<Longrightarrow> cache_ok (ready_thread t s)"
  by (simp add: ready_thread_def)

lemma ready_threads:
  "threads (ready_thread t s) u = (if u = t \<and> RDY s t then z_mark_thread_as_queued (threads s t) else threads s u)"
  by (auto simp: ready_thread_def queue_thread_eq mark_queued_id)

lemma sinv_unready:
  assumes s: "sinv X s"
  shows "sinv (insert t X) (unready_thread t s)" "t \<notin> set (runq (unready_thread t s))"
    "cache_ok (unready_thread t s)" "t = current s \<Longrightarrow> cache (unready_thread t s) = next_up (unready_thread t s)"
    "threads (unready_thread t s) = (threads s)(t := z_mark_thread_as_not_queued (threads s t))"
    "runq (unready_thread t s) = remove1 t (runq s)"
proof -
  show "sinv (insert t X) (unready_thread t s)"
    using sinv_dequeue [OF s] sinv_mono [OF s subset_insertI]
    by (simp add: unready_thread_def Let_def sinv_simps(5) [OF s])
  show "t \<notin> set (runq (unready_thread t s))" "runq (unready_thread t s) = remove1 t (runq s)"
    using sinvD(6) [OF s] by (simp_all add: unready_thread_def Let_def sinv_simps(5) [OF s]
        dequeue_thread_eq remove1_idem)
  show "cache_ok (unready_thread t s)" by (simp add: unready_thread_def Let_def)
  show "t = current s \<Longrightarrow> cache (unready_thread t s) = next_up (unready_thread t s)"
    by (simp add: unready_thread_def Let_def dequeue_thread_eq)
  show "threads (unready_thread t s) = (threads s)(t := z_mark_thread_as_not_queued (threads s t))"
    by (auto simp: unready_thread_def Let_def dequeue_thread_eq mark_not_queued_id)
qed

section \<open>Pending the current thread\<close>

lemma timeout_fits_same:
  assumes "curr_tick s' = curr_tick s" "announcing_cpu s' = announcing_cpu s"
    "clk_elapsed s' = clk_elapsed (s :: 'o kstate)"
  shows "timeout_fits n s' = timeout_fits n s"
  using assms by (simp add: timeout_fits_def elapsed_def this_cpu_announcing_def)

abbreviation blocked_on :: "wqid option \<Rightarrow> k_thread \<Rightarrow> k_thread" where
  "blocked_on w th \<equiv>
     (z_mark_thread_as_pending (z_mark_thread_as_not_queued th))\<lparr>pended_on := w\<rparr>"

lemma add_to_waitq_rule:
  assumes s: "sinv X s" and t: "RDY s t" "t \<noteq> idle_thread s" "t \<notin> X" "pended_on (threads s t) = None"
    and w: "\<And>u. w = Some (WqJoin u) \<Longrightarrow> \<not> z_is_thread_dead (threads s u)"
  defines "s' \<equiv> add_to_waitq_locked t w s"
  shows "sinv X s'" "cache_ok s'" "t = current s \<Longrightarrow> cache s' = next_up s'"
    "threads s' = (threads s)(t := blocked_on w (threads s t))" "runq s' = remove1 t (runq s)"
    "waitq s' = (case w of None \<Rightarrow> waitq s
       | Some q \<Rightarrow> (waitq s)(q := prio_insert (threads s) t (waitq s q)))"
proof -
  note u = sinv_unready [OF s, of t]
  let ?m = "upd_thread t z_mark_thread_as_pending (unready_thread t s)"
  have td: "\<not> z_is_thread_dead (threads s t)" "t \<noteq> dummy_thread s"
    using t(1) sinvD(19) [OF s] by (auto simp: thread_ready_tests)
  have m: "sinv X ?m"
    by (rule sinv_mark [OF u(1,2)]) (use t td in \<open>auto simp: u(5)\<close>)
  have c: "cache_ok ?m" "t = current s \<Longrightarrow> cache ?m = next_up ?m"
    using u(3,4) by (auto intro!: cache_ok_upd simp: cache_ok_def)
  have b: "s' = (case w of None \<Rightarrow> ?m | Some q \<Rightarrow>
      wait_add q t (upd_thread t (\<lambda>th. th\<lparr>pended_on := Some q\<rparr>) ?m))"
    by (simp add: s'_def add_to_waitq_locked_def Let_def split: option.split)
  have q: "sinv X (wait_add q t (upd_thread t (\<lambda>th. th\<lparr>pended_on := Some q\<rparr>) ?m))" if "w = Some q" for q
    by (rule sinv_wait_add [OF m]) (use t td w that in \<open>auto simp: u(5)\<close>)
  show "sinv X s'" using m q by (cases w) (simp_all add: b)
  show "cache_ok s'" "t = current s \<Longrightarrow> cache s' = next_up s'"
    using c by (cases w; auto simp: b cache_ok_def)+
  show "threads s' = (threads s)(t := blocked_on w (threads s t))"
    using t(4) by (cases w) (auto simp: b u(5))
  show "runq s' = remove1 t (runq s)" by (cases w) (simp_all add: b u(6))
  show "waitq s' = (case w of None \<Rightarrow> waitq s
       | Some q \<Rightarrow> (waitq s)(q := prio_insert (threads s) t (waitq s q)))"
    by (cases w) (simp_all add: b wait_add_def simple_add_insert u(5))
qed

lemma pend_locked_rule:
  assumes s: "sinv X s" and t: "RDY s t" "t \<noteq> idle_thread s" "t \<notin> X" "pended_on (threads s t) = None"
    and w: "\<And>u. w = Some (WqJoin u) \<Longrightarrow> \<not> z_is_thread_dead (threads s u)" and n: "timeout_fits n s"
  defines "s' \<equiv> pend_locked t w n s"
  shows "sinv X s'" "cache_ok s'" "t = current s \<Longrightarrow> cache s' = next_up s'"
    "threads s' = (threads s)(t := blocked_on w (threads s t))" "runq s' = remove1 t (runq s)"
    "waitq s' = (case w of None \<Rightarrow> waitq s
       | Some q \<Rightarrow> (waitq s)(q := prio_insert (threads s) t (waitq s q)))"
    "armed s' u \<longleftrightarrow> armed s u \<or> (u = t \<and> n \<noteq> K_FOREVER)"
proof -
  note a = add_to_waitq_rule [OF s t w]
  let ?a = "add_to_waitq_locked t w s"
  have td: "\<not> z_is_thread_dead (threads s t)" "t \<noteq> dummy_thread s" "\<not> armed s t"
    using t(1,3) sinvD(14,19) [OF s] by (auto simp: thread_ready_tests)
  have n': "timeout_fits n ?a" using n by (subst timeout_fits_same) simp_all
  have arm: "armed ?a = armed s" by (simp add: armed_def fun_eq_iff)
  show "sinv X s'" unfolding s'_def pend_locked_def
    by (rule sinv_add_timeout [OF a(1) n']) (use td t in \<open>auto simp: a(4) arm\<close>)
  show "cache_ok s'" "t = current s \<Longrightarrow> cache s' = next_up s'"
    using a(2,3) by (simp_all add: s'_def pend_locked_def cache_ok_def)
  show "threads s' = (threads s)(t := blocked_on w (threads s t))" "runq s' = remove1 t (runq s)"
    "waitq s' = (case w of None \<Rightarrow> waitq s
       | Some q \<Rightarrow> (waitq s)(q := prio_insert (threads s) t (waitq s q)))"
    using a(4-6) by (simp_all add: s'_def pend_locked_def)
  show "armed s' u \<longleftrightarrow> armed s u \<or> (u = t \<and> n \<noteq> K_FOREVER)"
    unfolding s'_def pend_locked_def using armed_add [OF n', of t u] sinvD(13) [OF s] by (simp add: arm)
qed

section \<open>Context switches\<close>

text \<open>
  The scheduler's invariant between two operations: the queues are consistent, the cached
  choice is sound, and outside interrupts the running thread is ready.
\<close>

definition sched_ok :: "'o kstate \<Rightarrow> bool" where
  "sched_ok s \<longleftrightarrow> sinv {} s \<and> cache_ok s \<and> (\<not> in_isr s \<longrightarrow> RDY s (current s))"

text \<open>A preemptible thread in thread context runs only while it is the scheduler's choice.\<close>

definition resched_ok :: "'o kstate \<Rightarrow> bool" where
  "resched_ok s \<longleftrightarrow> (\<not> in_isr s \<and> irq_unlocked s \<and> thread_is_preemptible (threads s (current s)) \<longrightarrow>
     cache s = current s)"

lemma sinv_swap_retval [simp]: "sinv X (upd_thread t (\<lambda>th. th\<lparr>swap_retval := v\<rparr>) s) = sinv X s"
  by (rule sinv_thread_field) simp_all

lemma RDY_swap_retval [simp]: "z_is_thread_ready (th\<lparr>swap_retval := v\<rparr>) = z_is_thread_ready th"
  by (rule thread_state_tests_cong) simp

lemma preemptible_swap_retval [simp]:
  "thread_is_preemptible (th\<lparr>swap_retval := v\<rparr>) = thread_is_preemptible th"
  by (rule preemptible_cong) simp_all

abbreviation switch_to_cache :: "'o kstate \<Rightarrow> 'o kstate" where
  "switch_to_cache s \<equiv> (upd_thread (current s) (\<lambda>th. th\<lparr>swap_retval := - EAGAIN\<rparr>) s)\<lparr>current := cache s\<rparr>"

lemma do_swap_state: "snd (do_swap s) = switch_to_cache s"
  by (simp add: do_swap_def Let_def)

lemma do_swap_ok:
  assumes "sinv {} s" "cache_ok s"
  shows "sched_ok (snd (do_swap s))" "resched_ok (snd (do_swap s))"
    "cache (snd (do_swap s)) = current (snd (do_swap s))" "current (snd (do_swap s)) = cache s"
proof -
  have "RDY s (cache s)" using assms next_up_mem(2) [OF assms(1)] by (auto simp: cache_ok_def)
  then show "sched_ok (snd (do_swap s))"
    using assms unfolding do_swap_state sched_ok_def by (auto simp: cache_ok_def)
  show "resched_ok (snd (do_swap s))" "cache (snd (do_swap s)) = current (snd (do_swap s))"
    "current (snd (do_swap s)) = cache s"
    unfolding do_swap_state by (simp_all add: resched_ok_def)
qed

lemma do_swap_blocked:
  assumes "sinv {} s" "cache s = next_up s" "\<not> RDY s (current s)"
  shows "do_swap s = (Swapped, switch_to_cache s)"
proof -
  have "cache s \<noteq> current s" using assms(2,3) next_up_mem(2) [OF assms(1)] by auto
  then show ?thesis by (simp add: do_swap_def Let_def)
qed

lemma reschedule_ok:
  assumes "sinv {} s" "cache_ok s" "\<not> in_isr s \<Longrightarrow> RDY s (current s)"
  shows "sched_ok (reschedule s)" "resched_ok (reschedule s)"
proof -
  note d = do_swap_ok [OF assms(1,2)]
  show "sched_ok (reschedule s)" using assms d by (simp add: reschedule_def sched_ok_def)
  show "resched_ok (reschedule s)"
    using d by (auto simp: reschedule_def resched_def need_swap_def resched_ok_def)
qed

section \<open>Waking threads\<close>

text \<open>One turn of every wake-up loop, with \<open>g\<close> the values handed to the woken thread.\<close>

abbreviation woken :: "(k_thread \<Rightarrow> k_thread) \<Rightarrow> k_thread \<Rightarrow> k_thread" where
  "woken g th \<equiv> g ((z_mark_thread_as_not_pending th)\<lparr>pended_on := None\<rparr>)"

definition keeps_state :: "(k_thread \<Rightarrow> k_thread) \<Rightarrow> bool" where
  "keeps_state g \<longleftrightarrow> (\<forall>th. prio (g th) = prio th \<and> pended_on (g th) = pended_on th \<and>
     thread_state (g th) = thread_state th \<and> sched_locked (g th) = sched_locked th)"

lemma keeps_stateD:
  assumes "keeps_state g"
  shows "prio (g th) = prio th" "pended_on (g th) = pended_on th" "thread_state (g th) = thread_state th"
    "z_is_thread_ready (g th) = z_is_thread_ready th" "z_is_thread_dead (g th) = z_is_thread_dead th"
    "z_is_thread_pending (g th) = z_is_thread_pending th" "z_is_thread_queued (g th) = z_is_thread_queued th"
    "z_is_thread_suspended (g th) = z_is_thread_suspended th"
    "z_is_thread_sleeping (g th) = z_is_thread_sleeping th"
    "is_thread_dummy (g th) = is_thread_dummy th"
    "thread_is_preemptible (g th) = thread_is_preemptible th"
proof -
  have e: "thread_state (g th) = thread_state th" "prio (g th) = prio th" "sched_locked (g th) = sched_locked th"
    using assms by (simp_all add: keeps_state_def)
  then show "thread_is_preemptible (g th) = thread_is_preemptible th" by (intro preemptible_cong)
  show "prio (g th) = prio th" "pended_on (g th) = pended_on th" "thread_state (g th) = thread_state th"
    using assms by (simp_all add: keeps_state_def)
qed (use assms in \<open>simp_all add: keeps_state_def thread_state_tests_cong [of "g th" th]\<close>)

lemma sinv_keeps: "keeps_state g \<Longrightarrow> sinv X (upd_thread t g s) = sinv X s"
  by (rule sinv_thread_field) (simp_all add: keeps_state_def)

lemma cache_ok_keeps: "keeps_state g \<Longrightarrow> cache_ok (upd_thread t g s) = cache_ok s"
  by (auto simp: cache_ok_def keeps_stateD)

lemma keeps_retval [simp]:
  "keeps_state (\<lambda>th. th\<lparr>swap_retval := r, swap_data := d\<rparr>)" "keeps_state (\<lambda>th. th\<lparr>swap_retval := r\<rparr>)"
  "keeps_state (\<lambda>th. th)"
  by (simp_all add: keeps_state_def)

lemma abort_upd_commute:
  "snd (z_try_abort_thread_timeout t (upd_thread u g s)) = upd_thread u g (snd (z_try_abort_thread_timeout t s))"
proof -
  have r: "reprogram_next Q n (upd_thread u g s) = upd_thread u g (reprogram_next Q n s)" for Q n and s :: "'a kstate"
    by (simp add: reprogram_next_def sys_clock_set_timeout_def sys_clock_no_timeout_def next_timeout_def upd_thread_def)
  have q: "(upd_thread u g s)\<lparr>tq := q\<rparr> = upd_thread u g (s\<lparr>tq := q\<rparr>)" for q and s :: "'a kstate"
    by (simp add: upd_thread_def)
  have i: "inflight_mark_superseded (upd_thread u g s) = upd_thread u g (inflight_mark_superseded s)" for s :: "'a kstate"
    by (simp add: upd_thread_def inflight_mark_superseded_def)
  have p: "inflight_ptr (upd_thread u g s) = inflight_ptr s" for s :: "'a kstate"
    by (simp add: inflight_ptr_def)
  show ?thesis
    by (simp add: z_try_abort_thread_timeout_def z_try_abort_timeout_def Let_def case_prod_unfold q r i p)
qed

definition wake_turn :: "(k_thread \<Rightarrow> k_thread) \<Rightarrow> tid \<Rightarrow> 'o kstate \<Rightarrow> 'o kstate" where
  "wake_turn g t s = ready_thread t (upd_thread t g
     (snd (z_try_abort_thread_timeout t (unpend_thread_no_timeout t s))))"

lemma wake_turn_rule:
  assumes s: "sinv X s" and p: "pended_on (threads s t) = Some w" and X: "t \<notin> X" and g: "keeps_state g"
  defines "s' \<equiv> wake_turn g t s" and "th \<equiv> woken g (threads s t)"
  shows "sinv X s'" "cache_ok s \<Longrightarrow> cache_ok s'" "waitq s' = (waitq s)(w := remove1 t (waitq s w))"
    "threads s' = (threads s)(t := if z_is_thread_ready th then z_mark_thread_as_queued th else th)"
    "armed s' u \<longleftrightarrow> armed s u \<and> u \<noteq> t"
    "set (runq s') = (if z_is_thread_ready th then insert t (set (runq s)) else set (runq s))"
proof -
  let ?u = "unpend_thread_no_timeout t s"
  let ?a = "snd (z_try_abort_thread_timeout t ?u)"
  let ?g = "upd_thread t g ?a"
  note u = sinv_unpend [OF s p]
  note a = sinv_abort_timeout [OF u, of t]
  have tu: "threads ?u t = (z_mark_thread_as_not_pending (threads s t))\<lparr>pended_on := None\<rparr>"
    by (simp add: unpend_eq [OF p])
  have live: "\<not> z_is_thread_dead (threads s t)" "t \<noteq> idle_thread s"
    using sinvD(15) [OF s, of t] sinvD(3) [OF s] sinvD(11) [OF s, of t] p X by (auto simp: thread_ready_tests)
  show "sinv X s'"
    unfolding s'_def wake_turn_def
  proof (rule sinv_ready)
    show "sinv (insert t X) ?g" using a(1) g by (simp add: sinv_keeps)
    show "z_is_thread_dead (threads ?g t) \<Longrightarrow> t \<in> X \<or>
        (pended_on (threads ?g t) = None \<and> \<not> armed ?g t \<and> waitq ?g (WqJoin t) = [])"
      using live g by (simp add: tu keeps_stateD)
  qed (use live a(2) in simp_all)
  show "cache_ok s'" if c: "cache_ok s"
  proof -
    have "t \<noteq> current s \<or> cache s = next_up s" using c sinvD(11) [OF s, of t] p
      by (auto simp: cache_ok_def thread_ready_tests)
    with c have "cache_ok ?a" by (auto simp: cache_ok_def unpend_eq [OF p])
    then show ?thesis using g by (simp add: s'_def wake_turn_def cache_ok_keeps)
  qed
  show "waitq s' = (waitq s)(w := remove1 t (waitq s w))"
    by (simp add: s'_def wake_turn_def unpend_eq [OF p])
  show "threads s' = (threads s)(t := if z_is_thread_ready th then z_mark_thread_as_queued th else th)"
    by (simp add: s'_def wake_turn_def fun_eq_iff ready_threads th_def unpend_eq [OF p])
  have "dl_inv (curr_tick ?u) (tq ?u)" using sinvD(12) [OF u] .
  from armed_abort(1) [OF this, of t u] show "armed s' u \<longleftrightarrow> armed s u \<and> u \<noteq> t"
    by (simp add: s'_def wake_turn_def armed_def)
  have "t \<notin> set (runq s)" using sinvD(2) [OF s, of t] sinvD(11) [OF s, of t] p by (auto simp: thread_ready_tests)
  then have "z_is_thread_queued (threads ?g t) = False"
    using g sinv_simps(5) [OF s, of t] by (simp add: tu keeps_stateD)
  then show "set (runq s') = (if z_is_thread_ready th then insert t (set (runq s)) else set (runq s))"
    by (simp add: s'_def wake_turn_def ready_thread_def queue_thread_eq tu th_def)
qed

lemma waitq_head_pended:
  assumes "sinv X s" and "waitq s w = t # ts"
  shows "z_waitq_head w s = Some t" "pended_on (threads s t) = Some w"
  using assms sinv_simps(6) [OF assms(1), of t w] by (simp_all add: z_waitq_head_def z_priq_simple_best_def)

lemma sched_wake_empty: "waitq s w = [] \<Longrightarrow> z_sched_wake w r d s = (False, s)"
  by (simp add: z_sched_wake_def z_unpend_first_thread_locked_def z_waitq_head_def z_priq_simple_best_def)

lemma sched_wake_turn:
  assumes "sinv X s" and "waitq s w = t # ts"
  shows "z_sched_wake w r d s = (True, wake_turn (\<lambda>th. th\<lparr>swap_retval := r, swap_data := d\<rparr>) t s)"
  by (simp add: z_sched_wake_def z_unpend_first_thread_locked_def waitq_head_pended [OF assms]
      wake_turn_def z_thread_return_value_set_with_data_def)

section \<open>Waking all threads of a queue\<close>

lemma wake_turn_sel [simp]:
  "idle_thread (wake_turn g t s) = idle_thread s"
  "dummy_thread (wake_turn g t s) = dummy_thread s" "in_isr (wake_turn g t s) = in_isr s"
  "irq_unlocked (wake_turn g t s) = irq_unlocked s" "objs (wake_turn g t s) = objs s"
  "current (wake_turn g t s) = current s" "curr_tick (wake_turn g t s) = curr_tick s"
  "announcing_cpu (wake_turn g t s) = announcing_cpu s"
  "announce_remaining (wake_turn g t s) = announce_remaining s"
  "clk_elapsed (wake_turn g t s) = clk_elapsed s" "tfn (wake_turn g t s) = tfn s"
  by (simp_all add: wake_turn_def)

lemma wake_fold_sel [simp]:
  "idle_thread (fold (wake_turn g) ts s) = idle_thread s"
  "dummy_thread (fold (wake_turn g) ts s) = dummy_thread s"
  "in_isr (fold (wake_turn g) ts s) = in_isr s"
  "irq_unlocked (fold (wake_turn g) ts s) = irq_unlocked s"
  "objs (fold (wake_turn g) ts s) = objs s" "current (fold (wake_turn g) ts s) = current s"
  "curr_tick (fold (wake_turn g) ts s) = curr_tick s"
  "announcing_cpu (fold (wake_turn g) ts s) = announcing_cpu s"
  "announce_remaining (fold (wake_turn g) ts s) = announce_remaining s"
  "clk_elapsed (fold (wake_turn g) ts s) = clk_elapsed s" "tfn (fold (wake_turn g) ts s) = tfn s"
  by (induction ts arbitrary: s) simp_all

definition waked :: "(k_thread \<Rightarrow> k_thread) \<Rightarrow> k_thread \<Rightarrow> k_thread" where
  "waked g th = (if z_is_thread_ready (woken g th) then z_mark_thread_as_queued (woken g th) else woken g th)"

lemma wake_fold_rule:
  assumes "sinv X s" and "waitq s w = ts" and "set ts \<inter> X = {}" and g: "keeps_state g"
  defines "s' \<equiv> fold (wake_turn g) ts s"
  shows "sinv X s' \<and> (cache_ok s \<longrightarrow> cache_ok s') \<and> waitq s' = (waitq s)(w := []) \<and>
    (\<forall>u. threads s' u = (if u \<in> set ts then waked g (threads s u) else threads s u)) \<and>
    (\<forall>u. armed s' u \<longleftrightarrow> armed s u \<and> u \<notin> set ts)"
  using assms(1-3) unfolding s'_def
proof (induction ts arbitrary: s)
  case Nil
  then show ?case by auto
next
  case (Cons t ts)
  have p: "pended_on (threads s t) = Some w" by (rule waitq_head_pended(2) [OF Cons.prems(1,2)])
  have tX: "t \<notin> X" "t \<notin> set ts" using Cons.prems(3) sinvD(8) [OF Cons.prems(1), of w] Cons.prems(2) by auto
  note r = wake_turn_rule [OF Cons.prems(1) p tX(1) g]
  have w': "waitq (wake_turn g t s) w = ts" using r(3) Cons.prems(2) by simp
  have "set ts \<inter> X = {}" using Cons.prems(3) by auto
  note IH = Cons.IH [OF r(1) w' this]
  have th: "threads (wake_turn g t s) = (threads s)(t := waked g (threads s t))" using r(4) by (simp add: waked_def)
  show ?case unfolding fold.simps o_apply
  proof (intro conjI allI impI)
    show "cache_ok (fold (wake_turn g) ts (wake_turn g t s))" if "cache_ok s" using IH r(2) that by blast
    show "waitq (fold (wake_turn g) ts (wake_turn g t s)) = (waitq s)(w := [])"
      using IH r(3) by (auto simp: fun_eq_iff)
    show "threads (fold (wake_turn g) ts (wake_turn g t s)) u =
        (if u \<in> set (t # ts) then waked g (threads s u) else threads s u)" for u
      using IH tX(2) th by auto
    show "armed (fold (wake_turn g) ts (wake_turn g t s)) u \<longleftrightarrow> armed s u \<and> u \<notin> set (t # ts)" for u
      using IH r(5) by auto
  qed (use IH in blast)
qed

text \<open>Both loops end because the wait queue is empty, having woken the threads in queue order.\<close>

lemma wake_all_loop_eq:
  assumes "sinv X s" and "waitq s w = ts" and "set ts \<inter> X = {}" and "length ts < n"
  shows "wake_all_loop n w r d b s =
    (b \<or> ts \<noteq> [], fold (wake_turn (\<lambda>th. th\<lparr>swap_retval := r, swap_data := d\<rparr>)) ts s)"
  using assms
proof (induction ts arbitrary: s n b)
  case Nil
  then show ?case by (cases n) (simp_all add: sched_wake_empty)
next
  case (Cons t ts)
  then obtain m where n: "n = Suc m" by (cases n) auto
  have p: "pended_on (threads s t) = Some w" by (rule waitq_head_pended(2) [OF Cons.prems(1,2)])
  note r = wake_turn_rule [OF Cons.prems(1) p _ keeps_retval(1) [where r = r and d = d]]
  show ?case using Cons.IH [OF r(1), of m True] r(3) Cons.prems
    by (auto simp: n sched_wake_turn [OF Cons.prems(1,2)])
qed

lemma unpend_all_loop_eq:
  assumes "sinv X s" and "waitq s w = ts" and "set ts \<inter> X = {}" and "length ts < n" and "keeps_state g"
  shows "unpend_all_loop n (\<lambda>t. upd_thread t g) w k s = (if ts = [] then k else 1, fold (wake_turn g) ts s)"
  using assms(1-4)
proof (induction ts arbitrary: s n k)
  case Nil
  then show ?case by (cases n) (simp_all add: z_waitq_head_def z_priq_simple_best_def)
next
  case (Cons t ts)
  then obtain m where n: "n = Suc m" by (cases n) auto
  have p: "pended_on (threads s t) = Some w" by (rule waitq_head_pended(2) [OF Cons.prems(1,2)])
  note r = wake_turn_rule [OF Cons.prems(1) p _ assms(5)]
  show ?case using Cons.IH [OF r(1)] r(3) Cons.prems
    by (auto simp: n waitq_head_pended(1) [OF Cons.prems(1,2)] abort_upd_commute wake_turn_def)
qed

lemma sched_wake_all_eq:
  assumes "sinv X s" and "set (waitq s w) \<inter> X = {}"
  shows "z_sched_wake_all w r d s =
    (waitq s w \<noteq> [], fold (wake_turn (\<lambda>th. th\<lparr>swap_retval := r, swap_data := d\<rparr>)) (waitq s w) s)"
  unfolding z_sched_wake_all_def by (subst wake_all_loop_eq [OF assms(1) refl assms(2)]) simp_all

lemma upd_thread_id: "upd_thread t (\<lambda>th. th) s = s"
  by (simp add: upd_thread_def)

lemma unpend_all_eq:
  assumes "sinv X s" and "set (waitq s w) \<inter> X = {}"
  shows "unpend_all w s = fold (wake_turn (\<lambda>th. th\<lparr>swap_retval := 0\<rparr>)) (waitq s w) s"
    "z_unpend_all w s = (if waitq s w = [] then 0 else 1, fold (wake_turn (\<lambda>th. th)) (waitq s w) s)"
proof -
  show "unpend_all w s = fold (wake_turn (\<lambda>th. th\<lparr>swap_retval := 0\<rparr>)) (waitq s w) s"
    unfolding unpend_all_def by (subst unpend_all_loop_eq [OF assms(1) refl assms(2)]) simp_all
  have "(\<lambda>_ s. s) = (\<lambda>t. upd_thread t (\<lambda>th. th) :: 'a kstate \<Rightarrow> 'a kstate)"
    by (simp add: upd_thread_id fun_eq_iff)
  then show "z_unpend_all w s = (if waitq s w = [] then 0 else 1, fold (wake_turn (\<lambda>th. th)) (waitq s w) s)"
    unfolding z_unpend_all_def by (simp only: unpend_all_loop_eq [OF assms(1) refl assms(2) lessI] keeps_retval(3))
qed

section \<open>Priorities and yielding\<close>

lemma sinv_runq:
  assumes "sinv X s" and "distinct r" "prio_sorted (threads s) r" "set r = set (runq s)"
  shows "sinv X (s\<lparr>runq := r\<rparr>)"
  using assms unfolding inv_defs by simp blast

lemma ready_not_pended: "sinv X s \<Longrightarrow> RDY s t \<Longrightarrow> pended_on (threads s t) = None"
  using sinvD(11) [of X s t] by (cases "pended_on (threads s t)") (auto simp: thread_ready_tests)

lemma sinv_yield:
  assumes s: "sinv X s" and c: "current s \<in> set (runq s)"
  shows "sinv X (runq_yield s)" "runq (runq_yield s) = prio_insert (threads s) (current s) (remove1 (current s) (runq s))"
proof -
  show r: "runq (runq_yield s) = prio_insert (threads s) (current s) (remove1 (current s) (runq s))"
    using simple_yield_insert [OF sinv_simps(1,2) [OF s] c] by (simp add: runq_yield_def)
  have "runq_yield s = s\<lparr>runq := runq (runq_yield s)\<rparr>" by (simp add: runq_yield_def)
  moreover have "sinv X (s\<lparr>runq := runq (runq_yield s)\<rparr>)"
    unfolding r by (rule sinv_runq [OF s]) (use sinv_simps(1,2) [OF s] c in auto)
  ultimately show "sinv X (runq_yield s)" by simp
qed

lemma sinv_prio:
  assumes s: "sinv X s" and t: "t \<notin> set (runq s)" "pended_on (threads s t) = None"
  shows "sinv X (upd_thread t (\<lambda>th. th\<lparr>prio := p\<rparr>) s)"
proof -
  have w: "t \<notin> set (waitq s w)" for w using t(2) by (simp add: sinv_simps(6) [OF s])
  have d: "is_thread_dummy (th\<lparr>prio := p\<rparr>) = is_thread_dummy th" for th by (rule thread_state_tests_cong) simp
  show ?thesis
    by (rule sinv_upd [OF s, where t = t and x = "(threads s t)\<lparr>prio := p\<rparr>"])
      (use t w sinvD(3,4,5,15,16,21) [OF s] in
        \<open>auto simp: sorted_other sinv_simps(1-5) [OF s] d t(1) [unfolded sinv_simps(5) [OF s, symmetric]]\<close>)
qed

lemma sinv_prio_pending:
  assumes s: "sinv X s" and w: "pended_on (threads s t) = Some w"
  shows "sinv X (wait_add w t (upd_thread t (\<lambda>th. th\<lparr>prio := p\<rparr>) (wait_remove w t s)))"
proof -
  have p: "z_is_thread_pending (threads s t)" using sinvD(11) [OF s] w by simp
  have nr: "t \<notin> set (runq s)" "t \<noteq> idle_thread s" "\<not> RDY s t"
    using p sinvD(2) [OF s, of t] sinvD(3) [OF s] by (auto simp: thread_ready_tests)
  have o: "t \<notin> set (waitq s v)" if "v \<noteq> w" for v using w that by (simp add: sinv_simps(6) [OF s])
  have i: "waitq s w \<noteq> []" using w sinv_simps(6) [OF s, of t w] by auto
  have m: "t \<notin> set (remove1 t (waitq s w))" using sinv_simps(3) [OF s, of w] by simp
  show ?thesis unfolding wait_add_def wait_remove_def simple_add_insert z_priq_simple_remove_def
    by (rule sinv_upd [OF s, where t = t and x = "(threads s t)\<lparr>prio := p\<rparr>"])
      (use nr p w o m i sinvD(20) [OF s w] sinvD(15) [OF s, of t] in
        \<open>auto simp: sorted_other sinv_simps(1-6) [OF s] split: if_splits\<close>)
qed

lemma prio_set_eq:
  assumes s: "sinv X s"
  shows "z_thread_prio_set t p s =
    (RDY s t, if RDY s t
       then update_cache True (queue_thread t (upd_thread t (\<lambda>th. th\<lparr>prio := s8 p\<rparr>) (dequeue_thread t s)))
     else case pended_on (threads s t) of
         Some w \<Rightarrow> wait_add w t (upd_thread t (\<lambda>th. th\<lparr>prio := s8 p\<rparr>) (wait_remove w t s))
       | None \<Rightarrow> if z_is_thread_pending (threads s t) then k_panic s
                 else upd_thread t (\<lambda>th. th\<lparr>prio := s8 p\<rparr>) s)"
  using sinvD(11) [OF s, of t] by (auto simp: z_thread_prio_set_def Let_def split: option.split)

lemma prio_set_frame:
  "idle_thread (snd (z_thread_prio_set t p s)) = idle_thread s"
  "in_isr (snd (z_thread_prio_set t p s)) = in_isr s" "current (snd (z_thread_prio_set t p s)) = current s"
  "objs (snd (z_thread_prio_set t p s)) = objs s" "irq_unlocked (snd (z_thread_prio_set t p s)) = irq_unlocked s"
  "tq (snd (z_thread_prio_set t p s)) = tq s" "curr_tick (snd (z_thread_prio_set t p s)) = curr_tick s"
  by (simp_all add: z_thread_prio_set_def Let_def k_panic_def split: option.split)

lemma prio_set_rule:
  fixes p :: int
  assumes s: "sinv {} s" and t: "t \<noteq> idle_thread s"
  defines "s' \<equiv> snd (z_thread_prio_set t p s)"
  shows "sinv {} s'" "cache_ok s \<Longrightarrow> cache_ok s'" "RDY s' u = RDY s u"
    "fst (z_thread_prio_set t p s) = RDY s t" "RDY s t \<Longrightarrow> cache s' = next_up s'"
proof -
  let ?d = "dequeue_thread t s" and ?p = "\<lambda>th. th\<lparr>prio := s8 p\<rparr>"
  show "fst (z_thread_prio_set t p s) = RDY s t" by (simp add: prio_set_eq [OF s])
  show "sinv {} s'"
  proof (cases "RDY s t")
    case True
    then have m: "t \<in> set (runq s)" using sinvD(5) [OF s, of t] t by simp
    have na: "\<not> armed s t" using sinvD(14) [OF s True] by auto
    have po: "pended_on (threads s t) = None" by (rule ready_not_pended [OF s True])
    have nm: "t \<notin> set (runq ?d)" using sinvD(6) [OF s] by (simp add: dequeue_thread_eq)
    have "sinv {t} (upd_thread t ?p ?d)"
      by (rule sinv_prio [OF sinv_dequeue [OF s m] nm]) (simp add: dequeue_thread_eq po)
    then have "sinv {} (queue_thread t (upd_thread t ?p ?d))"
      by (rule sinv_queue) (use True na nm t in \<open>simp_all add: dequeue_thread_eq\<close>)
    with True show ?thesis by (simp add: s'_def prio_set_eq [OF s])
  next
    case False
    then have "t \<notin> set (runq s)" using sinvD(2) [OF s] by blast
    with False sinv_prio [OF s] sinv_prio_pending [OF s] s show ?thesis
      by (auto simp: s'_def prio_set_eq [OF s] k_panic_def split: option.split)
  qed
  show "cache_ok s'" if "cache_ok s"
  proof (cases "RDY s t")
    case False
    with that show ?thesis
      by (auto simp: s'_def prio_set_eq [OF s] k_panic_def cache_ok_def split: option.split)
  qed (simp add: s'_def prio_set_eq [OF s])
  show "RDY s' u = RDY s u"
    by (simp add: s'_def prio_set_eq [OF s] queue_thread_eq dequeue_thread_eq k_panic_def split: option.split)
  show "cache s' = next_up s'" if "RDY s t" using that by (simp add: s'_def prio_set_eq [OF s])
qed

end
