(* ===== verification/Thread_Life.thy ===== *)
theory Thread_Life
  imports Sched_Inv
begin

text \<open>
  Every operation of the thread life cycle keeps the scheduler's invariant: halting and
  aborting, suspending and resuming, sleeping and waking, joining, creating, the timeout
  handler, and the tick announcement that runs it.
\<close>

section \<open>Halting\<close>

abbreviation mark_dead :: "k_thread \<Rightarrow> k_thread" where
  "mark_dead th \<equiv> th\<lparr>thread_state := thread_state th OR THREAD_DEAD\<rparr>"

lemma mark_dead_tests [simp]:
  "z_is_thread_dead (mark_dead th)" "z_is_thread_queued (mark_dead th) = z_is_thread_queued th"
  "z_is_thread_pending (mark_dead th) = z_is_thread_pending th"
  "is_thread_dummy (mark_dead th) = is_thread_dummy th"
  "z_is_thread_sleeping (mark_dead th) = z_is_thread_sleeping th" "\<not> z_is_thread_ready (mark_dead th)"
proof -
  have sel: "thread_state (th\<lparr>thread_state := v\<rparr>) = v" for v by simp
  have b: "bit (thread_state (mark_dead th)) n \<longleftrightarrow> bit (thread_state th) n \<or> n = 3" for n
    unfolding THREAD_DEAD_def sel by (rule bit_or_flag) simp
  show "z_is_thread_dead (mark_dead th)" "z_is_thread_queued (mark_dead th) = z_is_thread_queued th"
    "z_is_thread_pending (mark_dead th) = z_is_thread_pending th"
    "is_thread_dummy (mark_dead th) = is_thread_dummy th"
  "z_is_thread_sleeping (mark_dead th) = z_is_thread_sleeping th" "\<not> z_is_thread_ready (mark_dead th)"
    unfolding thread_tests thread_ready_iff b by simp_all
qed

text \<open>Taking a thread off the run queue for good reason \<open>f\<close>, the first half of halting it.\<close>

definition halt_off :: "(k_thread \<Rightarrow> k_thread) \<Rightarrow> tid \<Rightarrow> 'o kstate \<Rightarrow> 'o kstate" where
  "halt_off f t s = (let s1 = upd_thread t f s
     in if z_is_thread_queued (threads s1 t) then dequeue_thread t s1 else s1)"

lemma halt_off_rule:
  assumes s: "sinv X s" and t: "t \<noteq> idle_thread s"
    and f: "prio (f (threads s t)) = prio (threads s t)" "pended_on (f (threads s t)) = pended_on (threads s t)"
      "z_is_thread_queued (f (threads s t)) = z_is_thread_queued (threads s t)"
      "z_is_thread_pending (f (threads s t)) = z_is_thread_pending (threads s t)"
      "is_thread_dummy (f (threads s t)) = is_thread_dummy (threads s t)"
      "z_is_thread_sleeping (f (threads s t)) = z_is_thread_sleeping (threads s t)"
      "\<not> z_is_thread_ready (f (threads s t))"
    and Y: "X \<subseteq> Y" "z_is_thread_dead (f (threads s t)) \<Longrightarrow> t \<notin> Y \<Longrightarrow>
      z_is_thread_dead (threads s t) \<and> t \<notin> X"
  defines "s' \<equiv> halt_off f t s"
  shows "sinv Y s'" "threads s' = (threads s)(t := z_mark_thread_as_not_queued (f (threads s t)))"
    "runq s' = remove1 t (runq s)"
proof -
  let ?x = "z_mark_thread_as_not_queued (f (threads s t))"
  show th: "threads s' = (threads s)(t := ?x)" and rq: "runq s' = remove1 t (runq s)"
    using mark_not_queued_id [of "f (threads s t)"] f(3)
    by (auto simp: s'_def halt_off_def Let_def dequeue_thread_eq sinv_simps(5) [OF s] remove1_idem)
  have same: "idle_thread s' = idle_thread s" "dummy_thread s' = dummy_thread s" "curr_tick s' = curr_tick s"
    "tq s' = tq s" "tfn s' = tfn s" "waitq s' = waitq s"
    by (simp_all add: s'_def halt_off_def Let_def)
  show "sinv Y s'"
    by (rule sinv_upd [OF s th same(1-5) subset_insertI2 [OF Y(1)]])
      (use f t sinvD(11,15,21) [OF s, of t] Y sinvD(16,17) [OF s] sinvD(6) [OF s] in
        \<open>auto simp: rq th same(6) sinv_simps(1-6) [OF s]\<close>)
qed

lemma halt_suspend_eq:
  "\<not> z_is_thread_suspended (threads s t) \<Longrightarrow>
   halt_thread t THREAD_SUSPENDED s = update_cache True (halt_off z_mark_thread_as_suspended t s)"
proof -
  have "THREAD_SUSPENDED \<noteq> THREAD_DEAD" by (simp add: thread_flags)
  then show "\<not> z_is_thread_suspended (threads s t) \<Longrightarrow>
      halt_thread t THREAD_SUSPENDED s = update_cache True (halt_off z_mark_thread_as_suspended t s)"
    by (simp add: halt_thread_def halt_off_def Let_def z_is_thread_suspended_def
        z_mark_thread_as_suspended_def [abs_def])
qed

lemma halt_suspend_rule:
  assumes s: "sinv {} s" and t: "t \<noteq> idle_thread s" "\<not> z_is_thread_suspended (threads s t)"
  defines "s' \<equiv> halt_thread t THREAD_SUSPENDED s"
  shows "sinv {} s'" "cache s' = next_up s'" "cache_ok s'"
    "threads s' = (threads s)(t := z_mark_thread_as_not_queued (z_mark_thread_as_suspended (threads s t)))"
    "runq s' = remove1 t (runq s)" "waitq s' = waitq s" "current s' = current s" "in_isr s' = in_isr s"
    "irq_unlocked s' = irq_unlocked s" "objs s' = objs s" "idle_thread s' = idle_thread s"
proof -
  note h = halt_off_rule [OF s t(1), where f = z_mark_thread_as_suspended and Y = "{}"]
  show "sinv {} s'" "threads s' = (threads s)(t := z_mark_thread_as_not_queued (z_mark_thread_as_suspended (threads s t)))"
    "runq s' = remove1 t (runq s)"
    using h by (simp_all add: s'_def halt_suspend_eq [OF t(2)])
  show "cache s' = next_up s'" "cache_ok s'" by (simp_all add: s'_def halt_suspend_eq [OF t(2)])
  show "waitq s' = waitq s" "current s' = current s" "in_isr s' = in_isr s"
    "irq_unlocked s' = irq_unlocked s" "objs s' = objs s" "idle_thread s' = idle_thread s"
    by (simp_all add: s'_def halt_suspend_eq [OF t(2)] halt_off_def Let_def)
qed

definition halt_detach :: "tid \<Rightarrow> 'o kstate \<Rightarrow> 'o kstate" where
  "halt_detach t s = snd (z_try_abort_thread_timeout t
     (if pended_on (threads s t) \<noteq> None then unpend_thread_no_timeout t s else s))"

lemma halt_dead_eq:
  "\<not> z_is_thread_dead (threads s t) \<Longrightarrow> halt_thread t THREAD_DEAD s =
     (let s3 = unpend_all (WqJoin t) (halt_detach t (halt_off mark_dead t s)); s4 = update_cache True s3
      in if t = current s3 \<and> in_isr s3 then z_dummy_thread_init s4 else s4)"
proof -
  assume d: "\<not> z_is_thread_dead (threads s t)"
  have ne: "THREAD_DEAD \<noteq> THREAD_SUSPENDED" by (simp add: thread_flags)
  have z: "thread_state (threads s t) AND THREAD_DEAD = 0" using d by (simp add: z_is_thread_dead_def)
  show ?thesis
    unfolding halt_thread_def halt_off_def halt_detach_def Let_def if_P [OF z] if_P [OF refl] if_not_P [OF ne] by simp
qed

text \<open>The dying thread waits for nothing and has no timeout; then its joiners are woken.\<close>

lemma halt_detach_rule:
  assumes s: "sinv {} s" and t: "t \<noteq> idle_thread s"
  defines "s2 \<equiv> halt_detach t (halt_off mark_dead t s)"
  shows "sinv {t} s2" "pended_on (threads s2 t) = None" "z_is_thread_dead (threads s2 t)" "\<not> armed s2 t"
    "u \<noteq> t \<Longrightarrow> threads s2 u = threads s u" "u \<noteq> t \<Longrightarrow> armed s2 u = armed s u"
    "waitq s2 w = remove1 t (waitq s w)" "current s2 = current s" "in_isr s2 = in_isr s"
    "objs s2 = objs s" "idle_thread s2 = idle_thread s" "irq_unlocked s2 = irq_unlocked s"
    "runq s2 = remove1 t (runq s)" "curr_tick s2 = curr_tick s"
proof -
  let ?h = "halt_off mark_dead t s"
  let ?u = "if pended_on (threads ?h t) \<noteq> None then unpend_thread_no_timeout t ?h else ?h"
  have h: "sinv {t} ?h" "threads ?h = (threads s)(t := z_mark_thread_as_not_queued (mark_dead (threads s t)))"
    "runq ?h = remove1 t (runq s)"
    using halt_off_rule [OF s t, where f = mark_dead and Y = "{t}"] by simp_all
  have hw: "waitq ?h = waitq s" "armed ?h = armed s" "idle_thread ?h = idle_thread s"
    by (simp_all add: halt_off_def Let_def armed_def fun_eq_iff)
  have u: "sinv {t} ?u" using sinv_unpend [OF h(1), of t] h(1) by auto
  have ut: "pended_on (threads ?u t) = None" "z_is_thread_dead (threads ?u t)"
    "u \<noteq> t \<Longrightarrow> threads ?u u = threads s u" "waitq ?u w = remove1 t (waitq s w)" "runq ?u = remove1 t (runq s)"
    using sinv_simps(6) [OF s, of t w]
    by (cases "pended_on (threads s t)"; auto simp: unpend_eq h(2,3) hw remove1_idem; fail)+
  have s2: "s2 = snd (z_try_abort_thread_timeout t ?u)" by (simp add: s2_def halt_detach_def)
  show "sinv {t} s2" "\<not> armed s2 t" using sinv_abort_timeout [OF u, of t] by (simp_all add: s2)
  show "pended_on (threads s2 t) = None" "z_is_thread_dead (threads s2 t)" "u \<noteq> t \<Longrightarrow> threads s2 u = threads s u"
    "waitq s2 w = remove1 t (waitq s w)" "runq s2 = remove1 t (runq s)" using ut by (simp_all add: s2)
  have "armed ?u = armed s" by (cases "pended_on (threads ?h t)") (simp_all add: hw armed_def fun_eq_iff unpend_eq halt_off_def Let_def)
  then show "u \<noteq> t \<Longrightarrow> armed s2 u = armed s u" using armed_abort(1) [OF sinvD(12) [OF u], of t u] by (simp add: s2)
  show "current s2 = current s" "in_isr s2 = in_isr s" "objs s2 = objs s" "idle_thread s2 = idle_thread s"
    "irq_unlocked s2 = irq_unlocked s" "curr_tick s2 = curr_tick s"
    by (simp_all add: s2 halt_off_def Let_def)
qed

lemma sinv_dummy_init:
  assumes s: "sinv {} s"
  shows "sinv {} (z_dummy_thread_init s)"
proof -
  let ?d = "dummy_thread s"
  let ?f = "\<lambda>th. th\<lparr>thread_state := THREAD_DUMMY, user_options := K_ESSENTIAL, held_mutexes := [],
    mutex_pended_on := None, orig_prio := prio th\<rparr>"
  have b: "bit (thread_state (?f th)) n \<longleftrightarrow> n = 0" for th n by (auto simp: THREAD_DUMMY_def bit_1_iff)
  have x: "is_thread_dummy (?f th)" "\<not> z_is_thread_queued (?f th)" "\<not> z_is_thread_dead (?f th)"
    "\<not> z_is_thread_ready (?f th)" for th unfolding thread_tests thread_ready_iff b by simp_all
  have d: "?d \<notin> set (runq s)" "?d \<noteq> idle_thread s"
    using sinvD(2,19) [OF s, of ?d] sinvD(3) [OF s] by auto
  have "sinv {} (upd_thread ?d ?f s)"
    by (rule sinv_upd [OF s, where t = ?d and x = "?f (threads s ?d)"])
      (use d x sinvD(17,18) [OF s] in \<open>auto simp: sinv_simps(1-6) [OF s] simp del: k_thread.update_convs\<close>)
  then show ?thesis unfolding z_dummy_thread_init_def sinv_sel .
qed

lemma dummy_init_sel [simp]:
  "cache (z_dummy_thread_init s) = cache s" "next_up (z_dummy_thread_init s) = next_up s"
  "waitq (z_dummy_thread_init s) = waitq s" "runq (z_dummy_thread_init s) = runq s"
  "in_isr (z_dummy_thread_init s) = in_isr s" "irq_unlocked (z_dummy_thread_init s) = irq_unlocked s"
  "objs (z_dummy_thread_init s) = objs s" "idle_thread (z_dummy_thread_init s) = idle_thread s"
  "u \<noteq> dummy_thread s \<Longrightarrow> threads (z_dummy_thread_init s) u = threads s u"
  "armed (z_dummy_thread_init s) u = armed s u" "curr_tick (z_dummy_thread_init s) = curr_tick s"
  by (simp_all add: z_dummy_thread_init_def)

lemma halt_dead_rule:
  assumes s: "sinv {} s" and t: "t \<noteq> idle_thread s" "\<not> z_is_thread_dead (threads s t)" "t \<noteq> dummy_thread s"
  defines "s' \<equiv> halt_thread t THREAD_DEAD s"
  shows "sinv {} s'" "cache s' = next_up s'" "cache_ok s'" "z_is_thread_dead (threads s' t)"
    "waitq s' w = (if w = WqJoin t then [] else remove1 t (waitq s w))"
    "RDY s u \<Longrightarrow> u \<noteq> t \<Longrightarrow> threads s' u = threads s u"
    "current s' = (if t = current s \<and> in_isr s then dummy_thread s else current s)"
    "in_isr s' = in_isr s" "irq_unlocked s' = irq_unlocked s" "objs s' = objs s"
    "idle_thread s' = idle_thread s" "curr_tick s' = curr_tick s"
    "pended_on (threads s u) = Some (WqJoin t) \<Longrightarrow> u \<noteq> t \<Longrightarrow>
       threads s' u = waked (\<lambda>th. th\<lparr>swap_retval := 0\<rparr>) (threads s u)"
proof -
  let ?h = "halt_detach t (halt_off mark_dead t s)" and ?g = "\<lambda>th. th\<lparr>swap_retval := 0\<rparr>"
  note h = halt_detach_rule [OF s t(1)]
  let ?ts = "waitq ?h (WqJoin t)"
  have ts: "t \<notin> set ?ts" using sinv_simps(6) [OF h(1), of t] h(2) by auto
  then have X: "set ?ts \<inter> {t} = {}" by simp
  define F where "F = fold (wake_turn ?g) ?ts ?h"
  note w = wake_fold_rule [OF h(1) refl X keeps_retval(2) [where r = 0], folded F_def]
  have f: "unpend_all (WqJoin t) ?h = F" unfolding F_def by (rule unpend_all_eq(1) [OF h(1) X])
  have fs: "sinv {} F"
  proof (rule sinv_drop)
    show "sinv (insert t {}) F" using w by blast
    show "z_is_thread_dead (threads F t) \<Longrightarrow> t \<in> {} \<or> pended_on (threads F t) = None \<and>
        \<not> armed F t \<and> waitq F (WqJoin t) = []" using w ts h(2,4) by simp
    show "RDY F t \<Longrightarrow> t \<in> set (runq F) \<or> t = idle_thread F"
      using w ts h(3) by (simp add: thread_ready_tests)
    show "armed F t \<Longrightarrow> waits (threads F t)" using w ts h(4) by simp
  qed
  define c where "c = (t = current s \<and> in_isr s)"
  have fr: "current F = current s" "in_isr F = in_isr s" "irq_unlocked F = irq_unlocked s"
    "objs F = objs s" "idle_thread F = idle_thread s" "curr_tick F = curr_tick s"
    "dummy_thread F = dummy_thread s"
    using h(8-14) unfolding F_def by (simp_all add: halt_detach_def halt_off_def Let_def)
  have eq: "s' = (if c then z_dummy_thread_init (update_cache True F) else update_cache True F)"
    unfolding s'_def halt_dead_eq [OF t(2)] f Let_def fr c_def ..
  have dm: "threads s' u = threads F u" if "u \<noteq> dummy_thread s" for u using that by (simp add: eq fr)
  show "sinv {} s'" using fs sinv_dummy_init [of "update_cache True F"] by (simp add: eq)
  show cn: "cache s' = next_up s'" by (simp add: eq)
  then show "cache_ok s'" by (simp add: cache_ok_def)
  show "z_is_thread_dead (threads s' t)" using w ts h(3) t(3) by (simp add: dm)
  show "waitq s' w = (if w = WqJoin t then [] else remove1 t (waitq s w))" using w h(7) [of w] by (simp add: eq)
  show "threads s' u = threads s u" if "RDY s u" "u \<noteq> t"
  proof -
    have "u \<notin> set ?ts" using ready_not_pended [OF s that(1)] sinv_simps(6) [OF h(1), of u "WqJoin t"] h(5) [OF that(2)] by simp
    with w h(5) [OF that(2)] sinvD(19) [OF s that(1)] show ?thesis by (simp add: dm)
  qed
  show "current s' = (if t = current s \<and> in_isr s then dummy_thread s else current s)"
    by (simp add: eq z_dummy_thread_init_def fr c_def)
  show "in_isr s' = in_isr s" "irq_unlocked s' = irq_unlocked s" "objs s' = objs s"
    "idle_thread s' = idle_thread s" "curr_tick s' = curr_tick s"
    by (simp_all add: eq fr)
  show "threads s' u = waked ?g (threads s u)" if "pended_on (threads s u) = Some (WqJoin t)" "u \<noteq> t"
  proof -
    have "u \<in> set ?ts" using that(1) sinv_simps(6) [OF h(1), of u "WqJoin t"] h(5) [OF that(2)] by simp
    with w h(5) [OF that(2)] sinvD(20) [OF s that(1)] show ?thesis by (simp add: dm)
  qed
qed

section \<open>Every operation keeps the invariant\<close>

lemma sched_okD:
  assumes "sched_ok s"
  shows "sinv {} s" "cache_ok s" "\<not> in_isr s \<Longrightarrow> RDY s (current s)"
  using assms by (simp_all add: sched_ok_def)

lemma sched_ok_set_isr:
  "sched_ok s \<Longrightarrow> sched_ok (s\<lparr>in_isr := True\<rparr>)"
  by (simp add: sched_ok_def cache_ok_def)

lemma sched_ok_switch_handle:
  assumes "sched_ok s"
  shows "sched_ok ((z_get_next_switch_handle s)\<lparr>in_isr := False\<rparr>)"
    "resched_ok ((z_get_next_switch_handle s)\<lparr>in_isr := False\<rparr>)"
proof -
  note s = sched_okD [OF assms]
  have "RDY s (cache s)" using s(2) next_up_mem(2) [OF s(1)] by (auto simp: cache_ok_def)
  with s show "sched_ok ((z_get_next_switch_handle s)\<lparr>in_isr := False\<rparr>)"
    by (auto simp: sched_ok_def cache_ok_def z_get_next_switch_handle_def)
qed (simp add: resched_ok_def z_get_next_switch_handle_def)

lemma sched_ok_yield:
  assumes s: "sched_ok s" and t: "\<not> in_isr s" "current s \<noteq> idle_thread s"
  shows "sched_ok (snd (k_yield s))" "resched_ok (snd (k_yield s))"
    "current (snd (k_yield s)) = hd (prio_insert (threads s) (current s) (remove1 (current s) (runq s)))"
proof -
  note s = sched_okD [OF s]
  have c: "current s \<in> set (runq s)" using sinvD(5) [OF s(1) s(3) [OF t(1)]] t(2) by simp
  note y = sinv_yield [OF s(1) c]
  note d = do_swap_ok [of "update_cache True (runq_yield s)"]
  show "sched_ok (snd (k_yield s))" "resched_ok (snd (k_yield s))"
    using d y(1) by (simp_all add: k_yield_def z_sched_yield_def)
  have "current (snd (k_yield s)) = next_up (runq_yield s)"
    using d y(1) by (simp add: k_yield_def z_sched_yield_def)
  then show "current (snd (k_yield s)) = hd (prio_insert (threads s) (current s) (remove1 (current s) (runq s)))"
    by (simp add: next_up_eq y(2) hd_conv_nth prio_insert_def split: list.split)
qed

lemma sinv_sched_locked [simp]: "sinv X (upd_thread t (\<lambda>th. th\<lparr>sched_locked := f th\<rparr>) s) = sinv X s"
  by (rule sinv_thread_field) simp_all

lemma RDY_sched_locked [simp]: "z_is_thread_ready (th\<lparr>sched_locked := v\<rparr>) = z_is_thread_ready th"
  by (rule thread_state_tests_cong) simp

lemma sched_ok_lock:
  assumes s: "sched_ok s" and l: "0 \<le> sched_locked (threads s (current s))" "sched_locked (threads s (current s)) < 256"
    "sched_locked (threads s (current s)) \<noteq> 1"
  shows "sched_ok (k_sched_lock s)" "\<not> thread_is_preemptible (threads (k_sched_lock s) (current s))"
proof -
  let ?th = "threads s (current s)"
  have "0 < (x - 1) mod 256" if "0 \<le> x" "x < 256" "x \<noteq> 1" for x :: int using that by presburger
  from this [OF l] have "0 < u8 (sched_locked ?th - 1)" by (simp add: u8_def)
  then have "127 < u8 (sched_locked ?th - 1) * 256 + u8 (prio ?th)" using u8_range(1) [of "prio ?th"] by linarith
  then show np: "\<not> thread_is_preemptible (threads (k_sched_lock s) (current s))"
    by (simp add: k_sched_lock_def thread_is_preemptible_def preempt_def PREEMPT_THRESHOLD_def)
  then show "sched_ok (k_sched_lock s)"
    using s by (auto simp: sched_ok_def k_sched_lock_def cache_ok_def)
qed

lemma sched_ok_unlock:
  assumes "sched_ok s"
  shows "sched_ok (k_sched_unlock s)" "resched_ok (k_sched_unlock s)"
  unfolding k_sched_unlock_def z_sched_lock_reschedule_def
  by (rule reschedule_ok; use sched_okD [OF assms] in simp)+

lemma sched_ok_reschedule:
  assumes "sched_ok s"
  shows "sched_ok (k_reschedule s)" "resched_ok (k_reschedule s)"
  unfolding k_reschedule_def z_sched_lock_reschedule_def
  by (rule reschedule_ok; use sched_okD [OF assms] in simp)+

lemma sched_ok_priority_set:
  assumes s: "sched_ok s" and t: "t \<noteq> idle_thread s"
  shows "sched_ok (k_thread_priority_set t p s)"
    "sched_locked (threads s (current s)) = 0 \<Longrightarrow> resched_ok s \<Longrightarrow> RDY s t \<Longrightarrow> resched_ok (k_thread_priority_set t p s)"
proof -
  note s = sched_okD [OF s]
  let ?s = "snd (z_thread_prio_set t p s)"
  note p = prio_set_rule [OF s(1) t, of p] and f = prio_set_frame [of t p s]
  have i: "\<not> in_isr ?s \<Longrightarrow> RDY ?s (current ?s)" using s(3) f p(3) by simp
  note r = reschedule_ok [OF p(1) p(2) [OF s(2)] i]
  show "sched_ok (k_thread_priority_set t p s)"
    using r(1) p(1,2) i s(2) sched_ok_def [of ?s] by (simp add: k_thread_priority_set_def case_prod_unfold Let_def)
  have sl: "sched_locked (threads ?s (current ?s)) = sched_locked (threads s (current s))"
    by (simp add: f prio_set_eq [OF s(1)] queue_thread_eq dequeue_thread_eq k_panic_def thread_marks
        split: option.split)
  show "resched_ok (k_thread_priority_set t p s)"
    if "sched_locked (threads s (current s)) = 0" "resched_ok s" "RDY s t"
    using that r(2) p(4) sl by (simp add: k_thread_priority_set_def case_prod_unfold Let_def)
qed

lemma sched_ok_suspend:
  assumes s: "sched_ok s" and t: "t \<noteq> idle_thread s"
  shows "sched_ok (snd (k_thread_suspend t s))"
proof -
  note i = sched_okD [OF s]
  show ?thesis
  proof (cases "t = current s \<and> \<not> in_isr s")
    case True
    let ?m = "dequeue_thread t (upd_thread t z_mark_thread_as_suspended s)"
    have "t \<in> set (runq s)" using sinvD(5) [OF i(1) i(3)] True t by auto
    then have "?m = halt_off z_mark_thread_as_suspended t s"
      by (simp add: halt_off_def Let_def sinv_simps(5) [OF i(1)])
    with halt_off_rule(1) [OF i(1) t, where f = z_mark_thread_as_suspended and Y = "{}"]
    have "sinv {} (update_cache True ?m)" by simp
    from do_swap_ok(1) [OF this cache_ok_update] True show ?thesis
      by (simp add: k_thread_suspend_def z_thread_suspend_current_def)
  next
    case False
    note h = halt_suspend_rule [OF i(1) t]
    show ?thesis
    proof (cases "z_is_thread_suspended (threads s t)")
      case True
      with s False show ?thesis by (auto simp: k_thread_suspend_def)
    next
      case ns: False
      have "sched_ok (halt_thread t THREAD_SUSPENDED s)"
        using h [OF ns] i(3) False by (auto simp: sched_ok_def)
      with False ns h(7,8) [OF ns] show ?thesis by (auto simp: k_thread_suspend_def z_thread_halt_def Let_def)
    qed
  qed
qed

text \<open>Clearing a reason to block and readying the thread, as waking and resuming do.\<close>

lemma sinv_clear_ready:
  assumes s: "sinv {} s" and t: "t \<noteq> idle_thread s" "\<not> RDY s t" "t \<noteq> dummy_thread s"
    and f: "prio (f (threads s t)) = prio (threads s t)" "pended_on (f (threads s t)) = pended_on (threads s t)"
      "z_is_thread_queued (f (threads s t)) = z_is_thread_queued (threads s t)"
      "z_is_thread_pending (f (threads s t)) = z_is_thread_pending (threads s t)"
      "z_is_thread_dead (f (threads s t)) = z_is_thread_dead (threads s t)"
    and a: "armed s t \<Longrightarrow> waits (f (threads s t))"
  shows "sinv {} (ready_thread t (upd_thread t f s))"
proof -
  have nq: "t \<notin> set (runq s)" using sinvD(2) [OF s] t(2) by blast
  have d: "z_is_thread_dead (threads s t) \<Longrightarrow>
      pended_on (threads s t) = None \<and> \<not> armed s t \<and> waitq s (WqJoin t) = []"
    using sinvD(15) [OF s] by simp
  have "sinv {t} (upd_thread t f s)"
  proof (rule sinv_upd [OF s, where t = t and x = "f (threads s t)"])
    show "pended_on (f (threads s t)) \<noteq> None \<Longrightarrow> z_is_thread_pending (f (threads s t))"
      using sinvD(11) [OF s, of t] f by simp
  qed (use nq t f in \<open>simp_all add: sinv_simps(1-6) [OF s] sinv_simps(5) [OF s]\<close>)
  then show ?thesis by (rule sinv_ready) (use t f a d in simp_all)
qed

lemma cache_ok_clear:
  assumes "cache_ok s" and "\<not> RDY s t"
  shows "cache_ok (ready_thread t (upd_thread t f s))"
proof (rule cache_ok_ready)
  have "t \<noteq> current s \<or> cache s = next_up s" using assms by (auto simp: cache_ok_def)
  with assms(1) show "cache_ok (upd_thread t f s)" by (auto simp: cache_ok_def)
qed

lemma sched_ok_resume:
  assumes s: "sched_ok s" and t: "t \<noteq> idle_thread s" "t \<noteq> dummy_thread s"
  shows "sched_ok (k_thread_resume t s)" "resched_ok s \<Longrightarrow> resched_ok (k_thread_resume t s)"
proof -
  note i = sched_okD [OF s]
  have "sched_ok (k_thread_resume t s) \<and> (resched_ok s \<longrightarrow> resched_ok (k_thread_resume t s))"
  proof (cases "z_is_thread_suspended (threads s t)")
    case True
    then have nr: "\<not> RDY s t" by (simp add: thread_ready_tests)
    let ?s = "ready_thread t (upd_thread t z_mark_thread_as_not_suspended s)"
    have a: "sinv {} ?s" by (rule sinv_clear_ready [OF i(1)]) (use t nr sinvD(21) [OF i(1), of t] in simp_all)
    have "\<not> in_isr ?s \<Longrightarrow> RDY ?s (current ?s)" using i(3) nr by (auto simp: ready_threads)
    from reschedule_ok [OF a cache_ok_clear [OF i(2) nr] this] True show ?thesis by (simp add: k_thread_resume_def)
  qed (use s in \<open>simp add: k_thread_resume_def\<close>)
  then show "sched_ok (k_thread_resume t s)" "resched_ok s \<Longrightarrow> resched_ok (k_thread_resume t s)" by simp_all
qed

lemma k_wakeup_rule:
  assumes i: "sinv {} s" "cache_ok s" "\<not> in_isr s \<Longrightarrow> RDY s (current s)"
    and t: "t \<noteq> idle_thread s" "t \<noteq> dummy_thread s" "z_is_thread_sleeping (threads s t)"
  shows "sched_ok (k_wakeup t s)" "resched_ok (k_wakeup t s)"
proof -
  from t(3) have nr: "\<not> RDY s t" by (simp add: thread_ready_tests)
  let ?a = "snd (z_try_abort_thread_timeout t s)"
  let ?s = "ready_thread t (upd_thread t z_mark_thread_as_not_sleeping ?a)"
  note a = sinv_abort_timeout [OF i(1), of t]
  have b: "sinv {} ?s" by (rule sinv_clear_ready [OF a(1)]) (use t nr a(2) in simp_all)
  have c: "cache_ok ?s" by (rule cache_ok_clear) (use i(2) nr in \<open>simp_all add: cache_ok_def\<close>)
  have "\<not> in_isr ?s \<Longrightarrow> RDY ?s (current ?s)" using i(3) nr by (auto simp: ready_threads)
  from reschedule_ok [OF b c this] t(3) show "sched_ok (k_wakeup t s)" "resched_ok (k_wakeup t s)" by (simp_all add: k_wakeup_def)
qed

lemma sched_ok_wakeup:
  assumes s: "sched_ok s" and t: "t \<noteq> idle_thread s" "t \<noteq> dummy_thread s"
  shows "sched_ok (k_wakeup t s)" "resched_ok s \<Longrightarrow> resched_ok (k_wakeup t s)"
  using k_wakeup_rule [OF sched_okD [OF s] t] s
  by (cases "z_is_thread_sleeping (threads s t)"; simp add: k_wakeup_def)+

lemma sched_ok_panic [simp]: "sched_ok (k_panic s) = sched_ok s"
  by (simp add: sched_ok_def k_panic_def cache_ok_def)

lemma sched_ok_abort:
  assumes s: "sched_ok s" and t: "t \<noteq> idle_thread s" "t \<noteq> dummy_thread s"
  shows "sched_ok (snd (z_thread_abort t s))"
proof (cases "z_is_thread_dead (threads s t)")
  case False
  note i = sched_okD [OF s]
  let ?h = "halt_thread t THREAD_DEAD s"
  note h = halt_dead_rule [OF i(1) t(1) False t(2)]
  have "sched_ok (snd (z_thread_halt t True s))"
  proof (cases "t = current s \<and> \<not> in_isr s")
    case True
    have p: "sinv {} (if b then k_panic ?h else ?h)" "cache_ok (if b then k_panic ?h else ?h)" for b
      using h(1,3) by (simp_all add: k_panic_def cache_ok_def)
    from do_swap_ok(1) [OF p, of "z_is_thread_essential (threads ?h t)"] show ?thesis
      using h(7,8) conjunct1 [OF True, symmetric] conjunct2 [OF True]
      by (simp add: z_thread_halt_def Let_def split del: if_split)
  next
    case nc: False
    have "sched_ok ?h"
      using h(1,3,6,7,8) i(3) nc by (auto simp: sched_ok_def)
    moreover have "t \<noteq> current ?h \<or> in_isr ?h" using h(7,8) nc t(2) by auto
    ultimately show ?thesis by (auto simp: z_thread_halt_def Let_def)
  qed
  then show ?thesis using False
    by (cases "z_thread_halt t True s") (simp add: z_thread_abort_def split: kres.split)
qed (use s in \<open>simp add: z_thread_abort_def\<close>)

section \<open>Blocking\<close>

text \<open>What every blocking call relies on: the caller waits, and another thread runs.\<close>

lemma pend_curr_rule:
  assumes s: "sched_ok s" and c: "\<not> in_isr s" "current s \<noteq> idle_thread s" and n: "timeout_fits n s"
    and w: "\<And>u. w = Some (WqJoin u) \<Longrightarrow> \<not> z_is_thread_dead (threads s u)"
  defines "s' \<equiv> snd (z_pend_curr w n s)"
  shows "z_pend_curr w n s = (Swapped, s')" "sched_ok s'" "resched_ok s'"
    "threads s' = (threads s)(current s := (blocked_on w (threads s (current s)))\<lparr>swap_retval := - EAGAIN\<rparr>)"
    "waitq s' = (case w of None \<Rightarrow> waitq s
       | Some q \<Rightarrow> (waitq s)(q := prio_insert (threads s) (current s) (waitq s q)))"
    "objs s' = objs s" "in_isr s' = in_isr s" "irq_unlocked s' = irq_unlocked s" "idle_thread s' = idle_thread s"
    "armed s' u \<longleftrightarrow> armed s u \<or> (u = current s \<and> n \<noteq> K_FOREVER)"
    "runq s' = remove1 (current s) (runq s)" "curr_tick s' = curr_tick s"
proof -
  note i = sched_okD [OF s]
  have r: "RDY s (current s)" by (rule i(3) [OF c(1)])
  note p = pend_locked_rule [OF i(1) r c(2) empty_iff [THEN iffD1, THEN notI] ready_not_pended [OF i(1) r] w n]
  let ?p = "pend_locked (current s) w n s"
  have p1: "sinv {} ?p" "cache_ok ?p" "cache ?p = next_up ?p"
    "threads ?p = (threads s)(current s := blocked_on w (threads s (current s)))"
    "runq ?p = remove1 (current s) (runq s)"
    "waitq ?p = (case w of None \<Rightarrow> waitq s
       | Some q \<Rightarrow> (waitq s)(q := prio_insert (threads s) (current s) (waitq s q)))"
    "armed ?p u \<longleftrightarrow> armed s u \<or> (u = current s \<and> n \<noteq> K_FOREVER)"
    using p by (simp_all split del: if_split)
  have "\<not> RDY ?p (current ?p)" by (simp add: p1(4))
  note b = do_swap_blocked [OF p1(1,3) this]
  have s': "s' = switch_to_cache ?p" "z_pend_curr w n s = do_swap ?p" using c(1) b by (simp_all add: s'_def z_pend_curr_def)
  show "z_pend_curr w n s = (Swapped, s')" using b by (simp add: s')
  show "sched_ok s'" "resched_ok s'" using do_swap_ok(1,2) [OF p1(1,2)] by (simp_all add: s' b)
  show "threads s' = (threads s)(current s := (blocked_on w (threads s (current s)))\<lparr>swap_retval := - EAGAIN\<rparr>)"
    by (simp add: s' p1(4))
  show "waitq s' = (case w of None \<Rightarrow> waitq s
       | Some q \<Rightarrow> (waitq s)(q := prio_insert (threads s) (current s) (waitq s q)))"
    "armed s' u \<longleftrightarrow> armed s u \<or> (u = current s \<and> n \<noteq> K_FOREVER)" "runq s' = remove1 (current s) (runq s)"
    using p1(5-7) by (simp_all add: s')
qed (simp_all add: s'_def z_pend_curr_def c(1) do_swap_state)

lemma k_thread_join_cases:
  "z_is_thread_dead (threads s t) \<Longrightarrow> k_thread_join t n s = (Ret 0, s)"
  "\<not> z_is_thread_dead (threads s t) \<Longrightarrow> n = K_NO_WAIT \<Longrightarrow> k_thread_join t n s = (Ret (- EBUSY), s)"
  "\<not> z_is_thread_dead (threads s t) \<Longrightarrow> n \<noteq> K_NO_WAIT \<Longrightarrow>
     t = current s \<or> pended_on (threads s t) = Some (WqJoin (current s)) \<Longrightarrow>
     k_thread_join t n s = (Ret (- EDEADLK), s)"
  "\<not> z_is_thread_dead (threads s t) \<Longrightarrow> n \<noteq> K_NO_WAIT \<Longrightarrow>
     \<not> (t = current s \<or> pended_on (threads s t) = Some (WqJoin (current s))) \<Longrightarrow> \<not> in_isr s \<Longrightarrow>
     k_thread_join t n s = z_pend_curr (Some (WqJoin t)) n s"
  by (simp_all add: k_thread_join_def z_pend_curr_def pend_locked_def)

lemma sched_ok_join:
  assumes s: "sched_ok s" and c: "\<not> in_isr s" "current s \<noteq> idle_thread s" and n: "timeout_fits n s"
  shows "sched_ok (snd (k_thread_join t n s))" "resched_ok s \<Longrightarrow> resched_ok (snd (k_thread_join t n s))"
proof -
  have d: "\<not> z_is_thread_dead (threads s t) \<Longrightarrow> Some (WqJoin t) = Some (WqJoin u) \<Longrightarrow>
      \<not> z_is_thread_dead (threads s u)" for u by simp
  note p = pend_curr_rule [OF s c n, of "Some (WqJoin t)"]
  have "sched_ok (snd (k_thread_join t n s)) \<and> (resched_ok s \<longrightarrow> resched_ok (snd (k_thread_join t n s)))"
    using p(2,3) d k_thread_join_cases [of s t n] s c(1)
    by (cases "z_is_thread_dead (threads s t)"; cases "n = K_NO_WAIT";
        cases "t = current s \<or> pended_on (threads s t) = Some (WqJoin (current s))") simp_all
  then show "sched_ok (snd (k_thread_join t n s))" "resched_ok s \<Longrightarrow> resched_ok (snd (k_thread_join t n s))"
    by simp_all
qed

lemma sched_ok_sleep:
  assumes s: "sched_ok s" and c: "\<not> in_isr s" "current s \<noteq> idle_thread s" and n: "timeout_fits n s" "n \<noteq> K_NO_WAIT"
  defines "s' \<equiv> snd (snd (k_sleep_ticks n s))"
  shows "sched_ok s'" "resched_ok s'" "z_is_thread_sleeping (threads s' (current s))"
    "armed s' (current s) \<longleftrightarrow> n \<noteq> K_FOREVER" "fst (snd (k_sleep_ticks n s)) = Swapped"
proof -
  note i = sched_okD [OF s]
  let ?c = "current s"
  let ?u = "unready_thread ?c s"
  let ?a = "snd (z_add_thread_timeout ?c n ?u)"
  let ?m = "upd_thread ?c z_mark_thread_as_sleeping ?a"
  have r: "RDY s ?c" by (rule i(3) [OF c(1)])
  have nd: "\<not> armed s ?c" "\<not> z_is_thread_dead (threads s ?c)" "?c \<noteq> dummy_thread s"
    using sinvD(14) [OF i(1) r] r sinvD(19) [OF i(1) r] by (auto simp: thread_ready_tests)
  note u = sinv_unready [OF i(1), of ?c]
  have fits: "timeout_fits n ?u" using n(1) by (subst timeout_fits_same) simp_all
  have arm: "armed ?u = armed s" by (simp add: armed_def fun_eq_iff)
  have a: "sinv {?c} ?a"
    by (rule sinv_add_timeout [OF u(1) fits]) (use nd in \<open>auto simp: arm\<close>)
  have aa: "armed ?a ?c \<longleftrightarrow> n \<noteq> K_FOREVER"
    using armed_add [OF fits, of ?c ?c] sinvD(13) [OF i(1)] nd(1) by (simp add: arm)
  have m: "sinv {} ?m" by (rule sinv_mark [OF a]) (use u(2) c nd in \<open>auto simp: u(5)\<close>)
  have cn: "cache ?m = next_up ?m" "cache_ok ?m" using u(4) by (simp_all add: cache_ok_def)
  have "\<not> RDY ?m (current ?m)" by simp
  note b = do_swap_blocked [OF m cn(1) this]
  have e: "snd (k_sleep_ticks n s) = do_swap ?m"
    using n(2) by (simp add: k_sleep_ticks_def Let_def case_prod_unfold)
  show "sched_ok s'" "resched_ok s'" using do_swap_ok(1,2) [OF m cn(2)] by (simp_all add: s'_def e)
  have sl: "z_is_thread_sleeping (th\<lparr>swap_retval := v\<rparr>) = z_is_thread_sleeping th" for th v
    by (rule thread_state_tests_cong) simp
  show "z_is_thread_sleeping (threads s' ?c)" "armed s' ?c \<longleftrightarrow> n \<noteq> K_FOREVER"
    "fst (snd (k_sleep_ticks n s)) = Swapped" using aa by (simp_all add: s'_def e b sl)
qed

section \<open>Creating threads\<close>

lemma setup_new_thread_rule:
  fixes p :: int and opts :: "16 word"
  assumes s: "sinv {} s" and t: "z_is_thread_dead (threads s t)" "t \<noteq> dummy_thread s"
  defines "s' \<equiv> z_setup_new_thread t p opts s"
  shows "sinv {} s'" "z_is_thread_sleeping (threads s' t)" "\<not> armed s' t" "u \<noteq> t \<Longrightarrow> threads s' u = threads s u"
    "waitq s' = waitq s" "prio (threads s' t) = s8 p" "\<not> z_is_thread_dead (threads s' t)"
    "cache_ok s \<Longrightarrow> \<not> in_isr s \<Longrightarrow> RDY s (current s) \<Longrightarrow> cache_ok s'"
    "current s' = current s" "in_isr s' = in_isr s" "idle_thread s' = idle_thread s" "objs s' = objs s"
    "curr_tick s' = curr_tick s" "announcing_cpu s' = announcing_cpu s" "clk_elapsed s' = clk_elapsed s"
    "dummy_thread s' = dummy_thread s"
proof -
  note d = sinvD(15) [OF s t(1)]
  have nr: "\<not> RDY s t" using t(1) by (simp add: thread_ready_tests)
  have nq: "t \<notin> set (runq s)" "t \<noteq> idle_thread s" using sinvD(2) [OF s, of t] sinvD(3) [OF s] nr by auto
  have w: "(waitq s)(WqJoin t := []) = waitq s" using d by (auto simp: fun_eq_iff)
  define x where "x = threads s' t"
  have xd: "x = (let th1 = z_init_thread_base p THREAD_SLEEPING opts (threads s t)
      in th1\<lparr>held_mutexes := [], mutex_pended_on := None, orig_prio := prio th1\<rparr>)"
    by (simp add: x_def s'_def z_setup_new_thread_def)
  have b: "bit (thread_state x) n \<longleftrightarrow> n = 2" for n
    using bit_or_flag [of 2 "0 :: 8 word" n]
    by (simp add: xd z_init_thread_base_def Let_def THREAD_SLEEPING_def del: power_numeral)
  have xs: "z_is_thread_sleeping x" "\<not> z_is_thread_dead x" unfolding thread_tests b by simp_all
  then show "z_is_thread_sleeping (threads s' t)" "\<not> z_is_thread_dead (threads s' t)" by (simp_all add: x_def)
  have y: "\<not> z_is_thread_queued x" "\<not> z_is_thread_pending x" "\<not> z_is_thread_ready x"
    unfolding thread_tests thread_ready_iff b by simp_all
  have po: "pended_on x = None" by (simp add: xd z_init_thread_base_def Let_def)
  have th: "threads s' = (threads s)(t := x)" by (simp add: xd s'_def z_setup_new_thread_def)
  show wq: "waitq s' = waitq s" by (simp add: s'_def z_setup_new_thread_def w)
  have nw: "t \<notin> set (waitq s v)" for v using d by (simp add: sinv_simps(6) [OF s])
  have same: "idle_thread s' = idle_thread s" "dummy_thread s' = dummy_thread s" "curr_tick s' = curr_tick s"
    "tq s' = tq s" "tfn s' = tfn s" "runq s' = runq s" by (simp_all add: s'_def z_setup_new_thread_def)
  show "sinv {} s'"
    by (rule sinv_upd [OF s th same(1-5)])
      (use nq nw d xs y po t in \<open>auto simp: wq same(6) th sorted_other sinv_simps(1-5) [OF s]\<close>)
  show "\<not> armed s' t" using d by (simp add: armed_def same(4))
  show "threads s' u = threads s u" if "u \<noteq> t" using that by (simp add: s'_def z_setup_new_thread_def)
  show "prio (threads s' t) = s8 p" by (simp add: s'_def z_setup_new_thread_def z_init_thread_base_def Let_def)
  show "cache_ok s'" if "cache_ok s" "\<not> in_isr s" "RDY s (current s)"
    using that nr by (auto simp: cache_ok_def s'_def z_setup_new_thread_def)
qed (simp_all add: s'_def z_setup_new_thread_def)

lemma sched_ok_create:
  assumes s: "sched_ok s" and c: "\<not> in_isr s" and t: "z_is_thread_dead (threads s t)" "t \<noteq> dummy_thread s"
    and n: "timeout_fits n s"
  shows "sched_ok (k_thread_create t p opts n s)"
proof -
  note i = sched_okD [OF s]
  let ?s = "z_setup_new_thread t p opts s"
  note u = setup_new_thread_rule [OF i(1) t, where p = p and opts = opts]
  have nc: "current s \<noteq> t" using i(3) [OF c] t(1) by (auto simp: thread_ready_tests)
  have ni: "t \<noteq> idle_thread s" using sinvD(3) [OF i(1)] t(1) by (auto simp: thread_ready_tests)
  have ok: "sinv {} ?s" "cache_ok ?s" "RDY ?s (current ?s)"
    using u i(2,3) c nc by simp_all
  show ?thesis
  proof (cases "n = K_NO_WAIT")
    case True
    with k_wakeup_rule(1) [OF ok, of t] u t(2) ni show ?thesis
      by (simp add: k_thread_create_def thread_schedule_new_def)
  next
    case False
    have fits: "timeout_fits n ?s" using n u(13-15) by (subst timeout_fits_same)
    have "sinv {} (snd (z_add_thread_timeout t n ?s))"
      by (rule sinv_add_timeout [OF ok(1) fits]) (use u t(2) in auto)
    then have "sched_ok (snd (z_add_thread_timeout t n ?s))"
      using ok(2,3) by (simp add: sched_ok_def cache_ok_def)
    with False show ?thesis by (simp add: k_thread_create_def thread_schedule_new_def)
  qed
qed

section \<open>The timeout handler of a thread\<close>

lemma killed_iff: "thread_state th AND (THREAD_DEAD OR THREAD_ABORTING) \<noteq> 0 \<longleftrightarrow>
    z_is_thread_dead th \<or> z_is_thread_aborting th"
  by (simp add: z_is_thread_dead_def z_is_thread_aborting_def bit.conj_disj_distrib or_eq_0_iff)

text \<open>
  When the handler runs, the announce loop has taken the timeout off the queue.  The thread
  stops waiting and sleeping; its wait ends with the \<^verbatim>\<open>-EAGAIN\<close> it was given when it blocked.
\<close>

lemma thread_timeout_rule:
  assumes s: "sinv {} s" "cache_ok s" and t: "waits (threads s t)" "\<not> armed s t" "t \<noteq> idle_thread s"
    "\<not> z_is_thread_dead (threads s t)" "\<not> z_is_thread_aborting (threads s t)"
    and f: "\<not> z_timeout_inflight_superseded (ThreadTimeout t) s"
  defines "s' \<equiv> z_thread_timeout t s"
  shows "sinv {} s'" "cache_ok s'" "\<And>v. v \<noteq> t \<Longrightarrow> threads s' v = threads s v"
    "waitq s' w = remove1 t (waitq s w)" "\<not> z_is_thread_sleeping (threads s' t)"
    "pended_on (threads s t) \<noteq> None \<Longrightarrow> \<not> z_is_thread_pending (threads s' t)"
    "swap_retval (threads s' t) = swap_retval (threads s t)" "pended_on (threads s' t) = None"
    "z_is_thread_suspended (threads s' t) = z_is_thread_suspended (threads s t)"
    "is_thread_dummy (threads s' t) = is_thread_dummy (threads s t)"
    "\<not> z_is_thread_dead (threads s' t)"
proof -
  have nr: "\<not> RDY s t" using t(1) by (auto simp: thread_ready_tests)
  define u where "u = (if pended_on (threads s t) \<noteq> None then unpend_thread_no_timeout t s else s)"
  have us: "sinv {t} u" using sinv_unpend [OF s(1), of t] sinv_mono [OF s(1)] by (auto simp: u_def)
  have ut: "threads u t = (if pended_on (threads s t) \<noteq> None then
      (z_mark_thread_as_not_pending (threads s t))\<lparr>pended_on := None\<rparr> else threads s t)"
    and uo: "v \<noteq> t \<Longrightarrow> threads u v = threads s v" and uw: "waitq u x = remove1 t (waitq s x)" for v x
    using sinv_simps(6) [OF s(1), of t x] by (auto simp: u_def unpend_eq remove1_idem)
  have ur: "runq u = runq s" "current u = current s" "next_up u = next_up s" "cache u = cache s"
    "idle_thread u = idle_thread s" "armed u = armed s"
    by (auto simp: u_def armed_def fun_eq_iff)
  let ?m = "upd_thread t z_mark_thread_as_not_sleeping u"
  have nq: "t \<notin> set (runq u)" using sinvD(2) [OF s(1)] nr ur by auto
  have "sinv {t} ?m" by (rule sinv_mark [OF us nq]) (use t ur in auto)
  then have "sinv {} (ready_thread t ?m)"
    by (rule sinv_ready) (use t ur ut in \<open>auto split: if_splits\<close>)
  moreover have s': "s' = ready_thread t ?m"
    using f t(4,5) by (simp add: s'_def z_thread_timeout_def z_sched_wake_thread_locked_def
        killed_iff u_def Let_def)
  ultimately show "sinv {} s'" by simp
  have "t \<noteq> current s \<or> cache s = next_up s" using s(2) nr by (auto simp: cache_ok_def)
  with s(2) have "cache_ok ?m" using uo ur by (auto simp: cache_ok_def)
  then show "cache_ok s'" by (simp add: s')
  show "threads s' u = threads s u" if "u \<noteq> t" for u using that uo by (simp add: s' ready_threads)
  show "waitq s' w = remove1 t (waitq s w)" by (simp add: s' uw)
  show "\<not> z_is_thread_sleeping (threads s' t)"
    "pended_on (threads s t) \<noteq> None \<Longrightarrow> \<not> z_is_thread_pending (threads s' t)"
    "swap_retval (threads s' t) = swap_retval (threads s t)" "pended_on (threads s' t) = None"
    "z_is_thread_suspended (threads s' t) = z_is_thread_suspended (threads s t)"
    "is_thread_dummy (threads s' t) = is_thread_dummy (threads s t)"
    "\<not> z_is_thread_dead (threads s' t)"
    using t(4) by (simp_all add: s' ready_threads ut)
qed

end
