(* ===== verification/Sched_Props.thy ===== *)
theory Sched_Props
  imports Thread_Life
begin

text \<open>
  The properties of the scheduler, with a kernel state at boot to evaluate them on.
\<close>

section \<open>The kernel at boot\<close>

definition mk_thread :: "int \<Rightarrow> 8 word \<Rightarrow> k_thread" where
  "mk_thread p st = \<lparr>prio = p, sched_locked = 0, thread_state = st, user_options = 0, pended_on = None,
     swap_retval = 0, swap_data = 0, thread_events = 0, event_options = 0, held_mutexes = [],
     mutex_pended_on = None, orig_prio = p\<rparr>"

text \<open>
  The kernel when the main thread (number 2, priority 0) starts to run: the idle thread is
  number 0, the dummy thread number 1, all other threads are not yet created.
\<close>

definition boot :: "'o \<Rightarrow> 'o kstate" where
  "boot ob = \<lparr>curr_tick = 0, announce_remaining = 0, announcing_cpu = -1, inflight_timeout = None,
     tq = [], tfn = (\<lambda>_. Z_THREAD_TIMEOUT), clk_elapsed = 0, clk_wait = None, sloppy_idle = False,
     threads = (\<lambda>t. if t = 0 then mk_thread 15 0 else if t = 1 then mk_thread 0 THREAD_DUMMY
                    else if t = 2 then mk_thread 0 THREAD_QUEUED else mk_thread 0 THREAD_DEAD),
     runq = [2], cache = 2, current = 2, idle_thread = 0, dummy_thread = 1, waitq = (\<lambda>_. []),
     in_isr = False, irq_unlocked = True, fatal = False, objs = ob\<rparr>"

lemma boot_ok: "sched_ok (boot ob)" "resched_ok (boot ob)"
proof -
  have st: "thread_state (mk_thread p st) = st" "pended_on (mk_thread p st) = None" for p st by (simp_all add: mk_thread_def)
  have q: "bit THREAD_QUEUED n \<longleftrightarrow> n = 7" "bit THREAD_DEAD n \<longleftrightarrow> n = 3" "bit THREAD_DUMMY n \<longleftrightarrow> n = 0"
    "bit (0 :: 8 word) n \<longleftrightarrow> False" for n
    using bit_or_flag [of 7 "0 :: 8 word" n] bit_or_flag [of 3 "0 :: 8 word" n] bit_or_flag [of 0 "0 :: 8 word" n]
    by (simp_all add: thread_flags del: power_numeral power_0)
  have "sinv {} (boot ob)"
    by (auto simp: inv_defs boot_def armed_def thread_tests thread_ready_iff st q prio_sorted_def dl_inv_def)
  then show "sched_ok (boot ob)" by (simp add: sched_ok_def cache_ok_def next_up_eq boot_def thread_ready_iff st q)
  show "resched_ok (boot ob)" by (simp add: resched_ok_def boot_def)
qed


section \<open>Properties\<close>


text \<open>An interrupt wakes a sleeping thread of a higher priority.\<close>

definition preempting_isr :: "unit kstate" where
  "preempting_isr = k_wakeup 3 ((k_thread_create 3 (-1) 0 K_FOREVER (boot ()))\<lparr>in_isr := True\<rparr>)"

lemma preempting_isr_ok: "sched_ok preempting_isr"
proof -
  have "sched_ok (k_thread_create 3 (-1) 0 K_FOREVER (boot ()))"
    by (rule sched_ok_create [OF boot_ok(1)])
      (simp_all add: boot_def mk_thread_def timeout_fits_def z_is_thread_dead_def THREAD_DEAD_def)
  from sched_ok_wakeup(1) [OF sched_ok_set_isr [OF this], of 3] show ?thesis
    unfolding preempting_isr_def by (auto simp: k_thread_create_def thread_schedule_new_def
        z_setup_new_thread_def boot_def)
qed


text \<open>
  C9: \<^verbatim>\<open>k_yield\<close> moves the calling thread behind every ready thread of its own or a higher priority and
  leaves the order of the others alone; the first thread of the queue runs.
\<close>

theorem yield_round_robin:
  assumes "sched_ok s" and "\<not> in_isr s" and "current s \<noteq> idle_thread s"
  defines "s' \<equiv> snd (k_yield s)" and "rest \<equiv> remove1 (current s) (runq s)"
    and "before \<equiv> \<lambda>t. prio (threads s t) \<le> prio (threads s (current s))"
  shows "sched_ok s' \<and> runq s' = takeWhile before rest @ current s # dropWhile before rest \<and>
    (\<forall>t\<in>set rest. before t \<longrightarrow> t \<in> set (takeWhile before rest)) \<and> current s' = hd (runq s')"
proof -
  note i = sched_okD [OF assms(1)]
  have c: "current s \<in> set (runq s)" using sinvD(5) [OF i(1) i(3) [OF assms(2)]] assms(3) by simp
  have r: "runq s' = prio_insert (threads s) (current s) rest"
    using sinv_yield(2) [OF i(1) c] by (simp add: s'_def k_yield_def z_sched_yield_def do_swap_state rest_def)
  then have e: "runq s' = takeWhile before rest @ current s # dropWhile before rest"
    by (simp add: prio_insert_def insert_before_takeWhile before_def not_less)
  have "sorted_wrt (\<lambda>a b. prio (threads s a) \<le> prio (threads s b)) rest"
    using sinvD(7) [OF i(1)] sorted_prio_remove by (simp add: rest_def flip: prio_sorted_def)
  then have "\<forall>t\<in>set rest. before t \<longrightarrow> t \<in> set (takeWhile before rest)"
    unfolding before_def by (induction rest) (auto intro: order.trans)
  with e r sched_ok_yield(1,3) [OF assms(1-3)] show ?thesis by (simp add: s'_def rest_def)
qed

text \<open>Three ready threads of one priority.\<close>

definition three_threads :: "unit kstate" where
  "three_threads = k_thread_create 4 0 0 0 (k_thread_create 3 0 0 0 (boot ()))"

lemma three_threads_ok: "sched_ok three_threads"
proof -
  let ?s = "k_thread_create 3 0 0 0 (boot ())"
  have "sched_ok ?s"
    by (rule sched_ok_create [OF boot_ok(1)])
      (simp_all add: boot_def mk_thread_def timeout_fits_def elapsed_def u32_def this_cpu_announcing_def
        z_is_thread_dead_def THREAD_DEAD_def)
  moreover have e: "\<not> in_isr ?s" "z_is_thread_dead (threads ?s 4)" "4 \<noteq> dummy_thread ?s" by code_simp+
  moreover have "curr_tick ?s = 0" "elapsed ?s = 0" by code_simp+
  then have "timeout_fits 0 ?s" by (simp add: timeout_fits_def)
  ultimately show ?thesis unfolding three_threads_def by (rule sched_ok_create)
qed

theorem yield_round_robin_witness:
  "runq three_threads = [2, 3, 4] \<and> runq (snd (k_yield three_threads)) = [3, 4, 2] \<and>
   current (snd (k_yield three_threads)) = 3"
proof -
  have "\<not> in_isr three_threads" "current three_threads = 2" "idle_thread three_threads = 0"
    "runq three_threads = [2, 3, 4]" "prio (threads three_threads 2) = 0"
    "prio (threads three_threads 3) = 0" "prio (threads three_threads 4) = 0" by code_simp+
  then show ?thesis using yield_round_robin [OF three_threads_ok] by simp
qed


text \<open>
  A thread of priority 7 waits on semaphore 0; then the main thread, of priority 0, is woken by
  an interrupt and waits there too.
\<close>

definition low_waiting :: "unit kstate" where
  "low_waiting = snd (z_pend_curr (Some (WqSem 0)) K_FOREVER
     (snd (snd (k_sleep_ticks K_FOREVER (k_thread_create 3 7 0 0 (boot ()))))))"

definition two_waiters :: "unit kstate" where
  "two_waiters = snd (z_pend_curr (Some (WqSem 0)) K_FOREVER
     ((z_get_next_switch_handle (k_wakeup 2 (low_waiting\<lparr>in_isr := True\<rparr>)))\<lparr>in_isr := False\<rparr>))"

lemma two_waiters_ok: "sched_ok two_waiters"
proof -
  let ?a = "k_thread_create 3 7 0 0 (boot ())"
  have "sched_ok ?a"
    by (rule sched_ok_create [OF boot_ok(1)])
      (simp_all add: boot_def mk_thread_def timeout_fits_def elapsed_def u32_def this_cpu_announcing_def
        z_is_thread_dead_def THREAD_DEAD_def)
  moreover have "\<not> in_isr ?a" "current ?a \<noteq> idle_thread ?a" by code_simp+
  ultimately have "sched_ok (snd (snd (k_sleep_ticks K_FOREVER ?a)))" (is "sched_ok ?b")
    by (rule sched_ok_sleep) (simp_all add: timeout_fits_def)
  moreover have "\<not> in_isr ?b" "current ?b \<noteq> idle_thread ?b" by code_simp+
  ultimately have "sched_ok low_waiting" unfolding low_waiting_def
    by (rule pend_curr_rule) (simp_all add: timeout_fits_def)
  moreover have "2 \<noteq> idle_thread low_waiting" "2 \<noteq> dummy_thread low_waiting" by code_simp+
  ultimately have "sched_ok ((z_get_next_switch_handle (k_wakeup 2 (low_waiting\<lparr>in_isr := True\<rparr>)))\<lparr>in_isr := False\<rparr>)"
    (is "sched_ok ?c") using sched_ok_switch_handle(1) [OF sched_ok_wakeup(1) [OF sched_ok_set_isr], of low_waiting 2] by simp
  moreover have "\<not> in_isr ?c" "current ?c \<noteq> idle_thread ?c" by code_simp+
  ultimately show ?thesis unfolding two_waiters_def
    by (rule pend_curr_rule) (simp_all add: timeout_fits_def)
qed


text \<open>
  C12: \<^verbatim>\<open>k_thread_abort\<close> of a live thread leaves it dead and detached: on no queue, without a timeout, and with
  nobody waiting to join it.  Every thread that was joining it is off the wait queue with the
  result 0; a later \<^verbatim>\<open>k_thread_join\<close> returns 0 at once.
\<close>

theorem abort_wakes_joiners:
  assumes "sched_ok s" and "t \<noteq> idle_thread s" "t \<noteq> dummy_thread s" and "\<not> z_is_thread_dead (threads s t)"
    and "s' = snd (z_thread_abort t s)"
  shows "sched_ok s' \<and> z_is_thread_dead (threads s' t) \<and> \<not> z_is_thread_queued (threads s' t) \<and>
    pended_on (threads s' t) = None \<and> \<not> armed s' t \<and> waitq s' (WqJoin t) = [] \<and>
    k_thread_join t n s' = (Ret 0, s') \<and>
    (\<forall>u. pended_on (threads s u) = Some (WqJoin t) \<and> u \<noteq> t \<longrightarrow>
       pended_on (threads s' u) = None \<and> swap_retval (threads s' u) = 0 \<and>
       (z_is_thread_ready (threads s' u) \<longleftrightarrow> \<not> z_is_thread_suspended (threads s u) \<and>
          \<not> z_is_thread_sleeping (threads s u) \<and> \<not> is_thread_dummy (threads s u)))"
proof -
  note i = sched_okD [OF assms(1)]
  let ?h = "halt_thread t THREAD_DEAD s"
  note h = halt_dead_rule [OF i(1) assms(2,4,3)]
  have ok: "sched_ok s'" using sched_ok_abort [OF assms(1-3)] assms(5) by simp
  have u: "threads s' u = threads ?h u" if "u \<noteq> t" "\<not> RDY s u" for u
  proof -
    have "\<not> (u = current s \<and> \<not> in_isr s)" using that(2) i(3) by auto
    then show ?thesis using assms(4,5) that(1) h(7,8)
      by (auto simp: z_thread_abort_def z_thread_halt_def Let_def do_swap_def k_panic_def split: kres.splits)
  qed
  have d: "z_is_thread_dead (threads s' t)"
    using h(4,7,8) assms(4,5) thread_state_tests_cong(4) [of "(threads ?h t)\<lparr>swap_retval := - EAGAIN\<rparr>" "threads ?h t"]
    by (auto simp: z_thread_abort_def z_thread_halt_def Let_def do_swap_def k_panic_def split: kres.splits)
  have dt: "pended_on (threads s' t) = None \<and> \<not> armed s' t \<and> waitq s' (WqJoin t) = []"
    using sinvD(15) [OF sched_okD(1) [OF ok] d] by simp
  have nq: "\<not> z_is_thread_queued (threads s' t)"
    using sinvD(1,2) [OF sched_okD(1) [OF ok], of t] d by (auto simp: thread_ready_tests)
  have j: "pended_on (threads s' u) = None \<and> swap_retval (threads s' u) = 0 \<and>
      (z_is_thread_ready (threads s' u) \<longleftrightarrow> \<not> z_is_thread_suspended (threads s u) \<and>
          \<not> z_is_thread_sleeping (threads s u) \<and> \<not> is_thread_dummy (threads s u))"
    if p: "pended_on (threads s u) = Some (WqJoin t)" and n: "u \<noteq> t" for u
  proof -
    have nr: "\<not> RDY s u" using ready_not_pended [OF i(1), of u] p by auto
    have "\<not> z_is_thread_dead (threads s u)" using sinvD(15) [OF i(1), of u] p by auto
    then show ?thesis using h(13) [OF p n] u [OF n nr]
      by (simp add: waked_def thread_ready_tests keeps_stateD(4-10) [OF keeps_retval(2)])
  qed
  show ?thesis using ok d dt nq j k_thread_join_cases(1) [OF d] by blast
qed

theorem abort_wakes_joiners_witness:
  "let s = snd (k_thread_join 3 K_FOREVER three_threads); s' = snd (z_thread_abort 3 s)
   in pended_on (threads s 2) = Some (WqJoin 3) \<and> swap_retval (threads s' 2) = 0 \<and>
      z_is_thread_ready (threads s' 2) \<and> k_thread_join 3 10 s' = (Ret 0, s')"
proof -
  let ?s = "snd (k_thread_join 3 K_FOREVER three_threads)"
  have "\<not> in_isr three_threads" "current three_threads \<noteq> idle_thread three_threads" by code_simp+
  then have "sched_ok ?s" by (intro sched_ok_join(1) [OF three_threads_ok]) (simp_all add: timeout_fits_def)
  moreover have "3 \<noteq> idle_thread ?s" "3 \<noteq> dummy_thread ?s" "\<not> z_is_thread_dead (threads ?s 3)"
    "pended_on (threads ?s 2) = Some (WqJoin 3)" "\<not> z_is_thread_suspended (threads ?s 2)"
    "\<not> z_is_thread_sleeping (threads ?s 2)" "\<not> is_thread_dummy (threads ?s 2)" by code_simp+
  ultimately show ?thesis
    using abort_wakes_joiners [where s = ?s and t = 3 and n = 10] by (simp add: Let_def)
qed

text \<open>
  C13: a thread that sleeps for \<open>n\<close> ticks and runs again \<open>k\<close> ticks later gets from \<^verbatim>\<open>k_sleep\<close> the ticks
  that were left, 0 if the time was over, whatever the 32-bit tick counter wraps to in between.
\<close>

theorem sleep_returns_remaining:
  assumes "sched_ok s" and "\<not> in_isr s" "current s \<noteq> idle_thread s"
    and "0 < n" "n < 2 ^ 31 - 1" "0 \<le> k" "k < 2 ^ 31" "timeout_fits n s" "announcing_cpu s = -1"
    and "k_sleep_ticks n s = (expected, r, s')"
    and "sys_clock_tick_get s2 = sys_clock_tick_get s + k"
  shows "sched_ok s' \<and> r = Swapped \<and> z_is_thread_sleeping (threads s' (current s)) \<and> armed s' (current s) \<and>
    k_sleep_ticks_resume n expected s2 = max 0 (n + 1 - k)"
proof -
  let ?u = "unready_thread (current s) s"
  have ex: "expected = u32 (fst (z_add_thread_timeout (current s) n ?u))"
    using assms(4,10) by (simp add: k_sleep_ticks_def Let_def case_prod_unfold)
  have c: "curr_tick ?u = curr_tick s" "announcing_cpu ?u = -1" "elapsed ?u = elapsed s"
    using assms(9) by (simp_all add: elapsed_def this_cpu_announcing_def)
  have b: "0 \<le> curr_tick s" "curr_tick s + elapsed s + n + 1 < 2 ^ 63" "0 \<le> elapsed s"
    using sinvD(13) [OF sched_okD(1) [OF assms(1)]] assms(4,8) by (simp_all add: timeout_fits_def)
  have "s64 (n + elapsed s + 1) = n + elapsed s + 1" "s64 (curr_tick s + (n + elapsed s + 1)) = curr_tick s + (n + elapsed s + 1)"
    using b assms(4) by (intro s64_id; linarith)+
  then have fst: "fst (z_add_thread_timeout (current s) n ?u) = curr_tick s + (n + elapsed s + 1)"
    using assms(4) c by (simp add: z_add_thread_timeout_def z_add_timeout_def Let_def case_prod_unfold
        Z_IS_TIMEOUT_RELATIVE_def this_cpu_announcing_def)
  have "0 \<le> curr_tick s + elapsed s" "curr_tick s + elapsed s < 2 ^ 63" using b assms(4) by linarith+
  then have "u64 (curr_tick s + elapsed s) = curr_tick s + elapsed s" "s64 (curr_tick s + elapsed s) = curr_tick s + elapsed s"
    by (simp_all add: u64_id s64_id)
  then have tick: "sys_clock_tick_get s2 = curr_tick s + elapsed s + k"
    using assms(11) by (simp add: sys_clock_tick_get_def)
  have "u32 (expected - sys_clock_tick_get_32 s2) = u32 (n + 1 - k)"
    unfolding ex fst sys_clock_tick_get_32_def tick u32_def by (simp add: mod_diff_eq algebra_simps)
  moreover have "s32 (u32 (n + 1 - k)) = s32 (n + 1 - k)" by (simp add: s32_def u32_def mod_simps)
  moreover have "s32 (n + 1 - k) = n + 1 - k" using assms(4-7) by (intro s32_id) simp_all
  ultimately have "k_sleep_ticks_resume n expected s2 = max 0 (n + 1 - k)"
    using assms(4) by (simp add: k_sleep_ticks_resume_def Let_def)
  moreover have "n \<noteq> K_NO_WAIT" "n \<noteq> K_FOREVER" using assms(4) by simp_all
  ultimately show ?thesis using sched_ok_sleep [OF assms(1-3,8)] assms(10) by simp
qed

theorem sleep_returns_remaining_witness:
  "case k_sleep_ticks 10 three_threads of (expected, r, s') \<Rightarrow>
     r = Swapped \<and> k_sleep_ticks_resume 10 expected (three_threads\<lparr>curr_tick := 4\<rparr>) = 7"
proof -
  obtain e r s' where k: "k_sleep_ticks 10 three_threads = (e, r, s')" by (cases "k_sleep_ticks 10 three_threads") auto
  have "\<not> in_isr three_threads" "current three_threads \<noteq> idle_thread three_threads"
    "announcing_cpu three_threads = -1" "curr_tick three_threads = 0" "elapsed three_threads = 0"
    "sys_clock_tick_get three_threads = 0" "sys_clock_tick_get (three_threads\<lparr>curr_tick := 4\<rparr>) = 4" by code_simp+
  then show ?thesis
    using sleep_returns_remaining [OF three_threads_ok _ _ _ _ _ _ _ _ k, where k = 4 and ?s2.0 = "three_threads\<lparr>curr_tick := 4\<rparr>"]
    by (simp add: k timeout_fits_def)
qed

end
