(* ===== verification/Sys_Slist.thy ===== *)
theory Sys_Slist
  imports Prelude
begin

text \<open>
  Singly linked lists: the generators of \<^verbatim>\<open>include/zephyr/sys/list_gen.h\<close>, which are macros over a kind of node,
  and their two instances, plain nodes (\<^verbatim>\<open>sys/slist.h\<close>) and nodes that keep two flag bits in their next pointer
  (\<^verbatim>\<open>sys/sflist.h\<close>).  A node is a word of memory at its address; address 0 is the null pointer, addresses
  have 32 bits.
\<close>

unbundle bit_operations_syntax

section \<open>Operations\<close>

type_synonym wmem = "nat \<Rightarrow> nat"

record node_ops =
  next_peek :: "nat \<Rightarrow> wmem \<Rightarrow> nat"
  next_set :: "nat \<Rightarrow> nat \<Rightarrow> wmem \<Rightarrow> wmem"

record genlist =
  l_head :: nat
  l_tail :: nat

definition gl_init :: genlist where
  "gl_init = \<lparr>l_head = 0, l_tail = 0\<rparr>"

definition gl_is_empty :: "genlist \<Rightarrow> bool" where
  "gl_is_empty l \<longleftrightarrow> l_head l = 0"

definition gl_peek_next_no_check :: "node_ops \<Rightarrow> nat \<Rightarrow> wmem \<Rightarrow> nat" where
  "gl_peek_next_no_check N node w = next_peek N node w"

definition gl_peek_next :: "node_ops \<Rightarrow> nat \<Rightarrow> wmem \<Rightarrow> nat" where
  "gl_peek_next N node w = (if node \<noteq> 0 then gl_peek_next_no_check N node w else 0)"

definition gl_prepend :: "node_ops \<Rightarrow> nat \<Rightarrow> genlist \<times> wmem \<Rightarrow> genlist \<times> wmem" where
  "gl_prepend N node = (\<lambda>(l, w).
     let w1 = next_set N node (l_head l) w; l1 = l\<lparr>l_head := node\<rparr>
     in (if l_tail l1 = 0 then l1\<lparr>l_tail := l_head l1\<rparr> else l1, w1))"

definition gl_append :: "node_ops \<Rightarrow> nat \<Rightarrow> genlist \<times> wmem \<Rightarrow> genlist \<times> wmem" where
  "gl_append N node = (\<lambda>(l, w).
     let w1 = next_set N node 0 w
     in if l_tail l = 0 then (l\<lparr>l_tail := node, l_head := node\<rparr>, w1)
        else (l\<lparr>l_tail := node\<rparr>, next_set N (l_tail l) node w1))"

definition gl_append_list :: "node_ops \<Rightarrow> nat \<Rightarrow> nat \<Rightarrow> genlist \<times> wmem \<Rightarrow> genlist \<times> wmem" where
  "gl_append_list N hd' tl' = (\<lambda>(l, w).
     if hd' \<noteq> 0 \<and> tl' \<noteq> 0
     then (if l_tail l = 0 then (l\<lparr>l_head := hd', l_tail := tl'\<rparr>, w)
           else (l\<lparr>l_tail := tl'\<rparr>, next_set N (l_tail l) hd' w))
     else (l, w))"

definition gl_merge :: "node_ops \<Rightarrow> genlist \<Rightarrow> genlist \<times> wmem \<Rightarrow> (genlist \<times> wmem) \<times> genlist" where
  "gl_merge N list_to_append lw = (gl_append_list N (l_head list_to_append) (l_tail list_to_append) lw, gl_init)"

definition gl_insert :: "node_ops \<Rightarrow> nat \<Rightarrow> nat \<Rightarrow> genlist \<times> wmem \<Rightarrow> genlist \<times> wmem" where
  "gl_insert N prev node = (\<lambda>(l, w).
     if prev = 0 then gl_prepend N node (l, w)
     else if next_peek N prev w = 0 then gl_append N node (l, w)
     else (l, next_set N prev node (next_set N node (next_peek N prev w) w)))"

definition gl_get_not_empty :: "node_ops \<Rightarrow> genlist \<times> wmem \<Rightarrow> nat \<times> genlist \<times> wmem" where
  "gl_get_not_empty N = (\<lambda>(l, w).
     let node = l_head l; l1 = l\<lparr>l_head := next_peek N node w\<rparr>
     in (node, if l_tail l1 = node then l1\<lparr>l_tail := l_head l1\<rparr> else l1, w))"

definition gl_get :: "node_ops \<Rightarrow> genlist \<times> wmem \<Rightarrow> nat \<times> genlist \<times> wmem" where
  "gl_get N lw = (if gl_is_empty (fst lw) then (0, lw) else gl_get_not_empty N lw)"

definition gl_remove :: "node_ops \<Rightarrow> nat \<Rightarrow> nat \<Rightarrow> genlist \<times> wmem \<Rightarrow> genlist \<times> wmem" where
  "gl_remove N prev_node node = (\<lambda>(l, w).
     let (l2, w2) =
       (if prev_node = 0
        then let l1 = l\<lparr>l_head := next_peek N node w\<rparr>
             in (if l_tail l1 = node then l1\<lparr>l_tail := l_head l1\<rparr> else l1, w)
        else let w1 = next_set N prev_node (next_peek N node w) w
             in (if l_tail l = node then l\<lparr>l_tail := prev_node\<rparr> else l, w1))
     in (l2, next_set N node 0 w2))"

text \<open>The walk of the loops over all nodes; \<open>None\<close> if it does not end.\<close>

partial_function (option) gl_find_loop :: "node_ops \<Rightarrow> nat \<Rightarrow> nat \<Rightarrow> nat \<Rightarrow> wmem \<Rightarrow> (bool \<times> nat) option" where
  "gl_find_loop N node previous cur w =
     (if cur = 0 then Some (False, previous)
      else if cur = node then Some (True, previous)
      else gl_find_loop N node cur (gl_peek_next N cur w) w)"

definition gl_find_and_remove :: "node_ops \<Rightarrow> nat \<Rightarrow> genlist \<times> wmem \<Rightarrow> (bool \<times> genlist \<times> wmem) option" where
  "gl_find_and_remove N node lw =
     (case gl_find_loop N node 0 (l_head (fst lw)) (snd lw) of
        None \<Rightarrow> None
      | Some (found, prev) \<Rightarrow> Some (if found then (True, gl_remove N prev node lw) else (False, lw)))"

definition gl_find :: "node_ops \<Rightarrow> nat \<Rightarrow> genlist \<times> wmem \<Rightarrow> (bool \<times> nat) option" where
  "gl_find N node lw = gl_find_loop N node 0 (l_head (fst lw)) (snd lw)"

partial_function (option) gl_len_loop :: "node_ops \<Rightarrow> nat \<Rightarrow> nat \<Rightarrow> wmem \<Rightarrow> nat option" where
  "gl_len_loop N len node w =
     (if node = 0 then Some len else gl_len_loop N (Suc len) (gl_peek_next N node w) w)"

definition gl_len :: "node_ops \<Rightarrow> genlist \<times> wmem \<Rightarrow> nat option" where
  "gl_len N lw = gl_len_loop N 0 (l_head (fst lw)) (snd lw)"

subsection \<open>Plain nodes and nodes with flags\<close>

definition snode_ops :: node_ops where
  "snode_ops = \<lparr>next_peek = (\<lambda>node w. w node), next_set = (\<lambda>parent child w. w(parent := child))\<rparr>"

definition SYS_SFLIST_FLAGS_MASK :: nat where "SYS_SFLIST_FLAGS_MASK = 3"

definition sys_sfnode_flags_get :: "nat \<Rightarrow> wmem \<Rightarrow> nat" where
  "sys_sfnode_flags_get node w = w node AND SYS_SFLIST_FLAGS_MASK"

definition z_sfnode_next_peek :: "nat \<Rightarrow> wmem \<Rightarrow> nat" where
  "z_sfnode_next_peek node w = w node AND (2 ^ 32 - 1 - SYS_SFLIST_FLAGS_MASK)"

definition z_sfnode_next_set :: "nat \<Rightarrow> nat \<Rightarrow> wmem \<Rightarrow> wmem" where
  "z_sfnode_next_set parent child w = w(parent := sys_sfnode_flags_get parent w OR child)"

definition sys_sfnode_init :: "nat \<Rightarrow> nat \<Rightarrow> wmem \<Rightarrow> wmem" where
  "sys_sfnode_init node flags w = w(node := flags)"

definition sys_sfnode_flags_set :: "nat \<Rightarrow> nat \<Rightarrow> wmem \<Rightarrow> wmem" where
  "sys_sfnode_flags_set node flags w = w(node := z_sfnode_next_peek node w OR flags)"

definition sfnode_ops :: node_ops where
  "sfnode_ops = \<lparr>next_peek = z_sfnode_next_peek, next_set = z_sfnode_next_set\<rparr>"

section \<open>Lists in memory\<close>

fun lseg :: "node_ops \<Rightarrow> wmem \<Rightarrow> nat \<Rightarrow> nat list \<Rightarrow> nat \<Rightarrow> bool" where
  "lseg N w p [] q \<longleftrightarrow> p = q"
| "lseg N w p (x # xs) q \<longleftrightarrow> p = x \<and> x \<noteq> 0 \<and> lseg N w (next_peek N x w) xs q"

definition list_rep :: "node_ops \<Rightarrow> (nat \<Rightarrow> bool) \<Rightarrow> genlist \<times> wmem \<Rightarrow> nat list \<Rightarrow> bool" where
  "list_rep N valid = (\<lambda>(l, w) xs. lseg N w (l_head l) xs 0 \<and> distinct xs \<and> (\<forall>x \<in> set xs. valid x) \<and>
     l_tail l = (if xs = [] then 0 else last xs))"

lemma lseg_append: "lseg N w p (xs @ ys) q \<longleftrightarrow> (\<exists>r. lseg N w p xs r \<and> lseg N w r ys q)"
  by (induction xs arbitrary: p) auto

lemma lseg_nonzero: "lseg N w p xs q \<Longrightarrow> 0 \<notin> set xs"
  by (induction xs arbitrary: p) auto

lemma lseg_null: "lseg N w 0 xs q \<Longrightarrow> xs = [] \<and> q = 0"
  by (cases xs) auto

lemma lseg_head: "lseg N w p xs 0 \<Longrightarrow> p = (if xs = [] then 0 else hd xs)"
  by (cases xs) auto

lemma list_repD:
  assumes "list_rep N valid (l, w) xs"
  shows "lseg N w (l_head l) xs 0" "distinct xs" "x \<in> set xs \<Longrightarrow> valid x" "0 \<notin> set xs"
    "l_tail l = (if xs = [] then 0 else last xs)" "l_tail l = 0 \<longleftrightarrow> xs = []" "l_head l = (if xs = [] then 0 else hd xs)"
    "l_head l = 0 \<longleftrightarrow> xs = []"
proof -
  show l: "lseg N w (l_head l) xs 0" "distinct xs" "x \<in> set xs \<Longrightarrow> valid x"
    and t: "l_tail l = (if xs = [] then 0 else last xs)" using assms by (simp_all add: list_rep_def)
  show z: "0 \<notin> set xs" by (rule lseg_nonzero [OF l(1)])
  have "last xs \<noteq> 0" if "xs \<noteq> []" using z last_in_set [OF that] by metis
  then show "l_tail l = 0 \<longleftrightarrow> xs = []" using t by simp
  show h: "l_head l = (if xs = [] then 0 else hd xs)" by (rule lseg_head [OF l(1)])
  have "hd xs \<noteq> 0" if "xs \<noteq> []" using z hd_in_set [OF that] by metis
  then show "l_head l = 0 \<longleftrightarrow> xs = []" using h by simp
qed

lemma find_loop_lseg:
  "lseg N w p xs 0 \<Longrightarrow> gl_find_loop N node prev p w =
     Some (if node \<in> set xs then (True, last (prev # takeWhile (\<lambda>x. x \<noteq> node) xs)) else (False, last (prev # xs)))"
proof (induction xs arbitrary: p prev)
  case (Cons x xs)
  show ?case
  proof (cases "x = node")
    case True
    with Cons.prems show ?thesis by (subst gl_find_loop.simps) simp
  next
    case False
    have n: "gl_peek_next N x w = next_peek N x w" using Cons.prems by (simp add: gl_peek_next_def gl_peek_next_no_check_def)
    have "gl_find_loop N node prev p w = gl_find_loop N node x (next_peek N x w) w"
      using Cons.prems False n by (subst gl_find_loop.simps) simp
    with Cons.IH [of "next_peek N x w" x] Cons.prems False show ?thesis by auto
  qed
qed (subst gl_find_loop.simps; simp)

lemma len_loop_lseg: "lseg N w p xs 0 \<Longrightarrow> gl_len_loop N n p w = Some (n + length xs)"
proof (induction xs arbitrary: p n)
  case (Cons x xs)
  have n: "gl_peek_next N x w = next_peek N x w" using Cons.prems by (simp add: gl_peek_next_def gl_peek_next_no_check_def)
  have "gl_len_loop N n p w = gl_len_loop N (Suc n) (next_peek N x w) w"
    using Cons.prems n by (subst gl_len_loop.simps) simp
  with Cons.IH [of "next_peek N x w" "Suc n"] Cons.prems show ?case by simp
qed (subst gl_len_loop.simps; simp)

text \<open>What the generated list operations need of a kind of node.\<close>

locale gen_nodes =
  fixes N :: node_ops and valid :: "nat \<Rightarrow> bool"
  assumes peek_set: "valid c \<Longrightarrow> next_peek N p (next_set N p c w) = c"
    and peek_other: "q \<noteq> p \<Longrightarrow> next_peek N q (next_set N p c w) = next_peek N q w"
    and valid_null: "valid 0"
begin

lemma lseg_other: "q \<notin> set xs \<Longrightarrow> lseg N (next_set N q c w) p xs r \<longleftrightarrow> lseg N w p xs r"
  by (induction xs arbitrary: p) (auto simp: peek_other)

lemma rep_init: "list_rep N valid (gl_init, w) []"
  by (simp add: list_rep_def gl_init_def)

lemma rep_prepend:
  assumes "list_rep N valid (l, w) xs" "n \<noteq> 0" "valid n" "n \<notin> set xs"
  shows "list_rep N valid (gl_prepend N n (l, w)) (n # xs)"
proof -
  note d = list_repD [OF assms(1)]
  have v: "valid (l_head l)" using d(3,7) valid_null by (auto split: if_splits)
  show ?thesis using assms(2-4) d v
    by (auto simp: list_rep_def gl_prepend_def Let_def lseg_other peek_set)
qed

lemma rep_append:
  assumes "list_rep N valid (l, w) xs" "n \<noteq> 0" "valid n" "n \<notin> set xs"
  shows "list_rep N valid (gl_append N n (l, w)) (xs @ [n])"
proof (cases xs rule: rev_cases)
  case Nil
  with assms list_repD(6) [OF assms(1)] show ?thesis
    by (simp add: list_rep_def gl_append_def peek_set valid_null)
next
  case (snoc ys y)
  note d = list_repD [OF assms(1)]
  have y: "y \<noteq> 0" "y \<noteq> n" "y \<notin> set ys" "l_tail l = y" using d snoc assms(4) by auto
  have s: "lseg N w (l_head l) ys y" "next_peek N y w = 0" using d(1) snoc by (auto simp: lseg_append)
  let ?w = "next_set N y n (next_set N n 0 w)"
  have "lseg N ?w (l_head l) ys y" using s(1) y snoc assms(4) by (simp add: lseg_other)
  moreover have "lseg N ?w y [y, n] 0" using y assms(2,3) by (simp add: peek_set peek_other valid_null)
  ultimately have "lseg N ?w (l_head l) (ys @ [y, n]) 0" unfolding lseg_append by blast
  with y snoc assms d show ?thesis by (auto simp: list_rep_def gl_append_def Let_def)
qed

lemma rep_append_list:
  assumes "list_rep N valid (l, w) xs" "lseg N w h ys 0" "distinct ys" "set xs \<inter> set ys = {}" "\<forall>y \<in> set ys. valid y"
    "ys \<noteq> [] \<Longrightarrow> t = last ys"
  shows "list_rep N valid (gl_append_list N h t (l, w)) (xs @ ys)"
proof (cases "ys = []")
  case True
  with assms(1) lseg_head [OF assms(2)] show ?thesis by (simp add: gl_append_list_def)
next
  case ne: False
  note d = list_repD [OF assms(1)]
  have h: "h = hd ys" "h \<noteq> 0" "t \<noteq> 0" "valid h"
    using lseg_head [OF assms(2)] lseg_nonzero [OF assms(2)] ne assms(5,6) hd_in_set [OF ne] last_in_set [OF ne] by metis+
  show ?thesis
  proof (cases xs rule: rev_cases)
    case Nil
    with d(6) assms ne h show ?thesis by (simp add: list_rep_def gl_append_list_def)
  next
    case (snoc zs z)
    have z: "z \<noteq> 0" "z \<notin> set zs" "z \<notin> set ys" "l_tail l = z" using d snoc assms(4) by auto
    have s: "lseg N w (l_head l) zs z" using d(1) snoc by (auto simp: lseg_append)
    let ?w = "next_set N z h w"
    have "lseg N ?w (l_head l) zs z" "lseg N ?w z [z] h" "lseg N ?w h ys 0"
      using s z h assms(2) by (simp_all add: lseg_other peek_set)
    then have "lseg N ?w (l_head l) (zs @ [z] @ ys) 0" unfolding lseg_append by blast
    with z snoc assms d ne h show ?thesis by (auto simp: list_rep_def gl_append_list_def)
  qed
qed

lemma rep_insert:
  assumes "list_rep N valid (l, w) (xs @ p # ys)" "n \<noteq> 0" "valid n" "n \<notin> set (xs @ p # ys)"
  shows "list_rep N valid (gl_insert N p n (l, w)) (xs @ p # n # ys)"
proof -
  note d = list_repD [OF assms(1)]
  have p: "p \<noteq> 0" "p \<noteq> n" "p \<notin> set xs" "p \<notin> set ys" using d(2,4) assms(4) by auto
  have s: "lseg N w (l_head l) xs p" "lseg N w (next_peek N p w) ys 0" using d(1) by (auto simp: lseg_append)
  show ?thesis
  proof (cases "ys = []")
    case True
    with s p rep_append [OF assms] show ?thesis by (simp add: gl_insert_def)
  next
    case False
    let ?q = "next_peek N p w"
    have e: "?q = hd ys" using lseg_head [OF s(2)] False by simp
    have q: "?q \<noteq> 0" "valid ?q"
      using lseg_nonzero [OF s(2)] hd_in_set [OF False] d(3) [of "hd ys"] unfolding e by (metis, simp)
    let ?w = "next_set N p n (next_set N n ?q w)"
    have "lseg N ?w (l_head l) xs p" "lseg N ?w p [p, n] ?q" "lseg N ?w ?q ys 0"
      using s p q assms(2-4) by (simp_all add: lseg_other peek_set peek_other)
    then have "lseg N ?w (l_head l) (xs @ [p, n] @ ys) 0" unfolding lseg_append by blast
    with p q assms d False show ?thesis by (auto simp: list_rep_def gl_insert_def)
  qed
qed

lemma rep_get:
  assumes "list_rep N valid (l, w) (x # xs)"
  shows "fst (gl_get N (l, w)) = x" "list_rep N valid (snd (gl_get N (l, w))) xs" "snd (snd (gl_get N (l, w))) = w"
proof -
  note d = list_repD [OF assms]
  have t: "l_tail l = x \<longleftrightarrow> xs = []" using d(2,5) by auto
  have h: "next_peek N x w = 0 \<longleftrightarrow> xs = []" using d(1) lseg_null lseg_head [of N w "next_peek N x w" xs] by (cases xs) auto
  show "fst (gl_get N (l, w)) = x" "snd (snd (gl_get N (l, w))) = w"
    using d by (simp_all add: gl_get_def gl_is_empty_def gl_get_not_empty_def Let_def)
  show "list_rep N valid (snd (gl_get N (l, w))) xs" using d t h
    by (auto simp: gl_get_def gl_is_empty_def gl_get_not_empty_def Let_def list_rep_def)
qed

lemma rep_remove:
  assumes "list_rep N valid (l, w) (xs @ x # ys)"
  shows "list_rep N valid (gl_remove N (last (0 # xs)) x (l, w)) (xs @ ys)"
proof -
  note d = list_repD [OF assms]
  have x: "x \<noteq> 0" "x \<notin> set xs" "x \<notin> set ys" using d(2,4) by auto
  have s: "lseg N w (l_head l) xs x" "lseg N w (next_peek N x w) ys 0" using d(1) by (auto simp: lseg_append)
  have t: "l_tail l = x \<longleftrightarrow> ys = []" using d(2,5) x by (auto split: if_splits)
  have nz: "next_peek N x w = 0 \<longleftrightarrow> ys = []" using lseg_head [OF s(2)] lseg_nonzero [OF s(2)] by (cases ys) auto
  have v: "valid (next_peek N x w)" using lseg_head [OF s(2)] d(3) valid_null by (cases ys) auto
  show ?thesis
  proof (cases xs rule: rev_cases)
    case Nil
    with s x t nz d show ?thesis by (auto simp: gl_remove_def Let_def list_rep_def lseg_other)
  next
    case (snoc zs z)
    have z: "z \<noteq> 0" "z \<noteq> x" "z \<notin> set zs" "z \<notin> set ys" using d(2,4) snoc by auto
    have sz: "lseg N w (l_head l) zs z" using s(1) snoc by (auto simp: lseg_append)
    let ?w = "next_set N x 0 (next_set N z (next_peek N x w) w)"
    have "lseg N ?w (l_head l) zs z" "lseg N ?w z [z] (next_peek N x w)" "lseg N ?w (next_peek N x w) ys 0"
      using sz s(2) z x v snoc by (simp_all add: lseg_other peek_set peek_other)
    then have "lseg N ?w (l_head l) (zs @ [z] @ ys) 0" unfolding lseg_append by blast
    with z snoc d t show ?thesis by (auto simp: gl_remove_def Let_def list_rep_def)
  qed
qed

lemma rep_find_and_remove:
  assumes "list_rep N valid (l, w) xs"
  shows "\<exists>lw. gl_find_and_remove N x (l, w) = Some (x \<in> set xs, lw) \<and> list_rep N valid lw (remove1 x xs)"
proof -
  note f = find_loop_lseg [OF list_repD(1) [OF assms], of x 0]
  show ?thesis
  proof (cases "x \<in> set xs")
    case True
    then obtain ys zs where e: "xs = ys @ x # zs" "x \<notin> set ys" by (metis split_list_first)
    have t: "takeWhile (\<lambda>y. y \<noteq> x) xs = ys" unfolding e(1) using e(2) by (induction ys) auto
    have "remove1 x xs = ys @ zs" using e by (simp add: remove1_append)
    moreover have "gl_find_loop N x 0 (l_head l) w = Some (True, last (0 # ys))" using f True t by simp
    moreover have "list_rep N valid (gl_remove N (last (0 # ys)) x (l, w)) (ys @ zs)"
      using assms unfolding e(1) by (rule rep_remove)
    ultimately show ?thesis using True by (simp add: gl_find_and_remove_def)
  next
    case False
    with f assms show ?thesis by (simp add: gl_find_and_remove_def remove1_idem)
  qed
qed

lemma rep_len: "list_rep N valid (l, w) xs \<Longrightarrow> gl_len N (l, w) = Some (length xs)"
  using len_loop_lseg [OF list_repD(1)] by (simp add: gl_len_def)

end

interpretation sl: gen_nodes snode_ops "\<lambda>_. True"
  by unfold_locales (simp_all add: snode_ops_def)

text \<open>A pointer that leaves room for the flags.\<close>

definition sf_aligned :: "nat \<Rightarrow> bool" where
  "sf_aligned p \<longleftrightarrow> 4 dvd p \<and> p < 2 ^ 32"

lemma bit_3: "bit (3 :: nat) n \<longleftrightarrow> n < 2"
proof -
  have "(3 :: nat) = mask 2" by (simp add: mask_eq_exp_minus_1)
  then show ?thesis by (simp only: bit_mask_iff) (simp add: possible_bit_def)
qed

lemma bit_not_3: "bit (4294967292 :: nat) n \<longleftrightarrow> 2 \<le> n \<and> n < 32"
proof -
  have "(4294967292 :: nat) = push_bit 2 (mask 30)" by (simp add: mask_eq_exp_minus_1 push_bit_eq_mult)
  then show ?thesis by (simp only: bit_push_bit_iff bit_mask_iff) (auto simp: possible_bit_def)
qed

lemma sf_alignedD:
  assumes "sf_aligned p"
  shows "bit p n \<Longrightarrow> 2 \<le> n \<and> n < 32"
proof -
  assume b: "bit p n"
  have "take_bit 2 p = 0" using assms by (simp add: sf_aligned_def take_bit_eq_mod dvd_eq_mod_eq_0)
  with b have "2 \<le> n" by (metis bit_take_bit_iff not_le bit_0_eq bot_apply bot_bool_def)
  moreover have "take_bit 32 p = p" using assms by (simp add: sf_aligned_def take_bit_eq_mod)
  with b have "n < 32" by (metis bit_take_bit_iff)
  ultimately show ?thesis by simp
qed

lemma sf_next_set:
  "sf_aligned c \<Longrightarrow> z_sfnode_next_peek p (z_sfnode_next_set p c w) = c"
  "q \<noteq> p \<Longrightarrow> z_sfnode_next_peek q (z_sfnode_next_set p c w) = z_sfnode_next_peek q w"
  "sf_aligned c \<Longrightarrow> sys_sfnode_flags_get q (z_sfnode_next_set p c w) = sys_sfnode_flags_get q w"
proof -
  assume c: "sf_aligned c"
  show "z_sfnode_next_peek p (z_sfnode_next_set p c w) = c"
    by (rule bit_eqI) (use sf_alignedD [OF c] in \<open>auto simp: z_sfnode_next_peek_def z_sfnode_next_set_def
      sys_sfnode_flags_get_def SYS_SFLIST_FLAGS_MASK_def bit_and_iff bit_or_iff bit_3 bit_not_3\<close>)
  have "(w p AND 3 OR c) AND 3 = w p AND 3"
    by (rule bit_eqI) (auto dest: sf_alignedD [OF c] simp: bit_and_iff bit_or_iff bit_3)
  then show "sys_sfnode_flags_get q (z_sfnode_next_set p c w) = sys_sfnode_flags_get q w"
    by (simp add: z_sfnode_next_set_def sys_sfnode_flags_get_def SYS_SFLIST_FLAGS_MASK_def)
qed (simp add: z_sfnode_next_peek_def z_sfnode_next_set_def)

interpretation sfl: gen_nodes sfnode_ops sf_aligned
  by unfold_locales (simp_all add: sfnode_ops_def sf_next_set sf_aligned_def [of 0])

section \<open>Property\<close>

datatype gl_op = GPrepend nat | GAppend nat | GInsert nat nat | GGet | GRemove nat

fun gl_exec :: "node_ops \<Rightarrow> gl_op \<Rightarrow> genlist \<times> wmem \<Rightarrow> (nat \<times> genlist \<times> wmem) option" where
  "gl_exec N (GPrepend n) lw = Some (0, gl_prepend N n lw)"
| "gl_exec N (GAppend n) lw = Some (0, gl_append N n lw)"
| "gl_exec N (GInsert p n) lw = Some (0, gl_insert N p n lw)"
| "gl_exec N GGet lw = Some (gl_get N lw)"
| "gl_exec N (GRemove n) lw = map_option (map_prod of_bool id) (gl_find_and_remove N n lw)"

fun insert_after :: "'a \<Rightarrow> 'a \<Rightarrow> 'a list \<Rightarrow> 'a list" where
  "insert_after p n [] = []"
| "insert_after p n (x # xs) = (if x = p then x # n # xs else x # insert_after p n xs)"

fun gl_spec :: "gl_op \<Rightarrow> nat list \<Rightarrow> nat \<times> nat list" where
  "gl_spec (GPrepend n) xs = (0, n # xs)"
| "gl_spec (GAppend n) xs = (0, xs @ [n])"
| "gl_spec (GInsert p n) xs = (0, insert_after p n xs)"
| "gl_spec GGet xs = (case xs of [] \<Rightarrow> (0, []) | y # ys \<Rightarrow> (y, ys))"
| "gl_spec (GRemove n) xs = (of_bool (n \<in> set xs), remove1 n xs)"

fun gl_args_ok :: "(nat \<Rightarrow> bool) \<Rightarrow> gl_op \<Rightarrow> nat list \<Rightarrow> bool" where
  "gl_args_ok valid (GPrepend n) xs \<longleftrightarrow> n \<noteq> 0 \<and> valid n \<and> n \<notin> set xs"
| "gl_args_ok valid (GAppend n) xs \<longleftrightarrow> n \<noteq> 0 \<and> valid n \<and> n \<notin> set xs"
| "gl_args_ok valid (GInsert p n) xs \<longleftrightarrow> p \<in> set xs \<and> n \<noteq> 0 \<and> valid n \<and> n \<notin> set xs"
| "gl_args_ok valid _ xs \<longleftrightarrow> True"

lemma insert_after_split: "p \<notin> set xs \<Longrightarrow> insert_after p n (xs @ p # ys) = xs @ p # n # ys"
  by (induction xs) auto

text \<open>Nodes with data that setting the next pointer leaves alone.\<close>

locale flag_nodes = gen_nodes +
  fixes flags :: "nat \<Rightarrow> wmem \<Rightarrow> nat"
  assumes flags_set: "valid c \<Longrightarrow> flags q (next_set N p c w) = flags q w"
begin

lemma step:
  assumes r: "list_rep N valid (l, w) xs" and a: "gl_args_ok valid op xs"
  shows "\<exists>l' w'. gl_exec N op (l, w) = Some (fst (gl_spec op xs), l', w') \<and> list_rep N valid (l', w') (snd (gl_spec op xs)) \<and>
    (\<forall>q. flags q w' = flags q w)"
proof -
  note d = list_repD [OF r]
  have v: "valid (l_head l)" "valid (l_tail l)" using d(3,5,7) valid_null by (auto split: if_splits)
  have nx: "valid (next_peek N x w)" if x: "x \<in> set xs" for x
  proof -
    obtain ys zs where e: "xs = ys @ x # zs" using x by (metis split_list)
    then have "lseg N w (next_peek N x w) zs 0" using d(1) by (auto simp: lseg_append)
    from lseg_head [OF this] d(3) e valid_null show ?thesis by (cases zs) auto
  qed
  show ?thesis
  proof (cases op)
    case (GPrepend n)
    with rep_prepend [OF r] a v show ?thesis by (auto simp: gl_prepend_def Let_def flags_set split: if_splits)
  next
    case (GAppend n)
    with rep_append [OF r] a v show ?thesis by (auto simp: gl_append_def Let_def flags_set valid_null split: if_splits)
  next
    case (GInsert p n)
    then have p: "p \<in> set xs" "n \<noteq> 0" "valid n" "n \<notin> set xs" using a by auto
    obtain ys zs where e: "xs = ys @ p # zs" "p \<notin> set ys" using p(1) by (metis split_list_first)
    have "p \<noteq> 0" using p(1) d(4) by metis
    with GInsert rep_insert [of l w ys p zs n] r p e insert_after_split [OF e(2), of n zs] nx [OF p(1)] v show ?thesis
      by (auto simp: gl_insert_def gl_append_def Let_def flags_set valid_null split: if_splits)
  next
    case GGet
    show ?thesis
    proof (cases xs)
      case Nil
      with GGet r d(8) show ?thesis by (simp add: gl_get_def gl_is_empty_def)
    next
      case (Cons y ys)
      note g = rep_get [OF r [unfolded Cons]]
      obtain l' where "gl_get N (l, w) = (y, l', w)" using g(1,3) by (metis prod.exhaust_sel)
      with GGet Cons g(2) show ?thesis by simp
    qed
  next
    case (GRemove n)
    obtain l' w' where f: "gl_find_and_remove N n (l, w) = Some (n \<in> set xs, l', w')" "list_rep N valid (l', w') (remove1 n xs)"
      using rep_find_and_remove [OF r, of n] by (metis prod.exhaust_sel)
    have k: "flags q (snd (gl_remove N pv n (l, w))) = flags q w" if "n \<in> set xs" for q pv
      using nx [OF that] by (simp add: gl_remove_def Let_def flags_set valid_null)
    have "flags q w' = flags q w" for q
    proof (cases "n \<in> set xs")
      case True
      with f(1) obtain pv where "gl_remove N pv n (l, w) = (l', w')"
        by (auto simp: gl_find_and_remove_def split: option.splits if_splits)
      with k [OF True, of q pv] show ?thesis by simp
    next
      case False
      with f(1) show ?thesis by (auto simp: gl_find_and_remove_def split: option.splits if_splits)
    qed
    with GRemove f show ?thesis by simp
  qed
qed

end

interpretation sff: flag_nodes sfnode_ops sf_aligned sys_sfnode_flags_get
  by unfold_locales (simp add: sfnode_ops_def sf_next_set)

text \<open>
  C22: the operations of a flagged singly linked list in memory (prepend, append, insert after a
  node, get, find and remove) are those of a list of distinct nodes; the walk of \<^verbatim>\<open>find_and_remove\<close> ends, and the flags
  that share a word with the next pointer are never disturbed.
\<close>

theorem sflist_refines_list:
  assumes "list_rep sfnode_ops sf_aligned (l, w) xs" and "gl_args_ok sf_aligned op xs"
  shows "\<exists>l' w'. gl_exec sfnode_ops op (l, w) = Some (fst (gl_spec op xs), l', w') \<and>
    list_rep sfnode_ops sf_aligned (l', w') (snd (gl_spec op xs)) \<and>
    (\<forall>q. sys_sfnode_flags_get q w' = sys_sfnode_flags_get q w)"
  using assms by (rule sff.step)

theorem sflist_refines_list_witness:
  "\<exists>l' w'. gl_exec sfnode_ops (GAppend 24) (\<lparr>l_head = 16, l_tail = 8\<rparr>, (\<lambda>_. 0)(16 := 9, 24 := 2)) = Some (0, l', w') \<and>
    list_rep sfnode_ops sf_aligned (l', w') [16, 8, 24] \<and> sys_sfnode_flags_get 16 w' = 1 \<and> sys_sfnode_flags_get 24 w' = 2"
proof -
  let ?w = "(\<lambda>_. 0)(16 := 9, 24 := 2) :: wmem"
  have "z_sfnode_next_peek 16 ?w = 8" "z_sfnode_next_peek 8 ?w = 0"
    by (simp_all add: z_sfnode_next_peek_def SYS_SFLIST_FLAGS_MASK_def)
  then have r: "list_rep sfnode_ops sf_aligned (\<lparr>l_head = 16, l_tail = 8\<rparr>, ?w) [16, 8]"
    by (simp add: list_rep_def sfnode_ops_def sf_aligned_def)
  have a: "gl_args_ok sf_aligned (GAppend 24) [16, 8]" by (simp add: sf_aligned_def)
  have f: "sys_sfnode_flags_get 16 ?w = 1" "sys_sfnode_flags_get 24 ?w = 2"
    by (simp_all add: sys_sfnode_flags_get_def SYS_SFLIST_FLAGS_MASK_def)
  obtain l' w' where o: "gl_exec sfnode_ops (GAppend 24) (\<lparr>l_head = 16, l_tail = 8\<rparr>, ?w) = Some (0, l', w')"
    "list_rep sfnode_ops sf_aligned (l', w') [16, 8, 24]" "\<And>q. sys_sfnode_flags_get q w' = sys_sfnode_flags_get q ?w"
    using sflist_refines_list [OF r a] unfolding gl_spec.simps fst_conv snd_conv append.simps by blast
  show ?thesis by (intro exI conjI) (rule o(1), rule o(2), unfold o(3), rule f(1), rule f(2))
qed

end
