(* ===== verification/Ring_Buffer.thy ===== *)
theory Ring_Buffer
  imports Prelude
begin

text \<open>
  The byte ring buffer of \<^verbatim>\<open>lib/utils/ring_buffer.c\<close> and \<^verbatim>\<open>include/zephyr/sys/ring_buffer.h\<close>, in the default configuration
  with 16-bit indices.  The indices only ever grow and wrap at the width of the type; \<^verbatim>\<open>base\<close> is the value of the
  index at which the buffer last started over.  The buffer and the caller's data live in one byte memory; the null
  pointer is address 0.
\<close>

section \<open>Data\<close>

record ring_buf_index =
  r_head :: "16 word"
  r_tail :: "16 word"
  r_base :: "16 word"

record ring_buf =
  rb_buffer :: nat
  rb_put :: ring_buf_index
  rb_get :: ring_buf_index
  rb_size :: nat

definition RING_BUFFER_MAX_SIZE :: nat where "RING_BUFFER_MAX_SIZE = 65535 div 2"

section \<open>Operations\<close>

definition ring_buf_internal_reset :: "16 word \<Rightarrow> ring_buf \<Rightarrow> ring_buf" where
  "ring_buf_internal_reset value buf =
     buf\<lparr>rb_put := \<lparr>r_head = value, r_tail = value, r_base = value\<rparr>,
         rb_get := \<lparr>r_head = value, r_tail = value, r_base = value\<rparr>\<rparr>"

definition ring_buf_init :: "nat \<Rightarrow> nat \<Rightarrow> ring_buf \<Rightarrow> ring_buf" where
  "ring_buf_init sz data buf = ring_buf_internal_reset 0 (buf\<lparr>rb_size := sz, rb_buffer := data\<rparr>)"

definition ring_buf_is_empty :: "ring_buf \<Rightarrow> bool" where
  "ring_buf_is_empty buf \<longleftrightarrow> r_head (rb_get buf) = r_tail (rb_put buf)"

definition ring_buf_reset :: "ring_buf \<Rightarrow> ring_buf" where
  "ring_buf_reset buf = ring_buf_internal_reset 0 buf"

definition ring_buf_space_get :: "ring_buf \<Rightarrow> nat" where
  "ring_buf_space_get buf =
     (let allocated = r_head (rb_put buf) - r_tail (rb_get buf)
      in (rb_size buf + 2 ^ 32 - unat allocated) mod 2 ^ 32)"

definition ring_buf_capacity_get :: "ring_buf \<Rightarrow> nat" where
  "ring_buf_capacity_get buf = rb_size buf"

definition ring_buf_size_get :: "ring_buf \<Rightarrow> nat" where
  "ring_buf_size_get buf = unat (r_tail (rb_put buf) - r_head (rb_get buf))"

definition ring_buf_area_claim :: "ring_buf \<Rightarrow> ring_buf_index \<Rightarrow> nat \<Rightarrow> nat \<times> nat \<times> ring_buf_index" where
  "ring_buf_area_claim buf ring sz =
     (let ho = r_head ring - r_base ring;
          head_offset = (if unat ho \<ge> rb_size buf then ho - of_nat (rb_size buf) else ho);
          wrap_size = (of_nat (rb_size buf) - head_offset :: 16 word);
          sz1 = min sz (unat wrap_size)
      in (sz1, rb_buffer buf + unat head_offset, ring\<lparr>r_head := r_head ring + of_nat sz1\<rparr>))"

definition ring_buf_area_finish :: "ring_buf \<Rightarrow> ring_buf_index \<Rightarrow> nat \<Rightarrow> int \<times> ring_buf_index" where
  "ring_buf_area_finish buf ring sz =
     (let claimed_size = r_head ring - r_tail ring
      in if sz > unat claimed_size then (- EINVAL, ring)
         else
           let ring1 = ring\<lparr>r_tail := r_tail ring + of_nat sz, r_head := r_tail ring + of_nat sz\<rparr>;
               tail_offset = r_tail ring1 - r_base ring1
           in (0, if unat tail_offset \<ge> rb_size buf
                  then ring1\<lparr>r_base := r_base ring1 + of_nat (rb_size buf)\<rparr> else ring1))"

definition ring_buf_put_claim :: "ring_buf \<Rightarrow> nat \<Rightarrow> nat \<times> nat \<times> ring_buf" where
  "ring_buf_put_claim buf sz =
     (let space = ring_buf_space_get buf;
          (n, data, ring) = ring_buf_area_claim buf (rb_put buf) (min sz space)
      in (n, data, buf\<lparr>rb_put := ring\<rparr>))"

definition ring_buf_put_finish :: "ring_buf \<Rightarrow> nat \<Rightarrow> int \<times> ring_buf" where
  "ring_buf_put_finish buf sz =
     (let (r, ring) = ring_buf_area_finish buf (rb_put buf) sz in (r, buf\<lparr>rb_put := ring\<rparr>))"

definition ring_buf_get_claim :: "ring_buf \<Rightarrow> nat \<Rightarrow> nat \<times> nat \<times> ring_buf" where
  "ring_buf_get_claim buf sz =
     (let buf_size = ring_buf_size_get buf;
          (n, data, ring) = ring_buf_area_claim buf (rb_get buf) (min sz buf_size)
      in (n, data, buf\<lparr>rb_get := ring\<rparr>))"

definition ring_buf_get_finish :: "ring_buf \<Rightarrow> nat \<Rightarrow> int \<times> ring_buf" where
  "ring_buf_get_finish buf sz =
     (let (r, ring) = ring_buf_area_finish buf (rb_get buf) sz in (r, buf\<lparr>rb_get := ring\<rparr>))"

text \<open>The copy loops: \<open>sz\<close> bytes are still to be copied, \<open>total_size\<close> have been.\<close>

function put_loop :: "ring_buf \<Rightarrow> nat \<Rightarrow> nat \<Rightarrow> nat \<Rightarrow> bmem \<Rightarrow> nat \<times> ring_buf \<times> bmem" where
  "put_loop buf data sz total_size mm =
     (let (partial_size, dst, buf1) = ring_buf_put_claim buf sz
      in if partial_size = 0 then (total_size, buf1, mm)
         else let mm1 = memcpy dst data partial_size mm
              in if sz - partial_size \<noteq> 0
                 then put_loop buf1 (data + partial_size) (sz - partial_size) (total_size + partial_size) mm1
                 else (total_size + partial_size, buf1, mm1))"
  by pat_completeness auto

termination put_loop
  by (relation "measure (\<lambda>(buf, data, sz, total_size, mm). sz)") auto

declare put_loop.simps [simp del]

definition ring_buf_put :: "ring_buf \<Rightarrow> nat \<Rightarrow> nat \<Rightarrow> bmem \<Rightarrow> nat \<times> ring_buf \<times> bmem" where
  "ring_buf_put buf data sz mm =
     (let (total_size, buf1, mm1) = put_loop buf data sz 0 mm
      in (total_size, snd (ring_buf_put_finish buf1 total_size), mm1))"

function get_loop :: "ring_buf \<Rightarrow> nat \<Rightarrow> nat \<Rightarrow> nat \<Rightarrow> bmem \<Rightarrow> nat \<times> ring_buf \<times> bmem" where
  "get_loop buf data sz total_size mm =
     (let (partial_size, src, buf1) = ring_buf_get_claim buf sz
      in if partial_size = 0 then (total_size, buf1, mm)
         else let mm1 = (if data \<noteq> 0 then memcpy data src partial_size mm else mm);
                  data1 = (if data \<noteq> 0 then data + partial_size else data)
              in if sz - partial_size \<noteq> 0
                 then get_loop buf1 data1 (sz - partial_size) (total_size + partial_size) mm1
                 else (total_size + partial_size, buf1, mm1))"
  by pat_completeness auto

termination get_loop
  by (relation "measure (\<lambda>(buf, data, sz, total_size, mm). sz)") auto

declare get_loop.simps [simp del]

definition ring_buf_get :: "ring_buf \<Rightarrow> nat \<Rightarrow> nat \<Rightarrow> bmem \<Rightarrow> nat \<times> ring_buf \<times> bmem" where
  "ring_buf_get buf data sz mm =
     (let (total_size, buf1, mm1) = get_loop buf data sz 0 mm
      in (total_size, snd (ring_buf_get_finish buf1 total_size), mm1))"

text \<open>\<^verbatim>\<open>ring_buf_peek\<close> must not be called with a null pointer, so its loop is the one of \<^verbatim>\<open>ring_buf_get\<close>.\<close>

definition ring_buf_peek :: "ring_buf \<Rightarrow> nat \<Rightarrow> nat \<Rightarrow> bmem \<Rightarrow> nat \<times> ring_buf \<times> bmem" where
  "ring_buf_peek buf data sz mm =
     (let (total_size, buf1, mm1) = get_loop buf data sz 0 mm
      in (total_size, snd (ring_buf_get_finish buf1 0), mm1))"

definition ring_buf_put_ptr :: "ring_buf \<Rightarrow> nat \<Rightarrow> nat \<times> nat" where
  "ring_buf_put_ptr buf offset =
     (let ring = rb_put buf;
          ho = r_head ring - r_base ring + of_nat offset;
          head_offset = (if unat ho \<ge> rb_size buf then ho - of_nat (rb_size buf) else ho);
          space = (of_nat (ring_buf_space_get buf) - of_nat offset :: 16 word);
          wrap_size = (of_nat (rb_size buf) - head_offset :: 16 word)
      in (min (unat space) (unat wrap_size), rb_buffer buf + unat head_offset))"

definition ring_buf_commit :: "ring_buf \<Rightarrow> nat \<Rightarrow> ring_buf" where
  "ring_buf_commit buf sz =
     (let ring = rb_put buf;
          ring1 = ring\<lparr>r_tail := r_tail ring + of_nat sz, r_head := r_tail ring + of_nat sz\<rparr>;
          tail_offset = r_tail ring1 - r_base ring1
      in buf\<lparr>rb_put := if unat tail_offset \<ge> rb_size buf
               then ring1\<lparr>r_base := r_base ring1 + of_nat (rb_size buf)\<rparr> else ring1\<rparr>)"

definition ring_buf_get_ptr :: "ring_buf \<Rightarrow> nat \<Rightarrow> nat \<times> nat" where
  "ring_buf_get_ptr buf offset =
     (let ring = rb_get buf;
          ho = r_head ring - r_base ring + of_nat offset;
          head_offset = (if unat ho \<ge> rb_size buf then ho - of_nat (rb_size buf) else ho);
          sz = (of_nat (ring_buf_size_get buf) - of_nat offset :: 16 word);
          wrap_size = (of_nat (rb_size buf) - head_offset :: 16 word)
      in (min (unat sz) (unat wrap_size), rb_buffer buf + unat head_offset))"

definition ring_buf_consume :: "ring_buf \<Rightarrow> nat \<Rightarrow> ring_buf" where
  "ring_buf_consume buf sz =
     (let ring = rb_get buf;
          ring1 = ring\<lparr>r_tail := r_tail ring + of_nat sz, r_head := r_tail ring + of_nat sz\<rparr>;
          tail_offset = r_tail ring1 - r_base ring1
      in buf\<lparr>rb_get := if unat tail_offset \<ge> rb_size buf
               then ring1\<lparr>r_base := r_base ring1 + of_nat (rb_size buf)\<rparr> else ring1\<rparr>)"

section \<open>Items\<close>

text \<open>
  The item interface stores a header of four bytes (\<^verbatim>\<open>struct ring_element\<close>: a 16-bit type, the length in
  words and a small value, in the order a little-endian machine has them) before the data of an item.
\<close>

definition put_header :: "nat \<Rightarrow> 16 word \<Rightarrow> 8 word \<Rightarrow> 8 word \<Rightarrow> bmem \<Rightarrow> bmem" where
  "put_header dst type size32 value mm =
     mm(dst := ucast type, dst + 1 := ucast (drop_bit 8 type), dst + 2 := size32, dst + 3 := value)"

definition ring_buf_item_put ::
  "ring_buf \<Rightarrow> 16 word \<Rightarrow> 8 word \<Rightarrow> nat \<Rightarrow> 8 word \<Rightarrow> bmem \<Rightarrow> int \<times> ring_buf \<times> bmem" where
  "ring_buf_item_put buf type value data size32 mm =
     (let space = ring_buf_space_get buf; sz = unat size32 * 4
      in if sz + 4 > space then (- EMSGSIZE, buf, mm)
         else
           let (n, dst, buf1) = ring_buf_put_claim buf 4;
               mm1 = put_header dst type size32 value mm;
               (total_size, buf2, mm2) = put_loop buf1 data sz 4 mm1
           in (0, snd (ring_buf_put_finish buf2 total_size), mm2))"

record ring_item =
  item_type :: "16 word"
  item_value :: "8 word"
  item_size32 :: "8 word"

text \<open>The call leaves its outputs \<^verbatim>\<open>type\<close> and \<^verbatim>\<open>value\<close> alone when it fails.\<close>

definition ring_buf_item_get ::
  "ring_buf \<Rightarrow> nat \<Rightarrow> ring_item \<Rightarrow> bmem \<Rightarrow> int \<times> ring_item \<times> ring_buf \<times> bmem" where
  "ring_buf_item_get buf data out mm =
     (if ring_buf_is_empty buf then (- EAGAIN, out, buf, mm)
      else
        let (n, src, buf1) = ring_buf_get_claim buf 4;
            len = mm (src + 2)
        in if data \<noteq> 0 \<and> unat len > unat (item_size32 out)
           then (- EMSGSIZE, out\<lparr>item_size32 := len\<rparr>, snd (ring_buf_get_finish buf1 0), mm)
           else
             let out1 = \<lparr>item_type = ucast (mm src) OR push_bit 8 (ucast (mm (src + 1))),
                         item_value = mm (src + 3), item_size32 = len\<rparr>;
                 sz = unat len * 4;
                 (total_size, buf2, mm1) = get_loop buf1 data sz 4 mm
             in (0, out1, snd (ring_buf_get_finish buf2 total_size), mm1))"

section \<open>Index arithmetic\<close>

lemma unat_plus16: "unat (x :: 16 word) + n < 65536 \<Longrightarrow> unat (x + of_nat n) = unat x + n"
  by (simp add: unat_word_ariths unat_of_nat mod_simps)

lemma unat_minus16: "n \<le> unat (x :: 16 word) \<Longrightarrow> unat (x - of_nat n) = unat x - n"
proof -
  assume n: "n \<le> unat x"
  have x: "x = of_nat (unat x)" by simp
  have "x - of_nat n = of_nat (unat x - n)" using n by (subst x) (simp only: of_nat_diff)
  moreover have "unat x - n < 2 ^ 16" using unsigned_less [of x, where 'a = nat] by simp
  ultimately show ?thesis by (simp add: unat_of_nat)
qed

lemma unat_rev16: "unat (x :: 16 word) \<le> n \<Longrightarrow> n < 65536 \<Longrightarrow> unat (of_nat n - x) = n - unat x"
  using unat_minus16 [of "unat x" "of_nat n"] by (simp add: unat_of_nat)

lemma mod_once: "0 < N \<Longrightarrow> x < 2 * N \<Longrightarrow> x mod N = (if N \<le> x then x - N else x)" for x N :: nat
  by (simp add: le_mod_geq)

text \<open>Positions less than a full turn apart are different.\<close>

lemma mod_shift_inj:
  fixes x N :: nat
  assumes "i < j" "j < i + N"
  shows "(x + i) mod N \<noteq> (x + j) mod N"
proof
  assume "(x + i) mod N = (x + j) mod N"
  then have "N dvd (x + j) - (x + i)" using assms by (metis add_le_cancel_left less_imp_le_nat mod_eq_dvd_iff_nat)
  then have "N dvd j - i" by simp
  then show False using assms by (auto dest: dvd_imp_le)
qed

section \<open>Well-formed rings\<close>

abbreviation offs :: "ring_buf_index \<Rightarrow> nat" where
  "offs r \<equiv> unat (r_tail r - r_base r)"

definition rb_used :: "ring_buf \<Rightarrow> nat" where
  "rb_used b = unat (r_tail (rb_put b) - r_tail (rb_get b))"

definition pos :: "ring_buf \<Rightarrow> nat \<Rightarrow> nat" where
  "pos b i = rb_buffer b + i mod rb_size b"

text \<open>\<open>p\<close> bytes are claimed for writing and \<open>g\<close> for reading.\<close>

definition ring_claimed :: "nat \<Rightarrow> nat \<Rightarrow> ring_buf \<Rightarrow> bool" where
  "ring_claimed p g b \<longleftrightarrow> 0 < rb_size b \<and> rb_size b \<le> RING_BUFFER_MAX_SIZE \<and>
     r_head (rb_put b) = r_tail (rb_put b) + of_nat p \<and> r_head (rb_get b) = r_tail (rb_get b) + of_nat g \<and>
     offs (rb_put b) < rb_size b \<and> offs (rb_get b) < rb_size b \<and> rb_used b + p \<le> rb_size b \<and> g \<le> rb_used b \<and>
     offs (rb_put b) = (offs (rb_get b) + rb_used b) mod rb_size b"

abbreviation ring_wf :: "ring_buf \<Rightarrow> bool" where
  "ring_wf b \<equiv> ring_claimed 0 0 b"

definition ring_data :: "ring_buf \<Rightarrow> bmem \<Rightarrow> 8 word list" where
  "ring_data b mm = map (\<lambda>i. mm (pos b (offs (rb_get b) + i))) [0..<rb_used b]"

lemma length_ring_data [simp]: "length (ring_data b mm) = rb_used b"
  by (simp add: ring_data_def)

lemma ring_claimedD:
  assumes "ring_claimed p g b"
  shows "0 < rb_size b" "rb_size b \<le> 32767" "r_head (rb_put b) = r_tail (rb_put b) + of_nat p"
    "r_head (rb_get b) = r_tail (rb_get b) + of_nat g" "offs (rb_put b) < rb_size b" "offs (rb_get b) < rb_size b"
    "rb_used b + p \<le> rb_size b" "g \<le> rb_used b" "offs (rb_put b) = (offs (rb_get b) + rb_used b) mod rb_size b"
  using assms by (simp_all add: ring_claimed_def RING_BUFFER_MAX_SIZE_def)

lemma ring_sizes:
  assumes w: "ring_claimed p g b"
  shows "ring_buf_space_get b = rb_size b - rb_used b - p" "ring_buf_size_get b = rb_used b - g"
    "ring_buf_is_empty b \<longleftrightarrow> rb_used b = g"
proof -
  note d = ring_claimedD [OF w]
  have a: "r_head (rb_put b) - r_tail (rb_get b) = (r_tail (rb_put b) - r_tail (rb_get b)) + of_nat p"
    by (simp add: d(3) algebra_simps)
  have "unat (r_head (rb_put b) - r_tail (rb_get b)) = rb_used b + p"
    unfolding a rb_used_def by (rule unat_plus16) (use d(2,7) in \<open>simp add: rb_used_def\<close>)
  moreover have "(rb_size b + 2 ^ 32 - (rb_used b + p)) mod 2 ^ 32 = rb_size b - (rb_used b + p)"
  proof -
    have "rb_size b + 2 ^ 32 - (rb_used b + p) = rb_size b - (rb_used b + p) + 2 ^ 32" using d(7) by (rule Nat.diff_add_assoc2)
    moreover have "rb_size b - (rb_used b + p) < 2 ^ 32" using d(2) by simp
    ultimately show ?thesis by (simp only: mod_add_self2 mod_less)
  qed
  ultimately show "ring_buf_space_get b = rb_size b - rb_used b - p"
    by (simp add: ring_buf_space_get_def)
  have c: "r_tail (rb_put b) - r_head (rb_get b) = (r_tail (rb_put b) - r_tail (rb_get b)) - of_nat g"
    by (simp add: d(4) algebra_simps)
  show s: "ring_buf_size_get b = rb_used b - g"
    unfolding ring_buf_size_get_def c rb_used_def by (rule unat_minus16) (use d(8) in \<open>simp add: rb_used_def\<close>)
  have "ring_buf_is_empty b \<longleftrightarrow> ring_buf_size_get b = 0"
    by (auto simp: ring_buf_is_empty_def ring_buf_size_get_def unat_eq_0)
  then show "ring_buf_is_empty b \<longleftrightarrow> rb_used b = g" using s d(8) by auto
qed

lemma area_claim_eq:
  fixes n :: nat
  assumes N: "0 < rb_size b" "rb_size b \<le> 32767" and h: "r_head r = r_tail r + of_nat k" and o: "offs r < rb_size b" "k \<le> rb_size b"
  defines "m \<equiv> min n (rb_size b - (offs r + k) mod rb_size b)"
  shows "ring_buf_area_claim b r n = (m, pos b (offs r + k), r\<lparr>r_head := r_tail r + of_nat (k + m)\<rparr>)"
proof -
  let ?N = "rb_size b" and ?x = "offs r + k"
  have e: "r_head r - r_base r = (r_tail r - r_base r) + of_nat k" by (simp add: h algebra_simps)
  have x: "unat (r_head r - r_base r) = ?x" unfolding e by (rule unat_plus16) (use N o in simp)
  define ho where "ho = (if ?N \<le> unat (r_head r - r_base r) then r_head r - r_base r - of_nat ?N else r_head r - r_base r)"
  have lt: "?x < 2 * ?N" using o by simp
  have ho: "unat ho = ?x mod ?N"
    using unat_minus16 [of ?N "r_head r - r_base r"] x mod_once [OF N(1) lt] by (simp add: ho_def)
  have "unat (of_nat ?N - ho) = ?N - ?x mod ?N" using unat_rev16 [of ho ?N] ho N by simp
  then show ?thesis
    unfolding ring_buf_area_claim_def Let_def ho_def [symmetric] m_def
    by (simp add: ho pos_def h algebra_simps)
qed

section \<open>Copying in and out\<close>

definition claim_put :: "nat \<Rightarrow> ring_buf \<Rightarrow> ring_buf" where
  "claim_put p b = b\<lparr>rb_put := (rb_put b)\<lparr>r_head := r_tail (rb_put b) + of_nat p\<rparr>\<rparr>"

definition claim_get :: "nat \<Rightarrow> ring_buf \<Rightarrow> ring_buf" where
  "claim_get g b = b\<lparr>rb_get := (rb_get b)\<lparr>r_head := r_tail (rb_get b) + of_nat g\<rparr>\<rparr>"

lemma claim_sel [simp]:
  "rb_size (claim_put p b) = rb_size b" "rb_buffer (claim_put p b) = rb_buffer b" "rb_used (claim_put p b) = rb_used b"
  "pos (claim_put p b) = pos b" "rb_get (claim_put p b) = rb_get b" "offs (rb_put (claim_put p b)) = offs (rb_put b)"
  "r_tail (rb_put (claim_put p b)) = r_tail (rb_put b)"
  "rb_size (claim_get p b) = rb_size b" "rb_buffer (claim_get p b) = rb_buffer b" "rb_used (claim_get p b) = rb_used b"
  "pos (claim_get p b) = pos b" "rb_put (claim_get p b) = rb_put b" "offs (rb_get (claim_get p b)) = offs (rb_get b)"
  "r_tail (rb_get (claim_get p b)) = r_tail (rb_get b)"
  "r_base (rb_put (claim_put p b)) = r_base (rb_put b)" "r_base (rb_get (claim_get p b)) = r_base (rb_get b)"
  by (simp_all add: claim_put_def claim_get_def rb_used_def pos_def fun_eq_iff)

lemma claim_claimed:
  "ring_claimed q g b \<Longrightarrow> rb_used b + p \<le> rb_size b \<Longrightarrow> ring_claimed p g (claim_put p b)"
  "ring_claimed q g b \<Longrightarrow> p \<le> rb_used b \<Longrightarrow> ring_claimed q p (claim_get p b)"
  by (simp_all add: ring_claimed_def) (simp_all add: claim_put_def claim_get_def)

lemma put_claim_eq:
  fixes n :: nat
  assumes w: "ring_claimed q g b" and p: "rb_used b + p \<le> rb_size b"
  defines "m \<equiv> min (min n (rb_size b - rb_used b - p)) (rb_size b - (offs (rb_put b) + p) mod rb_size b)"
  shows "ring_buf_put_claim (claim_put p b) n = (m, pos b (offs (rb_put b) + p), claim_put (p + m) b)"
proof -
  note c = claim_claimed(1) [OF w p] and d = ring_claimedD [OF w]
  have "p \<le> rb_size b" using p by simp
  with area_claim_eq [of "claim_put p b" "rb_put (claim_put p b)" p "min n (rb_size b - rb_used b - p)"] ring_claimedD(3) [OF c] d(1,2,5)
  have "ring_buf_area_claim (claim_put p b) (rb_put (claim_put p b)) (min n (rb_size b - rb_used b - p)) =
      (m, pos b (offs (rb_put b) + p), (rb_put (claim_put p b))\<lparr>r_head := r_tail (rb_put b) + of_nat (p + m)\<rparr>)" by (simp add: m_def)
  moreover have "ring_buf_space_get (claim_put p b) = rb_size b - rb_used b - p" using ring_sizes(1) [OF c] by simp
  ultimately show ?thesis unfolding ring_buf_put_claim_def Let_def by (simp only: prod.case) (simp add: claim_put_def)
qed

lemma get_claim_eq:
  fixes n :: nat
  assumes w: "ring_claimed q g b" and p: "p \<le> rb_used b"
  defines "m \<equiv> min (min n (rb_used b - p)) (rb_size b - (offs (rb_get b) + p) mod rb_size b)"
  shows "ring_buf_get_claim (claim_get p b) n = (m, pos b (offs (rb_get b) + p), claim_get (p + m) b)"
proof -
  note c = claim_claimed(2) [OF w p] and d = ring_claimedD [OF w]
  have "p \<le> rb_size b" using p d(7) by simp
  with area_claim_eq [of "claim_get p b" "rb_get (claim_get p b)" p "min n (rb_used b - p)"] ring_claimedD(4) [OF c] d(1,2,6)
  have "ring_buf_area_claim (claim_get p b) (rb_get (claim_get p b)) (min n (rb_used b - p)) =
      (m, pos b (offs (rb_get b) + p), (rb_get (claim_get p b))\<lparr>r_head := r_tail (rb_get b) + of_nat (p + m)\<rparr>)" by (simp add: m_def)
  moreover have "ring_buf_size_get (claim_get p b) = rb_used b - p" using ring_sizes(2) [OF c] by simp
  ultimately show ?thesis unfolding ring_buf_get_claim_def Let_def by (simp only: prod.case) (simp add: claim_get_def)
qed

text \<open>A run of positions that does not wrap is a run of addresses.\<close>

lemma pos_run: "j < rb_size b - x mod rb_size b \<Longrightarrow> pos b (x + j) = pos b x + j"
proof -
  assume "j < rb_size b - x mod rb_size b"
  then have "x mod rb_size b + j < rb_size b" by simp
  then have "(x + j) mod rb_size b = x mod rb_size b + j" by (metis mod_add_left_eq mod_less)
  then show ?thesis by (simp add: pos_def)
qed

lemma pos_bounds: "0 < rb_size b \<Longrightarrow> rb_buffer b \<le> pos b x \<and> pos b x < rb_buffer b + rb_size b"
  by (simp add: pos_def)

lemma pos_inj: "i < j \<Longrightarrow> j < i + rb_size b \<Longrightarrow> pos b (x + i) \<noteq> pos b (x + j)"
  using mod_shift_inj by (simp add: pos_def)

definition outside :: "nat \<Rightarrow> nat \<Rightarrow> ring_buf \<Rightarrow> bool" where
  "outside a n b \<longleftrightarrow> a + n \<le> rb_buffer b \<or> rb_buffer b + rb_size b \<le> a"

lemma outside_pos: "outside a n b \<Longrightarrow> 0 < rb_size b \<Longrightarrow> j < n \<Longrightarrow> a + j \<noteq> pos b x"
  using pos_bounds [of b x] by (auto simp: outside_def)

text \<open>The memory after \<open>m\<close> bytes from \<open>data\<close> have been stored behind position \<open>x\<close>.\<close>

definition stored :: "ring_buf \<Rightarrow> nat \<Rightarrow> nat \<Rightarrow> nat \<Rightarrow> bmem \<Rightarrow> bmem \<Rightarrow> bool" where
  "stored b x data m mm mm' \<longleftrightarrow> (\<forall>j<m. mm' (pos b (x + j)) = mm (data + j)) \<and>
     (\<forall>a. (\<forall>j<m. a \<noteq> pos b (x + j)) \<longrightarrow> mm' a = mm a)"

lemma stored_step:
  assumes N: "0 < rb_size b" "k \<le> rb_size b - x mod rb_size b" "k + m \<le> rb_size b" and o: "outside data (k + m) b"
    and s: "stored b (x + k) (data + k) m (memcpy (pos b x) data k mm) mm'"
  shows "stored b x data (k + m) mm mm'"
  unfolding stored_def
proof (intro conjI allI impI)
  fix j assume j: "j < k + m"
  show "mm' (pos b (x + j)) = mm (data + j)"
  proof (cases "j < k")
    case True
    have "\<forall>i<m. pos b (x + j) \<noteq> pos b (x + k + i)"
      using pos_inj [of j "k + _" b x] True N(3) by (auto simp: add.assoc)
    with s have "mm' (pos b (x + j)) = memcpy (pos b x) data k mm (pos b (x + j))" by (simp add: stored_def)
    then show ?thesis using True pos_run [of j b x] N(2) by (simp add: memcpy_def)
  next
    case False
    then obtain i where i: "j = k + i" "i < m" using j by (metis add_diff_inverse_nat add_less_cancel_left)
    have c: "mm' (pos b (x + j)) = memcpy (pos b x) data k mm (data + k + i)" using s i by (simp add: stored_def add.assoc)
    have n: "\<not> (pos b x \<le> data + k + i \<and> data + k + i < pos b x + k)"
    proof
      assume a: "pos b x \<le> data + k + i \<and> data + k + i < pos b x + k"
      then obtain l where l: "data + (k + i) = pos b x + l" "l < k" by (metis add.assoc add_less_cancel_left le_Suc_ex)
      then have "data + (k + i) = pos b (x + l)" using pos_run [of l b x] N(2) by simp
      with outside_pos [OF o N(1), of "k + i" "x + l"] i show False by simp
    qed
    then have "memcpy (pos b x) data k mm (data + k + i) = mm (data + k + i)" by (simp only: memcpy_def if_False)
    then show ?thesis using i c by (simp add: add.assoc)
  qed
next
  fix a assume a: "\<forall>j<k + m. a \<noteq> pos b (x + j)"
  have "a \<noteq> pos b (x + k + j)" if "j < m" for j using spec [OF a, of "k + j"] that by (simp add: add.assoc)
  then have "mm' a = memcpy (pos b x) data k mm a" using s by (simp add: stored_def)
  moreover have "\<not> (pos b x \<le> a \<and> a < pos b x + k)"
  proof
    assume "pos b x \<le> a \<and> a < pos b x + k"
    then obtain l where l: "a = pos b x + l" "l < k" by (metis add_less_cancel_left le_Suc_ex)
    then have "a = pos b (x + l)" using pos_run [of l b x] N(2) by simp
    with spec [OF a, of l] l(2) show False by simp
  qed
  ultimately show "mm' a = mm a" by (simp only: memcpy_def if_False)
qed

lemma put_loop_eq:
  assumes w: "ring_claimed q g b" and p: "rb_used b + p \<le> rb_size b" and o: "outside data n b"
  defines "m \<equiv> min n (rb_size b - rb_used b - p)"
  shows "\<exists>mm'. put_loop (claim_put p b) data n t mm = (t + m, claim_put (p + m) b, mm') \<and>
    stored b (offs (rb_put b) + p) data m mm mm'"
  using p o unfolding m_def
proof (induction n arbitrary: p data t mm rule: less_induct)
  case (less n)
  let ?x = "offs (rb_put b) + p"
  define k where "k = min (min n (rb_size b - rb_used b - p)) (rb_size b - ?x mod rb_size b)"
  note d = ring_claimedD [OF w] and c = put_claim_eq [OF w less.prems(1), of n, folded k_def]
  have k: "k \<le> n" "k \<le> rb_size b - rb_used b - p" "k \<le> rb_size b - ?x mod rb_size b" by (simp_all add: k_def)
  have xm: "?x mod rb_size b < rb_size b" using d(1) by simp
  show ?case
  proof (cases "k = 0")
    case True
    then have "min n (rb_size b - rb_used b - p) = 0" using xm by (auto simp: k_def min_def split: if_splits)
    with True c show ?thesis by (subst put_loop.simps) (simp add: stored_def)
  next
    case False
    let ?mm = "memcpy (pos b ?x) data k mm"
    let ?m = "min (n - k) (rb_size b - rb_used b - (p + k))"
    have m: "min n (rb_size b - rb_used b - p) = k + ?m" using k by auto
    have o: "outside data (k + ?m) b" using less.prems(2) k by (auto simp: outside_def)
    have o': "outside (data + k) (n - k) b" using less.prems(2) k by (auto simp: outside_def)
    have st: "stored b ?x data (k + ?m) mm mm'" if "stored b (?x + k) (data + k) ?m ?mm mm'" for mm'
      by (rule stored_step [OF d(1) k(3) _ o that]) (use less.prems(1) k in simp)
    show ?thesis
    proof (cases "n - k = 0")
      case True
      have "stored b (?x + k) (data + k) 0 ?mm ?mm" by (simp add: stored_def)
      with st [of ?mm] True have "stored b ?x data (k + ?m) mm ?mm" by simp
      with True False c k show ?thesis unfolding m by (subst put_loop.simps) simp
    next
      case nz: False
      then have "n - k < n" "rb_used b + (p + k) \<le> rb_size b" using False k less.prems(1) by auto
      from less.IH [OF this o', of "t + k" ?mm] obtain mm' where
        "put_loop (claim_put (p + k) b) (data + k) (n - k) (t + k) ?mm = (t + k + ?m, claim_put (p + k + ?m) b, mm')"
        "stored b (?x + k) (data + k) ?m ?mm mm'" by (auto simp: add.assoc)
      with st nz False c show ?thesis unfolding m by (subst put_loop.simps) (simp add: add.assoc)
    qed
  qed
qed

text \<open>The memory after \<open>m\<close> bytes from position \<open>x\<close> on have been fetched to \<open>data\<close>.\<close>

definition fetched :: "ring_buf \<Rightarrow> nat \<Rightarrow> nat \<Rightarrow> nat \<Rightarrow> bmem \<Rightarrow> bmem \<Rightarrow> bool" where
  "fetched b x data m mm mm' \<longleftrightarrow> (\<forall>j<m. mm' (data + j) = mm (pos b (x + j))) \<and>
     (\<forall>a. a < data \<or> data + m \<le> a \<longrightarrow> mm' a = mm a)"

lemma fetched_step:
  assumes N: "0 < rb_size b" "k \<le> rb_size b - x mod rb_size b" and o: "outside data (k + m) b"
    and s: "fetched b (x + k) (data + k) m (memcpy data (pos b x) k mm) mm'"
  shows "fetched b x data (k + m) mm mm'"
  unfolding fetched_def
proof (intro conjI allI impI)
  fix j assume j: "j < k + m"
  show "mm' (data + j) = mm (pos b (x + j))"
  proof (cases "j < k")
    case True
    then have "mm' (data + j) = memcpy data (pos b x) k mm (data + j)" using s by (simp add: fetched_def)
    then show ?thesis using True pos_run [of j b x] N(2) by (simp add: memcpy_def)
  next
    case False
    then obtain i where i: "j = k + i" "i < m" using j by (metis add_diff_inverse_nat add_less_cancel_left)
    have c: "mm' (data + j) = memcpy data (pos b x) k mm (pos b (x + j))" using s i by (simp add: fetched_def add.assoc)
    have "\<not> (data \<le> pos b (x + j) \<and> pos b (x + j) < data + k)"
      using o pos_bounds [OF N(1), of "x + j"] by (auto simp: outside_def)
    then have "memcpy data (pos b x) k mm (pos b (x + j)) = mm (pos b (x + j))" by (simp only: memcpy_def if_False)
    with c show ?thesis by simp
  qed
next
  fix a assume "a < data \<or> data + (k + m) \<le> a"
  then show "mm' a = mm a" using s by (auto simp: fetched_def memcpy_def)
qed

text \<open>The same for a destination that may be null.\<close>

definition copied_out :: "ring_buf \<Rightarrow> nat \<Rightarrow> nat \<Rightarrow> nat \<Rightarrow> bmem \<Rightarrow> bmem \<Rightarrow> bool" where
  "copied_out b x data m mm mm' \<longleftrightarrow> (if data = 0 then mm' = mm else fetched b x data m mm mm')"

lemma copied_out_0 [simp]: "copied_out b x data 0 mm mm"
  by (simp add: copied_out_def fetched_def)

lemma copied_out_step:
  assumes "0 < rb_size b" "k \<le> rb_size b - x mod rb_size b" and "data \<noteq> 0 \<Longrightarrow> outside data (k + m) b"
    and "copied_out b (x + k) (if data \<noteq> 0 then data + k else data) m (if data \<noteq> 0 then memcpy data (pos b x) k mm else mm) mm'"
  shows "copied_out b x data (k + m) mm mm'"
  using assms fetched_step [OF assms(1-3)] by (auto simp: copied_out_def split: if_splits)

lemma get_loop_eq:
  assumes w: "ring_claimed q g b" and p: "p \<le> rb_used b" and o: "data \<noteq> 0 \<Longrightarrow> outside data n b"
  defines "m \<equiv> min n (rb_used b - p)"
  shows "\<exists>mm'. get_loop (claim_get p b) data n t mm = (t + m, claim_get (p + m) b, mm') \<and>
    copied_out b (offs (rb_get b) + p) data m mm mm'"
  using p o unfolding m_def
proof (induction n arbitrary: p data t mm rule: less_induct)
  case (less n)
  let ?x = "offs (rb_get b) + p"
  define k where "k = min (min n (rb_used b - p)) (rb_size b - ?x mod rb_size b)"
  note d = ring_claimedD [OF w] and c = get_claim_eq [OF w less.prems(1), of n, folded k_def]
  have k: "k \<le> n" "k \<le> rb_used b - p" "k \<le> rb_size b - ?x mod rb_size b" by (simp_all add: k_def)
  have xm: "?x mod rb_size b < rb_size b" using d(1) by simp
  show ?case
  proof (cases "k = 0")
    case True
    then have "min n (rb_used b - p) = 0" using xm by (auto simp: k_def min_def split: if_splits)
    with True c show ?thesis by (subst get_loop.simps) simp
  next
    case False
    let ?mm = "if data \<noteq> 0 then memcpy data (pos b ?x) k mm else mm" and ?d = "if data \<noteq> 0 then data + k else data"
    let ?m = "min (n - k) (rb_used b - (p + k))"
    have m: "min n (rb_used b - p) = k + ?m" using k by auto
    have o: "data \<noteq> 0 \<Longrightarrow> outside data (k + ?m) b" using less.prems(2) k by (auto simp: outside_def)
    have o': "?d \<noteq> 0 \<Longrightarrow> outside ?d (n - k) b" using less.prems(2) k by (auto simp: outside_def)
    have st: "copied_out b ?x data (k + ?m) mm mm'" if "copied_out b (?x + k) ?d ?m ?mm mm'" for mm'
      using o that by (rule copied_out_step [OF d(1) k(3)])
    have step: "get_loop (claim_get p b) data n t mm = (if n - k \<noteq> 0
        then get_loop (claim_get (p + k) b) ?d (n - k) (t + k) ?mm else (t + k, claim_get (p + k) b, ?mm))"
      by (subst get_loop.simps) (use False c in simp)
    show ?thesis
    proof (cases "n - k = 0")
      case True
      then have "copied_out b ?x data (k + ?m) mm ?mm" by (intro st) simp
      with True step show ?thesis unfolding m by simp
    next
      case nz: False
      then have "n - k < n" "p + k \<le> rb_used b" using False k less.prems(1) by auto
      from less.IH [OF this o', of "t + k" ?mm] obtain mm' where
        r: "get_loop (claim_get (p + k) b) ?d (n - k) (t + k) ?mm = (t + k + ?m, claim_get (p + k + ?m) b, mm')"
        "copied_out b (?x + k) ?d ?m ?mm mm'" by (auto simp: add.assoc)
      from r(1) st [OF r(2)] step nz show ?thesis unfolding m by (simp add: add.assoc)
    qed
  qed
qed

section \<open>Finishing a claim\<close>

lemma area_finish_eq:
  assumes N: "0 < rb_size b" "rb_size b \<le> 32767" and h: "r_head r = r_tail r + of_nat k" and o: "offs r < rb_size b" "k \<le> rb_size b"
    and n: "n \<le> k"
  shows "\<exists>r'. ring_buf_area_finish b r n = (0, r') \<and> r_tail r' = r_tail r + of_nat n \<and> r_head r' = r_tail r' \<and>
    offs r' = (offs r + n) mod rb_size b"
proof -
  let ?N = "rb_size b" and ?r = "r\<lparr>r_tail := r_tail r + of_nat n, r_head := r_tail r + of_nat n\<rparr>"
  have k: "unat (r_head r - r_tail r) = k" using N o by (simp add: h unat_of_nat)
  have e: "r_tail r + of_nat n - r_base r = (r_tail r - r_base r) + of_nat n" by (simp add: algebra_simps)
  have x: "unat (r_tail r + of_nat n - r_base r) = offs r + n" unfolding e by (rule unat_plus16) (use N o n in simp)
  have lt: "offs r + n < 2 * ?N" using o n by simp
  have f: "ring_buf_area_finish b r n =
      (0, if ?N \<le> offs r + n then ?r\<lparr>r_base := r_base r + of_nat ?N\<rparr> else ?r)"
    using n by (simp add: ring_buf_area_finish_def k x)
  have y: "r_tail r + of_nat n - (r_base r + of_nat ?N) = (r_tail r + of_nat n - r_base r) - of_nat ?N" by (simp add: algebra_simps)
  have "unat (r_tail r + of_nat n - (r_base r + of_nat ?N)) = offs r + n - ?N" if "?N \<le> offs r + n"
    unfolding y using unat_minus16 [of ?N "r_tail r + of_nat n - r_base r"] that x by simp
  then show ?thesis unfolding f using x mod_once [OF N(1) lt] by auto
qed

lemma put_finish_eq:
  assumes w: "ring_claimed q g b" and p: "rb_used b + p \<le> rb_size b" and n: "n \<le> p"
  shows "\<exists>b'. ring_buf_put_finish (claim_put p b) n = (0, b') \<and> ring_claimed 0 g b' \<and> rb_used b' = rb_used b + n \<and>
    rb_get b' = rb_get b \<and> rb_size b' = rb_size b \<and> rb_buffer b' = rb_buffer b"
proof -
  note c = claim_claimed(1) [OF w p] and d = ring_claimedD [OF w]
  have "p \<le> rb_size b" using p by simp
  with area_finish_eq [of "claim_put p b" "rb_put (claim_put p b)" p n] ring_claimedD(3) [OF c] d(1,2,5) n obtain r' where
    r: "ring_buf_area_finish (claim_put p b) (rb_put (claim_put p b)) n = (0, r')" "r_tail r' = r_tail (rb_put b) + of_nat n"
    "r_head r' = r_tail r'" "offs r' = (offs (rb_put b) + n) mod rb_size b" by auto
  let ?b = "b\<lparr>rb_put := r'\<rparr>"
  have e: "r_tail r' - r_tail (rb_get b) = (r_tail (rb_put b) - r_tail (rb_get b)) + of_nat n" by (simp add: r(2) algebra_simps)
  have u: "rb_used ?b = rb_used b + n"
    unfolding rb_used_def using d(2) p n unat_plus16 [of "r_tail (rb_put b) - r_tail (rb_get b)" n] by (simp add: e rb_used_def)
  have "offs r' = (offs (rb_get b) + (rb_used b + n)) mod rb_size b" using r(4) d(9) by (simp add: mod_add_left_eq add.assoc)
  then have "ring_claimed 0 g ?b" using w r(3) p n d(1) by (simp add: ring_claimed_def u)
  moreover have "ring_buf_put_finish (claim_put p b) n = (0, ?b)" using r(1) unfolding ring_buf_put_finish_def Let_def by (simp only: prod.case) (simp add: claim_put_def)
  ultimately show ?thesis using u by auto
qed

lemma get_finish_eq:
  assumes w: "ring_claimed q g b" and p: "p \<le> rb_used b" and n: "n \<le> p"
  shows "\<exists>b'. ring_buf_get_finish (claim_get p b) n = (0, b') \<and> ring_claimed q 0 b' \<and> rb_used b' = rb_used b - n \<and>
    offs (rb_get b') = (offs (rb_get b) + n) mod rb_size b \<and> rb_size b' = rb_size b \<and> rb_buffer b' = rb_buffer b"
proof -
  note c = claim_claimed(2) [OF w p] and d = ring_claimedD [OF w]
  have "p \<le> rb_size b" using p d(7) by simp
  with area_finish_eq [of "claim_get p b" "rb_get (claim_get p b)" p n] ring_claimedD(4) [OF c] d(1,2,6) n obtain r' where
    r: "ring_buf_area_finish (claim_get p b) (rb_get (claim_get p b)) n = (0, r')" "r_tail r' = r_tail (rb_get b) + of_nat n"
    "r_head r' = r_tail r'" "offs r' = (offs (rb_get b) + n) mod rb_size b" by auto
  let ?b = "b\<lparr>rb_get := r'\<rparr>"
  have e: "r_tail (rb_put b) - r_tail r' = (r_tail (rb_put b) - r_tail (rb_get b)) - of_nat n" by (simp add: r(2) algebra_simps)
  have u: "rb_used ?b = rb_used b - n"
    unfolding rb_used_def using p n unat_minus16 [of n "r_tail (rb_put b) - r_tail (rb_get b)"] by (simp add: e rb_used_def)
  have "(offs r' + (rb_used b - n)) mod rb_size b = (offs (rb_get b) + n + (rb_used b - n)) mod rb_size b"
    by (simp add: r(4) mod_add_left_eq)
  then have "offs (rb_put b) = (offs r' + (rb_used b - n)) mod rb_size b" using d(9) p n by simp
  moreover have "rb_used b - n + q \<le> rb_size b" using d(7) by simp
  ultimately have "ring_claimed q 0 ?b" using w r(3,4) d(1) by (simp add: ring_claimed_def u)
  moreover have "ring_buf_get_finish (claim_get p b) n = (0, ?b)" using r(1) unfolding ring_buf_get_finish_def Let_def by (simp only: prod.case) (simp add: claim_get_def)
  ultimately show ?thesis using u r(4) by auto
qed

section \<open>The ring as a queue of bytes\<close>

lemma claim_none: "ring_claimed 0 g b \<Longrightarrow> claim_put 0 b = b" "ring_claimed p 0 b \<Longrightarrow> claim_get 0 b = b"
  by (simp_all add: claim_put_def claim_get_def ring_claimed_def)

lemma pos_mod [simp]: "pos b (x mod rb_size b + j) = pos b (x + j)"
  by (simp add: pos_def mod_add_left_eq)

lemma ring_data_nth: "i < rb_used b \<Longrightarrow> ring_data b mm ! i = mm (pos b (offs (rb_get b) + i))"
  by (simp add: ring_data_def)

definition same_ring :: "ring_buf \<Rightarrow> ring_buf \<Rightarrow> bool" where
  "same_ring b b' \<longleftrightarrow> rb_size b' = rb_size b \<and> rb_buffer b' = rb_buffer b"

lemma pos_same: "same_ring b b' \<Longrightarrow> pos b' = pos b"
  by (simp add: same_ring_def pos_def fun_eq_iff)

text \<open>Bytes stored behind the end of the data become the end of the data.\<close>

definition stored_list :: "ring_buf \<Rightarrow> nat \<Rightarrow> 8 word list \<Rightarrow> bmem \<Rightarrow> bmem \<Rightarrow> bool" where
  "stored_list b x bs mm mm' \<longleftrightarrow> (\<forall>j<length bs. mm' (pos b (x + j)) = bs ! j) \<and>
     (\<forall>a. (\<forall>j<length bs. a \<noteq> pos b (x + j)) \<longrightarrow> mm' a = mm a)"

lemma stored_stored_list: "stored b x data m mm mm' \<longleftrightarrow> stored_list b x (bytes data m mm) mm mm'"
  by (simp add: stored_def stored_list_def) (simp add: bytes_def)

lemma stored_list_append:
  assumes w: "ring_claimed p g b" and le: "rb_used b + length bs \<le> rb_size b" and s: "stored_list b (offs (rb_put b)) bs mm mm'"
    and f: "rb_used b' = rb_used b + length bs" "rb_get b' = rb_get b" "same_ring b b'"
  shows "ring_data b' mm' = ring_data b mm @ bs" "a < rb_buffer b \<or> rb_buffer b + rb_size b \<le> a \<Longrightarrow> mm' a = mm a"
proof -
  note d = ring_claimedD [OF w]
  let ?g = "offs (rb_get b)"
  have st: "mm' (pos b (?g + (rb_used b + j))) = bs ! j" if "j < length bs" for j
    using s that by (simp add: stored_list_def d(9) add.assoc)
  have ol: "mm' (pos b (?g + i)) = mm (pos b (?g + i))" if i: "i < rb_used b" for i
  proof -
    have "pos b (?g + i) \<noteq> pos b (offs (rb_put b) + j)" if "j < length bs" for j
      using pos_inj [of i "rb_used b + j" b ?g] i le that by (simp add: d(9) add.assoc)
    with s show ?thesis by (simp add: stored_list_def)
  qed
  show "ring_data b' mm' = ring_data b mm @ bs"
  proof (rule nth_equalityI)
    show "length (ring_data b' mm') = length (ring_data b mm @ bs)" by (simp add: f(1))
    fix i assume "i < length (ring_data b' mm')"
    then have i: "i < rb_used b + length bs" by (simp add: f(1))
    then have e: "ring_data b' mm' ! i = mm' (pos b (?g + i))" by (simp add: ring_data_nth f(1,2) pos_same [OF f(3)])
    show "ring_data b' mm' ! i = (ring_data b mm @ bs) ! i"
    proof (cases "i < rb_used b")
      case True
      then show ?thesis using e ol by (simp add: nth_append ring_data_nth)
    next
      case False
      then obtain j where "i = rb_used b + j" "j < length bs" using i by (metis add_diff_inverse_nat add_less_cancel_left)
      then show ?thesis using e st by (simp add: nth_append)
    qed
  qed
  show "mm' a = mm a" if "a < rb_buffer b \<or> rb_buffer b + rb_size b \<le> a"
    using s that pos_bounds [OF d(1)] unfolding stored_list_def by (metis not_le)
qed

lemma ring_put_rule:
  assumes w: "ring_wf b" and o: "outside data n b"
  defines "m \<equiv> min n (rb_size b - rb_used b)"
  shows "\<exists>b' mm'. ring_buf_put b data n mm = (m, b', mm') \<and> ring_wf b' \<and> same_ring b b' \<and> rb_used b' = rb_used b + m \<and>
    ring_data b' mm' = ring_data b mm @ bytes data m mm \<and>
    (\<forall>a. a < rb_buffer b \<or> rb_buffer b + rb_size b \<le> a \<longrightarrow> mm' a = mm a)"
proof -
  note d = ring_claimedD [OF w]
  have le: "rb_used b + m \<le> rb_size b" using d(7) by (simp add: m_def)
  from put_loop_eq [OF w, of 0 data n 0 mm] d(7) o obtain mm' where
    l: "put_loop b data n 0 mm = (m, claim_put m b, mm')" and s: "stored b (offs (rb_put b)) data m mm mm'"
    by (auto simp: claim_none [OF w] m_def)
  from put_finish_eq [OF w le, of m] obtain b' where f: "ring_buf_put_finish (claim_put m b) m = (0, b')" "ring_wf b'"
    "rb_used b' = rb_used b + m" "rb_get b' = rb_get b" "same_ring b b'" by (auto simp: same_ring_def)
  note st = stored_list_append [OF w _ s [unfolded stored_stored_list] _ f(4,5)]
  show ?thesis using l f st le by (auto simp: ring_buf_put_def)
qed

lemma ring_fetch:
  assumes w: "ring_wf b" and o: "data \<noteq> 0 \<Longrightarrow> outside data n b"
  defines "m \<equiv> min n (rb_used b)"
  shows "\<exists>mm'. get_loop b data n 0 mm = (m, claim_get m b, mm') \<and> (data \<noteq> 0 \<longrightarrow> bytes data m mm' = take m (ring_data b mm)) \<and>
    (data = 0 \<longrightarrow> mm' = mm) \<and> (\<forall>a. a < data \<or> data + m \<le> a \<longrightarrow> mm' a = mm a)"
proof -
  from get_loop_eq [OF w, of 0 data n 0 mm] o obtain mm' where
    l: "get_loop b data n 0 mm = (m, claim_get m b, mm')" and c: "copied_out b (offs (rb_get b)) data m mm mm'"
    by (auto simp: claim_none [OF w] m_def)
  have "bytes data m mm' = take m (ring_data b mm)" if "data \<noteq> 0"
    using c that by (intro nth_equalityI) (simp_all add: copied_out_def fetched_def bytes_def ring_data_def m_def)
  moreover have "(data = 0 \<longrightarrow> mm' = mm) \<and> (\<forall>a. a < data \<or> data + m \<le> a \<longrightarrow> mm' a = mm a)"
    using c by (cases "data = 0") (simp_all add: copied_out_def fetched_def)
  ultimately show ?thesis using l by blast
qed

lemma ring_data_outside:
  assumes N: "0 < rb_size b" and "data \<noteq> 0 \<Longrightarrow> outside data n b" "m \<le> n"
    and "\<forall>a. a < data \<or> data + m \<le> a \<longrightarrow> mm' a = mm a" "data = 0 \<longrightarrow> mm' = mm"
  shows "mm' (pos b x) = mm (pos b x)"
  using pos_bounds [OF N, of x] assms(2-5) by (cases "data = 0") (auto simp: outside_def)

lemma ring_get_rule:
  assumes w: "ring_wf b" and o: "data \<noteq> 0 \<Longrightarrow> outside data n b"
  defines "m \<equiv> min n (rb_used b)"
  shows "\<exists>b' mm'. ring_buf_get b data n mm = (m, b', mm') \<and> ring_wf b' \<and> same_ring b b' \<and> rb_used b' = rb_used b - m \<and>
      ring_data b' mm' = drop m (ring_data b mm) \<and> (data \<noteq> 0 \<longrightarrow> bytes data m mm' = take m (ring_data b mm)) \<and>
      (\<forall>a. a < data \<or> data + m \<le> a \<longrightarrow> mm' a = mm a)"
    and "\<exists>b' mm'. ring_buf_peek b data n mm = (m, b', mm') \<and> ring_wf b' \<and> same_ring b b' \<and> rb_used b' = rb_used b \<and>
      ring_data b' mm' = ring_data b mm \<and> (data \<noteq> 0 \<longrightarrow> bytes data m mm' = take m (ring_data b mm)) \<and>
      (\<forall>a. a < data \<or> data + m \<le> a \<longrightarrow> mm' a = mm a)"
proof -
  have mn: "m \<le> n" "m \<le> rb_used b" by (simp_all add: m_def)
  from ring_fetch [OF w o, where mm = mm, folded m_def] obtain mm' where l: "get_loop b data n 0 mm = (m, claim_get m b, mm')"
    "data \<noteq> 0 \<longrightarrow> bytes data m mm' = take m (ring_data b mm)" "data = 0 \<longrightarrow> mm' = mm" "\<forall>a. a < data \<or> data + m \<le> a \<longrightarrow> mm' a = mm a" by blast
  note same = ring_data_outside [OF ring_claimedD(1) [OF w] o mn(1) l(4,3)]
  from get_finish_eq [OF w mn(2), of m] obtain b' where f: "ring_buf_get_finish (claim_get m b) m = (0, b')" "ring_wf b'"
    "rb_used b' = rb_used b - m" "offs (rb_get b') = (offs (rb_get b) + m) mod rb_size b" "same_ring b b'" by (auto simp: same_ring_def)
  have "ring_data b' mm' = drop m (ring_data b mm)"
    using mn by (intro nth_equalityI) (simp_all add: f(3,4) ring_data_nth pos_same [OF f(5)] same add.assoc)
  with l f show "\<exists>b' mm'. ring_buf_get b data n mm = (m, b', mm') \<and> ring_wf b' \<and> same_ring b b' \<and> rb_used b' = rb_used b - m \<and>
      ring_data b' mm' = drop m (ring_data b mm) \<and> (data \<noteq> 0 \<longrightarrow> bytes data m mm' = take m (ring_data b mm)) \<and>
      (\<forall>a. a < data \<or> data + m \<le> a \<longrightarrow> mm' a = mm a)" by (auto simp: ring_buf_get_def)
  from get_finish_eq [OF w mn(2), of 0] obtain b'' where g: "ring_buf_get_finish (claim_get m b) 0 = (0, b'')" "ring_wf b''"
    "rb_used b'' = rb_used b" "offs (rb_get b'') = offs (rb_get b) mod rb_size b" "same_ring b b''" by (auto simp: same_ring_def)
  have "ring_data b'' mm' = ring_data b mm" by (simp add: ring_data_def g(3,4) pos_same [OF g(5)] same)
  with l g show "\<exists>b' mm'. ring_buf_peek b data n mm = (m, b', mm') \<and> ring_wf b' \<and> same_ring b b' \<and> rb_used b' = rb_used b \<and>
      ring_data b' mm' = ring_data b mm \<and> (data \<noteq> 0 \<longrightarrow> bytes data m mm' = take m (ring_data b mm)) \<and>
      (\<forall>a. a < data \<or> data + m \<le> a \<longrightarrow> mm' a = mm a)" by (auto simp: ring_buf_peek_def)
qed

lemma stored_list_trans:
  assumes "stored_list b x hs mm mm1" "stored_list b (x + length hs) bs mm1 mm2" and le: "length hs + length bs \<le> rb_size b"
  shows "stored_list b x (hs @ bs) mm mm2"
  unfolding stored_list_def
proof (intro conjI allI impI)
  fix j assume j: "j < length (hs @ bs)"
  show "mm2 (pos b (x + j)) = (hs @ bs) ! j"
  proof (cases "j < length hs")
    case True
    then have "pos b (x + j) \<noteq> pos b (x + length hs + i)" if "i < length bs" for i
      using pos_inj [of j "length hs + i" b x] le that by (simp add: add.assoc)
    with assms True show ?thesis by (simp add: stored_list_def nth_append)
  next
    case False
    then obtain i where i: "j = length hs + i" "i < length bs" using j by (metis add_diff_inverse_nat add_less_cancel_left length_append)
    then have "mm2 (pos b (x + length hs + i)) = bs ! i" using assms(2) by (simp add: stored_list_def)
    then show ?thesis using i by (simp add: nth_append add.assoc)
  qed
next
  fix a assume a: "\<forall>j<length (hs @ bs). a \<noteq> pos b (x + j)"
  have "\<forall>j<length hs. a \<noteq> pos b (x + j)" using a by simp
  moreover have "a \<noteq> pos b (x + length hs + j)" if "j < length bs" for j
    using spec [OF a, of "length hs + j"] that by (simp add: add.assoc)
  ultimately show "mm2 a = mm a" using assms(1,2) by (simp add: stored_list_def)
qed

section \<open>Items in the ring\<close>

definition ring_aligned :: "ring_buf \<Rightarrow> bool" where
  "ring_aligned b \<longleftrightarrow> ring_wf b \<and> 4 dvd rb_size b \<and> 4 dvd offs (rb_get b) \<and> 4 dvd rb_used b"

definition item_bytes :: "ring_item \<Rightarrow> 8 word list" where
  "item_bytes it = [ucast (item_type it), ucast (drop_bit 8 (item_type it)), item_size32 it, item_value it]"

lemma length_item_bytes [simp]: "length (item_bytes it) = 4"
  by (simp add: item_bytes_def)

lemma aligned_room:
  assumes "4 dvd N" "4 dvd x" "0 < (N :: nat)"
  shows "4 \<le> N - x mod N"
proof -
  have "4 dvd N - x mod N" using assms by (intro dvd_diff_nat dvd_mod)
  moreover have "0 < N - x mod N" using assms(3) by simp
  ultimately show ?thesis by (rule dvd_imp_le)
qed

lemma less_4: "(j :: nat) < 4 \<longleftrightarrow> j = 0 \<or> j = 1 \<or> j = 2 \<or> j = 3"
  by auto

lemma header_stored:
  assumes r: "4 \<le> rb_size b - x mod rb_size b"
  shows "stored_list b x (item_bytes it) mm (put_header (pos b x) (item_type it) (item_size32 it) (item_value it) mm)"
proof -
  have p: "pos b (x + j) = pos b x + j" if "j < 4" for j using pos_run [of j b x] that r by simp
  show ?thesis unfolding stored_list_def length_item_bytes
    using p [of 0] p [of 1] p [of 2] p [of 3] by (auto simp: put_header_def item_bytes_def less_4 p)
qed

lemma item_put_rule:
  fixes it :: ring_item
  assumes a: "ring_aligned b" and o: "outside data (unat (item_size32 it) * 4) b"
  defines "sz \<equiv> unat (item_size32 it) * 4"
  shows "if sz + 4 > rb_size b - rb_used b
    then ring_buf_item_put b (item_type it) (item_value it) data (item_size32 it) mm = (- EMSGSIZE, b, mm)
    else \<exists>b' mm'. ring_buf_item_put b (item_type it) (item_value it) data (item_size32 it) mm = (0, b', mm') \<and> ring_aligned b' \<and>
      same_ring b b' \<and> ring_data b' mm' = ring_data b mm @ item_bytes it @ bytes data sz mm"
proof (cases "sz + 4 > rb_size b - rb_used b")
  case True
  then show ?thesis using ring_sizes(1) [of 0 0 b] a by (simp add: ring_buf_item_put_def Let_def sz_def ring_aligned_def)
next
  case False
  have w: "ring_wf b" using a by (simp add: ring_aligned_def)
  note d = ring_claimedD [OF w]
  let ?x = "offs (rb_put b)"
  have x4: "4 dvd ?x" using a d(9) by (simp add: ring_aligned_def) (metis dvd_add dvd_mod)
  have r: "4 \<le> rb_size b - ?x mod rb_size b" using aligned_room [OF _ x4 d(1)] a by (simp add: ring_aligned_def)
  have le: "rb_used b + (4 + sz) \<le> rb_size b" using False d(7) by simp
  have c: "ring_buf_put_claim b 4 = (4, pos b ?x, claim_put 4 b)"
    using put_claim_eq [OF w, of 0 4] le r d(7) by (simp add: claim_none [OF w])
  let ?mm = "put_header (pos b ?x) (item_type it) (item_size32 it) (item_value it) mm"
  note h = header_stored [OF r, of it mm]
  from put_loop_eq [OF w, of 4 data sz 4 ?mm] le o obtain mm' where l: "put_loop (claim_put 4 b) data sz 4 ?mm = (4 + sz, claim_put (4 + sz) b, mm')"
    "stored b (?x + 4) data sz ?mm mm'" by (auto simp: sz_def)
  have "bytes data sz ?mm = bytes data sz mm"
  proof (rule nth_equalityI)
    fix i assume "i < length (bytes data sz ?mm)"
    then have i: "i < sz" by simp
    have "data + i \<noteq> pos b (?x + j)" for j by (rule outside_pos [OF o d(1)]) (use i in \<open>simp add: sz_def\<close>)
    then have "?mm (data + i) = mm (data + i)" using h by (simp add: stored_list_def)
    with i show "bytes data sz ?mm ! i = bytes data sz mm ! i" by (simp add: bytes_def)
  qed simp
  then have s: "stored_list b ?x (item_bytes it @ bytes data sz mm) mm mm'"
    using stored_list_trans [OF h, of "bytes data sz mm" mm'] l(2) le by (simp add: stored_stored_list)
  from put_finish_eq [OF w le order_refl] obtain b' where f: "ring_buf_put_finish (claim_put (4 + sz) b) (4 + sz) = (0, b')" "ring_wf b'"
    "rb_used b' = rb_used b + (4 + sz)" "rb_get b' = rb_get b" "same_ring b b'" by (auto simp: same_ring_def)
  have "ring_data b' mm' = ring_data b mm @ item_bytes it @ bytes data sz mm"
    by (rule stored_list_append(1) [OF w _ s _ f(4,5)]) (use le f in simp_all)
  moreover have "ring_aligned b'" using a f by (simp add: ring_aligned_def same_ring_def sz_def)
  moreover have "ring_buf_item_put b (item_type it) (item_value it) data (item_size32 it) mm = (0, b', mm')"
    using False ring_sizes(1) [OF w] c l(1) f(1) by (simp add: ring_buf_item_put_def Let_def sz_def)
  ultimately show ?thesis using False f(5) by auto
qed

lemma copied_out_frame:
  assumes "copied_out b x data m mm mm'"
  shows "data = 0 \<longrightarrow> mm' = mm" "\<forall>a. a < data \<or> data + m \<le> a \<longrightarrow> mm' a = mm a"
  using assms by (cases "data = 0"; simp add: copied_out_def fetched_def)+

lemma type_bytes: "ucast (ucast (x :: 16 word) :: 8 word) OR push_bit 8 (ucast (ucast (drop_bit 8 x) :: 8 word)) = x"
  by (rule bit_word_eqI) (auto simp: bit_simps)

lemma item_get_rule:
  assumes a: "ring_aligned b" and q: "ring_data b mm = item_bytes it @ ds @ rest" "length ds = unat (item_size32 it) * 4"
    and o: "data \<noteq> 0 \<Longrightarrow> outside data (unat (item_size32 it) * 4) b"
  shows "if data \<noteq> 0 \<and> unat (item_size32 it) > unat (item_size32 out)
    then \<exists>b'. ring_buf_item_get b data out mm = (- EMSGSIZE, out\<lparr>item_size32 := item_size32 it\<rparr>, b', mm) \<and> ring_aligned b' \<and>
      ring_data b' mm = ring_data b mm
    else \<exists>b' mm'. ring_buf_item_get b data out mm = (0, it, b', mm') \<and> ring_aligned b' \<and> same_ring b b' \<and> ring_data b' mm' = rest \<and>
      (data \<noteq> 0 \<longrightarrow> bytes data (length ds) mm' = ds)"
proof -
  have w: "ring_wf b" using a by (simp add: ring_aligned_def)
  note d = ring_claimedD [OF w]
  let ?x = "offs (rb_get b)" and ?sz = "unat (item_size32 it) * 4"
  have u: "rb_used b = 4 + ?sz + length rest" using arg_cong [OF q(1), of length] q(2) by simp
  have r: "4 \<le> rb_size b - ?x mod rb_size b" using aligned_room [OF _ _ d(1), of ?x] a by (simp add: ring_aligned_def)
  have c: "ring_buf_get_claim b 4 = (4, pos b ?x, claim_get 4 b)"
    using get_claim_eq [OF w, of 0 4] u r by (simp add: claim_none [OF w])
  have hd: "mm (pos b ?x + j) = item_bytes it ! j" if "j < 4" for j
  proof -
    have "ring_data b mm ! j = mm (pos b (?x + j))" using that u by (intro ring_data_nth) simp
    moreover have "ring_data b mm ! j = item_bytes it ! j" using that by (simp add: q(1) nth_append)
    ultimately show ?thesis using pos_run [of j b ?x] that r by simp
  qed
  have h: "mm (pos b ?x) = ucast (item_type it)" "mm (pos b ?x + 1) = ucast (drop_bit 8 (item_type it))"
    "mm (pos b ?x + 2) = item_size32 it" "mm (pos b ?x + 3) = item_value it"
    using hd [of 0] hd [of 1] hd [of 2] hd [of 3] by (simp_all add: item_bytes_def)
  have ne: "\<not> ring_buf_is_empty b" using ring_sizes(3) [OF w] u by simp
  have it: "\<lparr>item_type = ucast (mm (pos b ?x)) OR push_bit 8 (ucast (mm (pos b ?x + 1))), item_value = mm (pos b ?x + 3),
      item_size32 = mm (pos b ?x + 2)\<rparr> = it"
    unfolding h type_bytes by simp
  show ?thesis
  proof (cases "data \<noteq> 0 \<and> unat (item_size32 it) > unat (item_size32 out)")
    case True
    from get_finish_eq [OF w, of 4 0] u obtain b' where f: "ring_buf_get_finish (claim_get 4 b) 0 = (0, b')" "ring_wf b'"
      "rb_used b' = rb_used b" "offs (rb_get b') = ?x mod rb_size b" "same_ring b b'" by (auto simp: same_ring_def)
    have "ring_data b' mm = ring_data b mm" by (simp add: ring_data_def f(3,4) pos_same [OF f(5)])
    moreover have "ring_aligned b'" using a f by (auto simp: ring_aligned_def same_ring_def intro: dvd_mod)
    ultimately show ?thesis using True ne c f(1) by (simp add: ring_buf_item_get_def Let_def h(3) del: add_2_eq_Suc')
  next
    case False
    have p: "4 \<le> rb_used b" "4 + ?sz \<le> rb_used b" using u by simp_all
    from get_loop_eq [OF w p(1), of data ?sz 4 mm] o u obtain mm' where
      l: "get_loop (claim_get 4 b) data ?sz 4 mm = (4 + ?sz, claim_get (4 + ?sz) b, mm')" "copied_out b (?x + 4) data ?sz mm mm'" by auto
    from get_finish_eq [OF w p(2) order_refl] obtain b' where f: "ring_buf_get_finish (claim_get (4 + ?sz) b) (4 + ?sz) = (0, b')" "ring_wf b'"
      "rb_used b' = rb_used b - (4 + ?sz)" "offs (rb_get b') = (?x + (4 + ?sz)) mod rb_size b" "same_ring b b'" by (auto simp: same_ring_def)
    have same: "mm' (pos b y) = mm (pos b y)" for y
      by (rule ring_data_outside [OF d(1) o order_refl]) (use copied_out_frame [OF l(2)] in blast)+
    have "rest ! i = mm (pos b (?x + (4 + ?sz) + i))" if "i < length rest" for i
    proof -
      have "rest ! i = ring_data b mm ! (4 + ?sz + i)" using q(2) by (simp add: q(1) nth_append)
      also have "\<dots> = mm (pos b (?x + (4 + ?sz + i)))" using that u by (intro ring_data_nth) simp
      finally show ?thesis by (simp add: add.assoc)
    qed
    then have "ring_data b' mm' = rest"
      using u by (intro nth_equalityI) (simp_all add: f(3,4) ring_data_nth pos_same [OF f(5)] same)
    moreover have "bytes data (length ds) mm' = ds" if "data \<noteq> 0"
    proof (rule nth_equalityI)
      fix i assume "i < length (bytes data (length ds) mm')"
      then have i: "i < ?sz" using q(2) by simp
      have "ds ! i = ring_data b mm ! (4 + i)" using i q(2) by (simp add: q(1) nth_append)
      also have "\<dots> = mm (pos b (?x + 4 + i))" using ring_data_nth [of "4 + i" b mm] i u by (simp add: add.assoc)
      also have "\<dots> = mm' (data + i)" using l(2) that i by (simp add: copied_out_def fetched_def)
      finally show "bytes data (length ds) mm' ! i = ds ! i" using i q(2) by (simp add: bytes_def)
    qed simp
    moreover have "ring_aligned b'" using a f by (auto simp: ring_aligned_def same_ring_def intro!: dvd_mod dvd_diff_nat)
    moreover have "ring_buf_item_get b data out mm = (0, it, b', mm')"
      using False ne c l(1) f(1) it [unfolded h(3)]
      by (cases "data = 0") (simp_all add: ring_buf_item_get_def Let_def h(3) del: add_2_eq_Suc')
    ultimately show ?thesis using False f(5) by auto
  qed
qed

section \<open>Properties\<close>

text \<open>The operations on a queue of at most \<open>cap\<close> bytes: the count returned, the bytes copied out, the queue.\<close>

datatype ring_op = RPut nat nat | RGet nat nat | RPeek nat nat | RReset

fun ring_exec :: "ring_op \<Rightarrow> ring_buf \<Rightarrow> bmem \<Rightarrow> nat \<times> ring_buf \<times> bmem" where
  "ring_exec (RPut data n) b mm = ring_buf_put b data n mm"
| "ring_exec (RGet data n) b mm = ring_buf_get b data n mm"
| "ring_exec (RPeek data n) b mm = ring_buf_peek b data n mm"
| "ring_exec RReset b mm = (0, ring_buf_reset b, mm)"

fun ring_spec :: "nat \<Rightarrow> bmem \<Rightarrow> ring_op \<Rightarrow> 8 word list \<Rightarrow> nat \<times> 8 word list \<times> 8 word list" where
  "ring_spec cap mm (RPut data n) q = (min n (cap - length q), [], q @ take (cap - length q) (bytes data n mm))"
| "ring_spec cap mm (RGet data n) q = (min n (length q), take n q, drop n q)"
| "ring_spec cap mm (RPeek data n) q = (min n (length q), take n q, q)"
| "ring_spec cap mm RReset q = (0, [], [])"

fun ring_area :: "ring_op \<Rightarrow> nat \<times> nat" where
  "ring_area (RPut data n) = (data, n)"
| "ring_area (RGet data n) = (data, n)"
| "ring_area (RPeek data n) = (data, n)"
| "ring_area RReset = (0, 0)"

text \<open>
  C0: The ring buffer is a bounded queue of bytes.  On a well-formed ring with no outstanding claim, at any position
  of its wrapping 16-bit indices, \<^verbatim>\<open>ring_buf_put\<close> appends as many of the given bytes as fit and returns their
  number, \<^verbatim>\<open>ring_buf_get\<close> removes the oldest bytes and copies them out (or discards them, for a null pointer),
  \<^verbatim>\<open>ring_buf_peek\<close> copies them and removes nothing, and \<^verbatim>\<open>ring_buf_reset\<close> empties the ring.  The ring stays well
  formed, no byte outside the ring and the caller's area changes, and the sizes reported are those of the queue.
\<close>

theorem ring_refines_bytes:
  assumes w: "ring_wf b" and o: "fst (ring_area op) \<noteq> 0 \<Longrightarrow> outside (fst (ring_area op)) (snd (ring_area op)) b"
    and nn: "op = RReset \<or> fst (ring_area op) \<noteq> 0 \<or> (\<exists>n. op = RGet 0 n)"
    and s: "ring_spec (rb_size b) mm op (ring_data b mm) = (r, out, q)"
  shows "\<exists>b' mm'. ring_exec op b mm = (r, b', mm') \<and> ring_wf b' \<and> same_ring b b' \<and> ring_data b' mm' = q \<and>
    (fst (ring_area op) \<noteq> 0 \<and> out \<noteq> [] \<longrightarrow> bytes (fst (ring_area op)) (length out) mm' = out) \<and>
    (\<forall>a. (a < rb_buffer b \<or> rb_buffer b + rb_size b \<le> a) \<and>
       (a < fst (ring_area op) \<or> fst (ring_area op) + snd (ring_area op) \<le> a) \<longrightarrow> mm' a = mm a) \<and>
    ring_buf_size_get b' = length q \<and> ring_buf_space_get b' = rb_size b - length q \<and> (ring_buf_is_empty b' \<longleftrightarrow> q = [])"
proof -
  have g: "ring_buf_size_get b' = length (ring_data b' mm') \<and> ring_buf_space_get b' = rb_size b - length (ring_data b' mm') \<and>
      (ring_buf_is_empty b' \<longleftrightarrow> ring_data b' mm' = [])" if "ring_wf b'" "same_ring b b'" for b' mm'
    using ring_sizes [OF that(1)] that(2) by (simp add: same_ring_def) (simp add: ring_data_def)
  have dt: "drop (min n (rb_used b)) (ring_data b mm) = drop n (ring_data b mm)"
    "take (min n (rb_used b)) (ring_data b mm) = take n (ring_data b mm)" for n by (simp_all add: min_def)
  show ?thesis
  proof (cases op)
    case (RPut data n)
    have tk: "bytes data (min n k) mm = take k (bytes data n mm)" for k by (simp add: bytes_def take_map take_upt min_def)
    have "outside data n b" using o nn RPut by auto
    from ring_put_rule [OF w this, of mm] obtain b' mm' where r: "ring_exec op b mm = (r, b', mm')" "ring_wf b'" "same_ring b b'"
      "ring_data b' mm' = q" "\<forall>a. a < rb_buffer b \<or> rb_buffer b + rb_size b \<le> a \<longrightarrow> mm' a = mm a" "out = []"
      using s by (auto simp: RPut tk)
    with g [OF r(2,3), of mm'] show ?thesis by blast
  next
    case (RGet data n)
    from ring_get_rule(1) [OF w, of data n mm, unfolded dt] obtain b' mm' where r: "ring_exec op b mm = (r, b', mm')" "ring_wf b'"
      "same_ring b b'" "ring_data b' mm' = q" "data \<noteq> 0 \<longrightarrow> bytes data (length out) mm' = out"
      "\<forall>a. a < data \<or> data + min n (rb_used b) \<le> a \<longrightarrow> mm' a = mm a"
      using o s by (auto simp: RGet min.commute)
    then have "\<forall>a. a < data \<or> data + n \<le> a \<longrightarrow> mm' a = mm a" by auto
    with r g [OF r(2,3), of mm'] show ?thesis unfolding RGet ring_area.simps fst_conv snd_conv by blast
  next
    case (RPeek data n)
    from ring_get_rule(2) [OF w, of data n mm, unfolded dt] obtain b' mm' where r: "ring_exec op b mm = (r, b', mm')" "ring_wf b'"
      "same_ring b b'" "ring_data b' mm' = q" "data \<noteq> 0 \<longrightarrow> bytes data (length out) mm' = out"
      "\<forall>a. a < data \<or> data + min n (rb_used b) \<le> a \<longrightarrow> mm' a = mm a"
      using o s by (auto simp: RPeek min.commute)
    then have "\<forall>a. a < data \<or> data + n \<le> a \<longrightarrow> mm' a = mm a" by auto
    with r g [OF r(2,3), of mm'] show ?thesis unfolding RPeek ring_area.simps fst_conv snd_conv by blast
  next
    case RReset
    have "ring_wf (ring_buf_reset b)" "ring_data (ring_buf_reset b) mm = []" "same_ring b (ring_buf_reset b)"
      using ring_claimedD(1,2) [OF w] by (simp_all add: ring_claimed_def ring_buf_reset_def ring_buf_internal_reset_def rb_used_def
          ring_data_def RING_BUFFER_MAX_SIZE_def same_ring_def)
    with s g [of "ring_buf_reset b" mm] show ?thesis by (simp add: RReset)
  qed
qed

text \<open>A ring of 8 bytes whose indices are about to wrap, with two bytes in it.\<close>

definition wrapping_ring :: ring_buf where
  "wrapping_ring = \<lparr>rb_buffer = 1000, rb_put = \<lparr>r_head = 65535, r_tail = 65535, r_base = 65528\<rparr>,
     rb_get = \<lparr>r_head = 65533, r_tail = 65533, r_base = 65528\<rparr>, rb_size = 8\<rparr>"

theorem ring_refines_bytes_witness:
  "\<exists>b' mm'. ring_exec (RPut 2000 10) wrapping_ring (\<lambda>a. of_nat a) = (6, b', mm') \<and> ring_wf b' \<and>
     ring_data b' mm' = [of_nat 1005, of_nat 1006] @ map of_nat [2000..<2006]"
proof -
  have w: "ring_wf wrapping_ring" by (simp add: ring_claimed_def wrapping_ring_def rb_used_def RING_BUFFER_MAX_SIZE_def)
  have d: "ring_data wrapping_ring (\<lambda>a. of_nat a) = [of_nat 1005, of_nat 1006]" "rb_size wrapping_ring = 8" by code_simp+
  have "outside 2000 10 wrapping_ring" by (simp add: outside_def wrapping_ring_def)
  with ring_refines_bytes [OF w, of "RPut 2000 10" "\<lambda>a. of_nat a" 6 "[]" "[of_nat 1005, of_nat 1006] @ map of_nat [2000..<2006]"]
  show ?thesis by (auto simp: d bytes_def take_map simp del: ring_exec.simps)
qed

text \<open>The zero-copy calls give the area a claim would give, and finish it the same way.\<close>

lemma put_ptr_eq:
  assumes w: "ring_wf b" and k: "k \<le> rb_size b - rb_used b"
  shows "ring_buf_put_ptr b k = (min (rb_size b - rb_used b - k) (rb_size b - (offs (rb_put b) + k) mod rb_size b), pos b (offs (rb_put b) + k))"
    "ring_buf_commit b k = snd (ring_buf_put_finish (claim_put k b) k)"
proof -
  note d = ring_claimedD [OF w]
  have le: "rb_used b + k \<le> rb_size b" using k d(7) by simp
  have kk: "k \<le> rb_size b" using k by simp
  have h: "r_head (rb_put b) = r_tail (rb_put b)" using d(3) by simp
  have x: "unat (r_head (rb_put b) - r_base (rb_put b) + of_nat k) = offs (rb_put b) + k"
    unfolding h by (rule unat_plus16) (use d(2,5) kk in simp)
  define ho where "ho = (if rb_size b \<le> offs (rb_put b) + k then r_head (rb_put b) - r_base (rb_put b) + of_nat k - of_nat (rb_size b)
    else r_head (rb_put b) - r_base (rb_put b) + of_nat k)"
  have lt: "offs (rb_put b) + k < 2 * rb_size b" using d(5) kk by simp
  have ho: "unat ho = (offs (rb_put b) + k) mod rb_size b"
    using unat_minus16 [of "rb_size b" "r_head (rb_put b) - r_base (rb_put b) + of_nat k"] x mod_once [OF d(1) lt] by (simp add: ho_def)
  have wr: "unat (of_nat (rb_size b) - ho) = rb_size b - (offs (rb_put b) + k) mod rb_size b"
    using unat_rev16 [of ho "rb_size b"] ho d(1,2) by simp
  have sp: "unat (of_nat (rb_size b - rb_used b) - of_nat k :: 16 word) = rb_size b - rb_used b - k"
    using unat_rev16 [of "of_nat k" "rb_size b - rb_used b"] k d(2) kk by (simp add: unat_of_nat)
  show "ring_buf_put_ptr b k = (min (rb_size b - rb_used b - k) (rb_size b - (offs (rb_put b) + k) mod rb_size b), pos b (offs (rb_put b) + k))"
    using ring_sizes(1) [OF w] sp wr by (simp add: ring_buf_put_ptr_def Let_def x ho_def [symmetric] ho pos_def)
  have "unat (r_head (rb_put (claim_put k b)) - r_tail (rb_put b)) = k" using kk d(2) by (simp add: claim_put_def unat_of_nat)
  then show "ring_buf_commit b k = snd (ring_buf_put_finish (claim_put k b) k)"
    by (simp add: ring_buf_commit_def ring_buf_put_finish_def ring_buf_area_finish_def Let_def claim_put_def)
qed

lemma get_ptr_eq:
  assumes w: "ring_wf b" and k: "k \<le> rb_used b"
  shows "ring_buf_get_ptr b k = (min (rb_used b - k) (rb_size b - (offs (rb_get b) + k) mod rb_size b), pos b (offs (rb_get b) + k))"
    "ring_buf_consume b k = snd (ring_buf_get_finish (claim_get k b) k)"
proof -
  note d = ring_claimedD [OF w]
  have kk: "k \<le> rb_size b" using k d(7) by simp
  have h: "r_head (rb_get b) = r_tail (rb_get b)" using d(4) by simp
  have x: "unat (r_head (rb_get b) - r_base (rb_get b) + of_nat k) = offs (rb_get b) + k"
    unfolding h by (rule unat_plus16) (use d(2,6) kk in simp)
  define ho where "ho = (if rb_size b \<le> offs (rb_get b) + k then r_head (rb_get b) - r_base (rb_get b) + of_nat k - of_nat (rb_size b)
    else r_head (rb_get b) - r_base (rb_get b) + of_nat k)"
  have lt: "offs (rb_get b) + k < 2 * rb_size b" using d(6) kk by simp
  have ho: "unat ho = (offs (rb_get b) + k) mod rb_size b"
    using unat_minus16 [of "rb_size b" "r_head (rb_get b) - r_base (rb_get b) + of_nat k"] x mod_once [OF d(1) lt] by (simp add: ho_def)
  have wr: "unat (of_nat (rb_size b) - ho) = rb_size b - (offs (rb_get b) + k) mod rb_size b"
    using unat_rev16 [of ho "rb_size b"] ho d(1,2) by simp
  have sp: "unat (of_nat (rb_used b) - of_nat k :: 16 word) = rb_used b - k"
    using unat_rev16 [of "of_nat k" "rb_used b"] k d(2,7) by (simp add: unat_of_nat)
  show "ring_buf_get_ptr b k = (min (rb_used b - k) (rb_size b - (offs (rb_get b) + k) mod rb_size b), pos b (offs (rb_get b) + k))"
    using ring_sizes(2) [OF w] sp wr by (simp add: ring_buf_get_ptr_def Let_def x ho_def [symmetric] ho pos_def)
  have "unat (r_head (rb_get (claim_get k b)) - r_tail (rb_get b)) = k" using kk d(2) by (simp add: claim_get_def unat_of_nat)
  then show "ring_buf_consume b k = snd (ring_buf_get_finish (claim_get k b) k)"
    by (simp add: ring_buf_consume_def ring_buf_get_finish_def ring_buf_area_finish_def Let_def claim_get_def)
qed

text \<open>A ring that holds the items \<open>xs\<close>, each a header and its data.\<close>

definition ring_items :: "(ring_item \<times> 8 word list) list \<Rightarrow> ring_buf \<Rightarrow> bmem \<Rightarrow> bool" where
  "ring_items xs b mm \<longleftrightarrow> ring_aligned b \<and> ring_data b mm = concat (map (\<lambda>x. item_bytes (fst x) @ snd x) xs) \<and>
     (\<forall>x\<in>set xs. length (snd x) = 4 * unat (item_size32 (fst x)))"

text \<open>
  C0: What the item interface stores it gives back.  \<^verbatim>\<open>ring_buf_item_put\<close> adds an item behind those in the
  ring, or returns \<^verbatim>\<open>-EMSGSIZE\<close> and changes nothing when header and data do not fit; \<^verbatim>\<open>ring_buf_item_get\<close> returns the type, value,
  length and data of the oldest item and removes it, returns \<^verbatim>\<open>-EMSGSIZE\<close> and keeps it when the destination is too
  small, and \<^verbatim>\<open>-EAGAIN\<close> when there is none.
\<close>

theorem ring_items_fifo:
  assumes r: "ring_items xs b mm" and o: "outside data (unat (item_size32 it) * 4) b"
    and o': "xs \<noteq> [] \<Longrightarrow> outside dst (unat (item_size32 (fst (hd xs))) * 4) b" and "dst \<noteq> 0"
  shows "(if unat (item_size32 it) * 4 + 4 > rb_size b - length (ring_data b mm)
       then ring_buf_item_put b (item_type it) (item_value it) data (item_size32 it) mm = (- EMSGSIZE, b, mm)
       else \<exists>b' mm'. ring_buf_item_put b (item_type it) (item_value it) data (item_size32 it) mm = (0, b', mm') \<and>
              ring_items (xs @ [(it, bytes data (unat (item_size32 it) * 4) mm)]) b' mm') \<and>
    (case xs of [] \<Rightarrow> ring_buf_item_get b dst out mm = (- EAGAIN, out, b, mm)
     | x # rest \<Rightarrow>
         if unat (item_size32 (fst x)) > unat (item_size32 out)
         then \<exists>b'. ring_buf_item_get b dst out mm = (- EMSGSIZE, out\<lparr>item_size32 := item_size32 (fst x)\<rparr>, b', mm) \<and> ring_items xs b' mm
         else \<exists>b' mm'. ring_buf_item_get b dst out mm = (0, fst x, b', mm') \<and> ring_items rest b' mm' \<and>
                bytes dst (length (snd x)) mm' = snd x)"
proof
  have a: "ring_aligned b" "ring_wf b" using r by (simp_all add: ring_items_def ring_aligned_def)
  show "if unat (item_size32 it) * 4 + 4 > rb_size b - length (ring_data b mm)
       then ring_buf_item_put b (item_type it) (item_value it) data (item_size32 it) mm = (- EMSGSIZE, b, mm)
       else \<exists>b' mm'. ring_buf_item_put b (item_type it) (item_value it) data (item_size32 it) mm = (0, b', mm') \<and>
              ring_items (xs @ [(it, bytes data (unat (item_size32 it) * 4) mm)]) b' mm'"
    using item_put_rule [OF a(1) o, of mm] r unfolding length_ring_data by (auto simp: ring_items_def split: if_splits)
  show "case xs of [] \<Rightarrow> ring_buf_item_get b dst out mm = (- EAGAIN, out, b, mm)
     | x # rest \<Rightarrow>
         if unat (item_size32 (fst x)) > unat (item_size32 out)
         then \<exists>b'. ring_buf_item_get b dst out mm = (- EMSGSIZE, out\<lparr>item_size32 := item_size32 (fst x)\<rparr>, b', mm) \<and> ring_items xs b' mm
         else \<exists>b' mm'. ring_buf_item_get b dst out mm = (0, fst x, b', mm') \<and> ring_items rest b' mm' \<and>
                bytes dst (length (snd x)) mm' = snd x"
  proof (cases xs)
    case Nil
    then have "rb_used b = 0" using r length_ring_data [of b mm] by (simp add: ring_items_def)
    then show ?thesis using ring_sizes(3) [OF a(2)] by (simp add: Nil ring_buf_item_get_def)
  next
    case (Cons x rest)
    have q: "ring_data b mm = item_bytes (fst x) @ snd x @ concat (map (\<lambda>x. item_bytes (fst x) @ snd x) rest)"
      "length (snd x) = unat (item_size32 (fst x)) * 4" "\<forall>y\<in>set rest. length (snd y) = 4 * unat (item_size32 (fst y))"
      using r by (simp_all add: ring_items_def Cons)
    have od: "outside dst (unat (item_size32 (fst x)) * 4) b" using o' Cons by simp
    note g = item_get_rule [OF a(1) q(1,2), of dst out]
    show ?thesis
    proof (cases "unat (item_size32 (fst x)) > unat (item_size32 out)")
      case True
      with g od assms(4) q r show ?thesis by (auto simp: Cons ring_items_def)
    next
      case False
      with g od assms(4) q r show ?thesis by (auto simp: Cons ring_items_def)
    qed
  qed
qed

text \<open>A ring of 16 bytes with an item that has no data, at the end of the buffer.\<close>

definition item_ring :: ring_buf where
  "item_ring = \<lparr>rb_buffer = 1000, rb_put = \<lparr>r_head = 0, r_tail = 0, r_base = 0\<rparr>,
     rb_get = \<lparr>r_head = 65532, r_tail = 65532, r_base = 65520\<rparr>, rb_size = 16\<rparr>"

definition item_mem :: bmem where
  "item_mem a = (if a = 1012 then 7 else if a = 1015 then 9 else if 2000 \<le> a then of_nat a else 0)"

theorem ring_items_fifo_witness:
  "(\<exists>b' mm'. ring_buf_item_put item_ring 5 6 2000 1 item_mem = (0, b', mm') \<and>
      ring_items [(\<lparr>item_type = 7, item_value = 9, item_size32 = 0\<rparr>, []),
        (\<lparr>item_type = 5, item_value = 6, item_size32 = 1\<rparr>, bytes 2000 4 item_mem)] b' mm') \<and>
   (\<exists>b' mm'. ring_buf_item_get item_ring 3000 \<lparr>item_type = 0, item_value = 0, item_size32 = 8\<rparr> item_mem =
      (0, \<lparr>item_type = 7, item_value = 9, item_size32 = 0\<rparr>, b', mm') \<and> ring_items [] b' mm')"
proof -
  let ?x = "(\<lparr>item_type = 7, item_value = 9, item_size32 = 0\<rparr>, [] :: 8 word list)"
  have d: "ring_data item_ring item_mem = item_bytes (fst ?x)" "rb_size item_ring = 16" by code_simp+
  have "ring_items [?x] item_ring item_mem"
    by (simp add: ring_items_def d) (simp add: ring_aligned_def ring_claimed_def item_ring_def rb_used_def RING_BUFFER_MAX_SIZE_def)
  moreover have "outside 2000 4 item_ring" "outside 3000 0 item_ring" by (simp_all add: outside_def item_ring_def)
  ultimately show ?thesis
    using ring_items_fifo [of "[?x]" item_ring item_mem 2000 "\<lparr>item_type = 5, item_value = 6, item_size32 = 1\<rparr>" 3000
        "\<lparr>item_type = 0, item_value = 0, item_size32 = 8\<rparr>"] by (simp add: d) blast
qed

end
