(* ===== verification/Kernel_Objects.thy ===== *)
theory Kernel_Objects
  imports Sched_Props Sys_Slist Ring_Buffer
begin

text \<open>
  The kernel objects as \<^verbatim>\<open>include/zephyr/kernel.h\<close> declares them, the state that holds them, and what the
  scheduler promises the code of an object: the effect of waking the first waiter, of waking
  all of them and of giving up the processor afterwards.  The wait queue of an object is the
  entry of the scheduler's \<open>waitq\<close> that names it.  Message buffers live in a byte memory \<open>mem\<close>, stack
  buffers, the free list of a memory slab and the nodes of a queue in a memory of words \<open>words\<close>;
  both are indexed by address.
\<close>

section \<open>Objects\<close>

record k_sem =
  sem_count :: int
  sem_limit :: int

record k_mutex =
  owner :: "tid option"
  lock_count :: int

record k_msgq =
  msg_size :: nat
  max_msgs :: nat
  buffer_start :: nat
  buffer_end :: nat
  read_ptr :: nat
  write_ptr :: nat
  used_msgs :: nat
  msgq_alloc :: bool

record k_stack =
  stk_base :: nat
  stk_next :: nat
  stk_top :: nat
  stk_alloc :: bool

record k_mem_slab =
  slab_buffer :: nat
  free_list :: nat
  num_blocks :: nat
  block_size :: nat
  num_used :: nat
  max_used :: nat

record k_event =
  event_bits :: "32 word"

record k_timer =
  timer_period :: int
  timer_status :: int
  expiry_fn :: "nat option"
  stop_fn :: "nat option"
  timer_user_data :: nat

record k_queue =
  data_q :: genlist

record k_pipe =
  pipe_waiting :: nat
  pipe_buf :: ring_buf
  pipe_flags :: "8 word"

record kobjs =
  sems :: "nat \<Rightarrow> k_sem"
  mutexes :: "nat \<Rightarrow> k_mutex"
  msgqs :: "nat \<Rightarrow> k_msgq"
  stacks :: "nat \<Rightarrow> k_stack"
  slabs :: "nat \<Rightarrow> k_mem_slab"
  events :: "nat \<Rightarrow> k_event"
  timers :: "nat \<Rightarrow> k_timer"
  queues :: "nat \<Rightarrow> k_queue"
  pipes :: "nat \<Rightarrow> k_pipe"
  mem :: "nat \<Rightarrow> 8 word"
  words :: "nat \<Rightarrow> nat"

type_synonym kernel = "kobjs kstate"

definition upd_objs :: "(kobjs \<Rightarrow> kobjs) \<Rightarrow> kernel \<Rightarrow> kernel" where
  "upd_objs f s = s\<lparr>objs := f (objs s)\<rparr>"

definition upd_words :: "nat \<Rightarrow> nat \<Rightarrow> kernel \<Rightarrow> kernel" where
  "upd_words a v = upd_objs (\<lambda>b. b\<lparr>words := (words b)(a := v)\<rparr>)"

definition z_waitq_init :: "wqid \<Rightarrow> kernel \<Rightarrow> kernel" where
  "z_waitq_init w s = s\<lparr>waitq := (waitq s)(w := z_priq_simple_init)\<rparr>"

section \<open>The state apart from the objects\<close>

lemma upd_objs_sel [simp]:
  "objs (upd_objs f s) = f (objs s)" "threads (upd_objs f s) = threads s" "runq (upd_objs f s) = runq s"
  "cache (upd_objs f s) = cache s" "current (upd_objs f s) = current s"
  "idle_thread (upd_objs f s) = idle_thread s" "dummy_thread (upd_objs f s) = dummy_thread s"
  "waitq (upd_objs f s) = waitq s" "in_isr (upd_objs f s) = in_isr s"
  "irq_unlocked (upd_objs f s) = irq_unlocked s" "fatal (upd_objs f s) = fatal s"
  "tq (upd_objs f s) = tq s" "curr_tick (upd_objs f s) = curr_tick s" "tfn (upd_objs f s) = tfn s"
  "announcing_cpu (upd_objs f s) = announcing_cpu s"
  "announce_remaining (upd_objs f s) = announce_remaining s" "clk_elapsed (upd_objs f s) = clk_elapsed s"
  "elapsed (upd_objs f s) = elapsed s" "armed (upd_objs f s) = armed s"
  by (simp_all add: upd_objs_def elapsed_def this_cpu_announcing_def)

lemma upd_objs_inv [simp]:
  "sinv X (upd_objs f s) = sinv X s" "cache_ok (upd_objs f s) = cache_ok s"
  "sched_ok (upd_objs f s) = sched_ok s" "resched_ok (upd_objs f s) = resched_ok s"
  "timeout_fits n (upd_objs f s) = timeout_fits n s"
  by (simp_all add: upd_objs_def cache_ok_def sched_ok_def resched_ok_def timeout_fits_def elapsed_def
      this_cpu_announcing_def)

lemma upd_objs_comp [simp]: "upd_objs f (upd_objs g s) = upd_objs (f \<circ> g) s"
  by (simp add: upd_objs_def)

lemma upd_words_sel [simp]:
  "objs (upd_words a v s) = (objs s)\<lparr>words := (words (objs s))(a := v)\<rparr>"
  "waitq (upd_words a v s) = waitq s" "threads (upd_words a v s) = threads s" "current (upd_words a v s) = current s"
  "in_isr (upd_words a v s) = in_isr s" "idle_thread (upd_words a v s) = idle_thread s"
  "sched_ok (upd_words a v s) = sched_ok s" "resched_ok (upd_words a v s) = resched_ok s"
  "sinv X (upd_words a v s) = sinv X s" "timeout_fits n (upd_words a v s) = timeout_fits n s"
  by (simp_all add: upd_words_def)

lemma reschedule_sel [simp]:
  "objs (reschedule s) = objs s" "runq (reschedule s) = runq s" "waitq (reschedule s) = waitq s"
  "in_isr (reschedule s) = in_isr s" "irq_unlocked (reschedule s) = irq_unlocked s"
  "idle_thread (reschedule s) = idle_thread s" "dummy_thread (reschedule s) = dummy_thread s"
  "armed (reschedule s) = armed s" "curr_tick (reschedule s) = curr_tick s" "tq (reschedule s) = tq s"
  "threads (reschedule s) u = (if u = current s \<and> resched s \<and> need_swap s
     then (threads s u)\<lparr>swap_retval := - EAGAIN\<rparr> else threads s u)"
  by (simp_all add: reschedule_def do_swap_state)

text \<open>Giving up the processor touches nothing of the calling thread but its \<open>swap_retval\<close>.\<close>

definition retval_diff :: "k_thread \<Rightarrow> k_thread \<Rightarrow> bool" where
  "retval_diff a b \<longleftrightarrow> b = a\<lparr>swap_retval := swap_retval b\<rparr>"

lemma retval_diff_refl [simp]: "retval_diff a a" "retval_diff a (a\<lparr>swap_retval := v\<rparr>)"
  by (simp_all add: retval_diff_def)

lemma retval_diff_sel:
  assumes "retval_diff a b"
  shows "prio b = prio a" "sched_locked b = sched_locked a" "thread_state b = thread_state a"
    "user_options b = user_options a" "pended_on b = pended_on a" "swap_data b = swap_data a"
    "thread_events b = thread_events a" "event_options b = event_options a" "held_mutexes b = held_mutexes a"
    "mutex_pended_on b = mutex_pended_on a" "orig_prio b = orig_prio a"
    "z_is_thread_ready b = z_is_thread_ready a" "z_is_thread_pending b = z_is_thread_pending a"
    "z_is_thread_dead b = z_is_thread_dead a"
proof -
  obtain v where b: "b = a\<lparr>swap_retval := v\<rparr>" using assms unfolding retval_diff_def by blast
  show "prio b = prio a" "sched_locked b = sched_locked a" "thread_state b = thread_state a"
    "user_options b = user_options a" "pended_on b = pended_on a" "swap_data b = swap_data a"
    "thread_events b = thread_events a" "event_options b = event_options a" "held_mutexes b = held_mutexes a"
    "mutex_pended_on b = mutex_pended_on a" "orig_prio b = orig_prio a" by (simp_all add: b)
  have st: "thread_state b = thread_state a" by (simp add: b)
  show "z_is_thread_ready b = z_is_thread_ready a" "z_is_thread_pending b = z_is_thread_pending a"
    "z_is_thread_dead b = z_is_thread_dead a" by (rule thread_state_tests_cong [OF st])+
qed

lemma reschedule_retval: "retval_diff (threads s u) (threads (reschedule s) u)"
  by simp

lemma reschedule_upd_objs: "reschedule (upd_objs f s) = upd_objs f (reschedule s)"
  by (simp add: reschedule_def resched_def need_swap_def do_swap_state) (simp add: upd_objs_def upd_thread_def)

section \<open>The contract of the scheduler\<close>

text \<open>
  After the first waiter is woken and the processor rescheduled, the waiter has left the queue
  with the values it was handed and everything else is as before, except that the calling
  thread may have been switched out.
\<close>

lemma wake_resched_rule:
  fixes s :: "'o kstate"
  assumes s: "sched_ok s" and w: "waitq s w = t # ts" and g: "keeps_state g"
  defines "s' \<equiv> reschedule (wake_turn g t s)"
  shows "sched_ok s'" "resched_ok s'" "waitq s' = (waitq s)(w := ts)" "objs s' = objs s"
    "in_isr s' = in_isr s" "irq_unlocked s' = irq_unlocked s" "armed s' u \<longleftrightarrow> armed s u \<and> u \<noteq> t"
    "\<not> in_isr s \<Longrightarrow> t \<noteq> current s" "threads s' t = waked g (threads s t)"
    "u \<noteq> t \<Longrightarrow> u \<noteq> current s \<Longrightarrow> threads s' u = threads s u" "u \<noteq> t \<Longrightarrow> retval_diff (threads s u) (threads s' u)"
    "idle_thread s' = idle_thread s"
proof -
  note i = sched_okD [OF s]
  have p: "pended_on (threads s t) = Some w" by (rule waitq_head_pended(2) [OF i(1) w])
  have e: "t \<notin> {}" by simp
  note r = wake_turn_rule [OF i(1) p e g]
  have nr: "\<not> RDY s t" using ready_not_pended [OF i(1), of t] p by auto
  show tc: "t \<noteq> current s" if "\<not> in_isr s" using nr i(3) that by auto
  have rc: "RDY (wake_turn g t s) (current s)" if "\<not> in_isr s" using i(3) tc that by (simp add: r(4))
  show "sched_ok s'" "resched_ok s'"
    unfolding s'_def by (rule reschedule_ok [OF r(1) r(2) [OF i(2)]]; use rc in simp)+
  show "threads s' t = waked g (threads s t)"
    using tc by (auto simp: s'_def r(4) waked_def resched_def)
  show "u \<noteq> t \<Longrightarrow> u \<noteq> current s \<Longrightarrow> threads s' u = threads s u"
    "u \<noteq> t \<Longrightarrow> retval_diff (threads s u) (threads s' u)" by (simp_all add: s'_def r(4))
  show "waitq s' = (waitq s)(w := ts)" "armed s' u \<longleftrightarrow> armed s u \<and> u \<noteq> t"
    using w by (simp_all add: s'_def r(3,5))
qed (simp_all add: s'_def)

lemma wake_turn_fits [simp]:
  "timeout_fits n (wake_turn g t s) = timeout_fits n s" "timeout_fits n (reschedule s) = timeout_fits n s"
  by (rule timeout_fits_same; simp add: reschedule_def do_swap_state)+

lemma waked_sel:
  assumes "keeps_state g"
  shows "pended_on (waked g th) = None" "prio (waked g th) = prio th" "\<not> z_is_thread_pending (waked g th)"
    "z_is_thread_ready (waked g th) \<longleftrightarrow> \<not> z_is_thread_suspended th \<and> \<not> z_is_thread_sleeping th \<and>
       \<not> z_is_thread_dead th \<and> \<not> is_thread_dummy th"
proof -
  note k = keeps_stateD [OF assms]
  show "pended_on (waked g th) = None" "prio (waked g th) = prio th" "\<not> z_is_thread_pending (waked g th)"
    by (simp_all add: waked_def k(1,2,6))
  show "z_is_thread_ready (waked g th) \<longleftrightarrow> \<not> z_is_thread_suspended th \<and> \<not> z_is_thread_sleeping th \<and>
      \<not> z_is_thread_dead th \<and> \<not> is_thread_dummy th"
    by (auto simp: waked_def k(4-10) thread_ready_tests)
qed

text \<open>All waiters are woken, in queue order, and then the processor is rescheduled if there were any.\<close>

lemma wake_all_resched_rule:
  fixes s :: kernel and f :: "kobjs \<Rightarrow> kobjs"
  assumes s: "sched_ok s" and e: "z_sched_wake_all w r d s = (b, s1)"
  defines "g \<equiv> \<lambda>th. th\<lparr>swap_retval := r, swap_data := d\<rparr>"
    and "s' \<equiv> if b then reschedule (upd_objs f s1) else upd_objs f s1"
  shows "b = (waitq s w \<noteq> [])" "sched_ok s'" "resched_ok s \<Longrightarrow> resched_ok s'" "b \<Longrightarrow> resched_ok s'"
    "waitq s' = (waitq s)(w := [])" "objs s' = f (objs s)" "in_isr s' = in_isr s"
    "irq_unlocked s' = irq_unlocked s" "armed s' u \<longleftrightarrow> armed s u \<and> u \<notin> set (waitq s w)"
    "u \<in> set (waitq s w) \<Longrightarrow> threads s' u = waked g (threads s u)"
    "u \<notin> set (waitq s w) \<Longrightarrow> u \<noteq> current s \<Longrightarrow> threads s' u = threads s u"
    "u \<notin> set (waitq s w) \<Longrightarrow> retval_diff (threads s u) (threads s' u)" "idle_thread s' = idle_thread s"
proof -
  note i = sched_okD [OF s]
  let ?q = "waitq s w"
  let ?s1 = "fold (wake_turn g) ?q s"
  have k: "keeps_state g" unfolding g_def by (rule keeps_retval(1))
  have es: "b = (?q \<noteq> [])" "s1 = ?s1" using e sched_wake_all_eq [OF i(1), of w r d] by (simp_all add: g_def)
  show "b = (?q \<noteq> [])" by (rule es)
  from wake_fold_rule [OF i(1) refl _ k, of w] have f: "sinv {} ?s1" "cache_ok ?s1"
    "waitq ?s1 = (waitq s)(w := [])" "\<And>u. threads ?s1 u = (if u \<in> set ?q then waked g (threads s u) else threads s u)"
    "\<And>u. armed ?s1 u \<longleftrightarrow> armed s u \<and> u \<notin> set ?q" using i(2) by simp_all
  have nc: "current s \<notin> set ?q" if "\<not> in_isr s"
    using ready_not_pended [OF i(1) i(3) [OF that]] sinv_simps(6) [OF i(1)] by auto
  have rc: "RDY ?s1 (current s)" if "\<not> in_isr s" using nc i(3) that by (simp add: f(4))
  note R = reschedule_ok [of "upd_objs f ?s1"]
  have R': "sched_ok (reschedule (upd_objs f ?s1))" "resched_ok (reschedule (upd_objs f ?s1))"
    by (rule R; use f(1,2) rc in simp)+
  show "sched_ok s'" "resched_ok s \<Longrightarrow> resched_ok s'" "b \<Longrightarrow> resched_ok s'" using R' s by (auto simp: s'_def es)
  show "waitq s' = (waitq s)(w := [])" "objs s' = f (objs s)" "in_isr s' = in_isr s"
    "irq_unlocked s' = irq_unlocked s" "armed s' u \<longleftrightarrow> armed s u \<and> u \<notin> set ?q"
    by (simp_all add: s'_def es(2) f(3,5))
  show "threads s' u = waked g (threads s u)" if "u \<in> set ?q"
    using that nc by (auto simp: s'_def es(2) f(4) resched_def)
  show "threads s' u = threads s u" if "u \<notin> set ?q" "u \<noteq> current s" using that by (simp add: s'_def es(2) f(4))
  show "retval_diff (threads s u) (threads s' u)" if "u \<notin> set ?q" using that by (auto simp: s'_def es(2) f(4))
  show "idle_thread s' = idle_thread s" by (simp add: s'_def es(2))
qed

text \<open>Fields of a thread the scheduler does not look at.\<close>

lemma sched_ok_keeps:
  assumes "keeps_state f"
  shows "sched_ok (upd_thread t f s) = sched_ok s" "resched_ok (upd_thread t f s) = resched_ok s"
    "timeout_fits n (upd_thread t f s) = timeout_fits n s"
proof -
  note k = keeps_stateD [OF assms]
  show "sched_ok (upd_thread t f s) = sched_ok s"
    by (auto simp: sched_ok_def sinv_keeps [OF assms] cache_ok_keeps [OF assms] k(4))
  show "resched_ok (upd_thread t f s) = resched_ok s" by (auto simp: resched_ok_def k(11))
  show "timeout_fits n (upd_thread t f s) = timeout_fits n s" by (rule timeout_fits_same) simp_all
qed

text \<open>The state tests do not read the fields the objects keep in a thread.\<close>

lemma thread_tests_fields [simp]:
  "z_is_thread_queued (th\<lparr>swap_retval := x_ret\<rparr>) = z_is_thread_queued th"
  "z_is_thread_pending (th\<lparr>swap_retval := x_ret\<rparr>) = z_is_thread_pending th"
  "z_is_thread_dead (th\<lparr>swap_retval := x_ret\<rparr>) = z_is_thread_dead th"
  "z_is_thread_sleeping (th\<lparr>swap_retval := x_ret\<rparr>) = z_is_thread_sleeping th"
  "z_is_thread_suspended (th\<lparr>swap_retval := x_ret\<rparr>) = z_is_thread_suspended th"
  "is_thread_dummy (th\<lparr>swap_retval := x_ret\<rparr>) = is_thread_dummy th"
  "z_is_thread_ready (th\<lparr>swap_data := x_swap_data\<rparr>) = z_is_thread_ready th"
  "z_is_thread_queued (th\<lparr>swap_data := x_swap_data\<rparr>) = z_is_thread_queued th"
  "z_is_thread_pending (th\<lparr>swap_data := x_swap_data\<rparr>) = z_is_thread_pending th"
  "z_is_thread_dead (th\<lparr>swap_data := x_swap_data\<rparr>) = z_is_thread_dead th"
  "z_is_thread_sleeping (th\<lparr>swap_data := x_swap_data\<rparr>) = z_is_thread_sleeping th"
  "z_is_thread_suspended (th\<lparr>swap_data := x_swap_data\<rparr>) = z_is_thread_suspended th"
  "is_thread_dummy (th\<lparr>swap_data := x_swap_data\<rparr>) = is_thread_dummy th"
  "z_is_thread_ready (th\<lparr>thread_events := x_thread_events\<rparr>) = z_is_thread_ready th"
  "z_is_thread_queued (th\<lparr>thread_events := x_thread_events\<rparr>) = z_is_thread_queued th"
  "z_is_thread_pending (th\<lparr>thread_events := x_thread_events\<rparr>) = z_is_thread_pending th"
  "z_is_thread_dead (th\<lparr>thread_events := x_thread_events\<rparr>) = z_is_thread_dead th"
  "z_is_thread_sleeping (th\<lparr>thread_events := x_thread_events\<rparr>) = z_is_thread_sleeping th"
  "z_is_thread_suspended (th\<lparr>thread_events := x_thread_events\<rparr>) = z_is_thread_suspended th"
  "is_thread_dummy (th\<lparr>thread_events := x_thread_events\<rparr>) = is_thread_dummy th"
  "z_is_thread_ready (th\<lparr>event_options := x_event_options\<rparr>) = z_is_thread_ready th"
  "z_is_thread_queued (th\<lparr>event_options := x_event_options\<rparr>) = z_is_thread_queued th"
  "z_is_thread_pending (th\<lparr>event_options := x_event_options\<rparr>) = z_is_thread_pending th"
  "z_is_thread_dead (th\<lparr>event_options := x_event_options\<rparr>) = z_is_thread_dead th"
  "z_is_thread_sleeping (th\<lparr>event_options := x_event_options\<rparr>) = z_is_thread_sleeping th"
  "z_is_thread_suspended (th\<lparr>event_options := x_event_options\<rparr>) = z_is_thread_suspended th"
  "is_thread_dummy (th\<lparr>event_options := x_event_options\<rparr>) = is_thread_dummy th"
  "z_is_thread_ready (th\<lparr>held_mutexes := x_held_mutexes\<rparr>) = z_is_thread_ready th"
  "z_is_thread_queued (th\<lparr>held_mutexes := x_held_mutexes\<rparr>) = z_is_thread_queued th"
  "z_is_thread_pending (th\<lparr>held_mutexes := x_held_mutexes\<rparr>) = z_is_thread_pending th"
  "z_is_thread_dead (th\<lparr>held_mutexes := x_held_mutexes\<rparr>) = z_is_thread_dead th"
  "z_is_thread_sleeping (th\<lparr>held_mutexes := x_held_mutexes\<rparr>) = z_is_thread_sleeping th"
  "z_is_thread_suspended (th\<lparr>held_mutexes := x_held_mutexes\<rparr>) = z_is_thread_suspended th"
  "is_thread_dummy (th\<lparr>held_mutexes := x_held_mutexes\<rparr>) = is_thread_dummy th"
  "z_is_thread_ready (th\<lparr>mutex_pended_on := x_mutex_pended_on\<rparr>) = z_is_thread_ready th"
  "z_is_thread_queued (th\<lparr>mutex_pended_on := x_mutex_pended_on\<rparr>) = z_is_thread_queued th"
  "z_is_thread_pending (th\<lparr>mutex_pended_on := x_mutex_pended_on\<rparr>) = z_is_thread_pending th"
  "z_is_thread_dead (th\<lparr>mutex_pended_on := x_mutex_pended_on\<rparr>) = z_is_thread_dead th"
  "z_is_thread_sleeping (th\<lparr>mutex_pended_on := x_mutex_pended_on\<rparr>) = z_is_thread_sleeping th"
  "z_is_thread_suspended (th\<lparr>mutex_pended_on := x_mutex_pended_on\<rparr>) = z_is_thread_suspended th"
  "is_thread_dummy (th\<lparr>mutex_pended_on := x_mutex_pended_on\<rparr>) = is_thread_dummy th"
  "z_is_thread_ready (th\<lparr>orig_prio := x_orig_prio\<rparr>) = z_is_thread_ready th"
  "z_is_thread_queued (th\<lparr>orig_prio := x_orig_prio\<rparr>) = z_is_thread_queued th"
  "z_is_thread_pending (th\<lparr>orig_prio := x_orig_prio\<rparr>) = z_is_thread_pending th"
  "z_is_thread_dead (th\<lparr>orig_prio := x_orig_prio\<rparr>) = z_is_thread_dead th"
  "z_is_thread_sleeping (th\<lparr>orig_prio := x_orig_prio\<rparr>) = z_is_thread_sleeping th"
  "z_is_thread_suspended (th\<lparr>orig_prio := x_orig_prio\<rparr>) = z_is_thread_suspended th"
  "is_thread_dummy (th\<lparr>orig_prio := x_orig_prio\<rparr>) = is_thread_dummy th"
  by (rule thread_state_tests_cong; simp)+

lemma preemptible_fields [simp]:
  "thread_is_preemptible (th\<lparr>swap_data := x_swap_data\<rparr>) = thread_is_preemptible th"
  "thread_is_preemptible (th\<lparr>thread_events := x_thread_events\<rparr>) = thread_is_preemptible th"
  "thread_is_preemptible (th\<lparr>event_options := x_event_options\<rparr>) = thread_is_preemptible th"
  "thread_is_preemptible (th\<lparr>held_mutexes := x_held_mutexes\<rparr>) = thread_is_preemptible th"
  "thread_is_preemptible (th\<lparr>mutex_pended_on := x_mutex_pended_on\<rparr>) = thread_is_preemptible th"
  "thread_is_preemptible (th\<lparr>orig_prio := x_orig_prio\<rparr>) = thread_is_preemptible th"
  by (rule preemptible_cong; simp)+

lemma ready_upd_objs: "ready_thread t (upd_objs f s) = upd_objs f (ready_thread t s)"
  by (simp add: ready_thread_def queue_thread_eq update_cache_def upd_thread_def upd_objs_def next_up_def
      runq_best_def should_preempt_def Let_def split: option.split)

text \<open>The steps by which several objects hand something to the first waiter are one turn of waking.\<close>

lemma deliver_eq:
  assumes s: "sinv {} s" and w: "waitq s w = t # ts"
  defines "a \<equiv> snd (z_try_abort_thread_timeout t (unpend_thread_no_timeout t s))"
  shows "z_unpend_first_thread_locked w s = (Some t, a)" "swap_data (threads a t) = swap_data (threads s t)"
    "ready_thread t (upd_thread t g (upd_objs f a)) = upd_objs f (wake_turn g t s)"
proof -
  show "z_unpend_first_thread_locked w s = (Some t, a)"
    by (simp add: z_unpend_first_thread_locked_def waitq_head_pended(1) [OF s w] a_def)
  show "swap_data (threads a t) = swap_data (threads s t)"
    by (simp add: a_def unpend_eq [OF waitq_head_pended(2) [OF s w]])
  have "upd_thread t g (upd_objs f a) = upd_objs f (upd_thread t g a)" by (simp add: upd_thread_def upd_objs_def)
  then show "ready_thread t (upd_thread t g (upd_objs f a)) = upd_objs f (wake_turn g t s)"
    by (simp add: ready_upd_objs wake_turn_def a_def)
qed

lemma unpend_first_empty: "waitq s w = [] \<Longrightarrow> z_unpend_first_thread_locked w s = (None, s)"
  by (simp add: z_unpend_first_thread_locked_def z_waitq_head_def z_priq_simple_best_def)

section \<open>Steps of an object\<close>

text \<open>
  Priorities stay in the range of their type, and a thread that is pending is on some wait queue.
\<close>

definition prio_ok :: "'o kstate \<Rightarrow> bool" where
  "prio_ok s \<longleftrightarrow> (\<forall>t. s8 (prio (threads s t)) = prio (threads s t) \<and>
     s8 (orig_prio (threads s t)) = orig_prio (threads s t))"

definition pend_ok :: "'o kstate \<Rightarrow> bool" where
  "pend_ok s \<longleftrightarrow> (\<forall>t. z_is_thread_pending (threads s t) \<longrightarrow> pended_on (threads s t) \<noteq> None)"

text \<open>No thread is being aborted by another processor, and a thread on a wait queue does not sleep.\<close>

definition flags_ok :: "'o kstate \<Rightarrow> bool" where
  "flags_ok s \<longleftrightarrow> (\<forall>t. \<not> z_is_thread_aborting (threads s t) \<and>
     (pended_on (threads s t) \<noteq> None \<longrightarrow> \<not> z_is_thread_sleeping (threads s t)))"

text \<open>
  What every operation on an object with wait queue \<open>w\<close> does to the rest of the kernel: other wait
  queues, priorities and the lists of locked mutexes stay, and the scheduler's invariant is kept.
\<close>

definition obj_step :: "wqid \<Rightarrow> kernel \<Rightarrow> kernel \<Rightarrow> bool" where
  "obj_step w s s' \<longleftrightarrow> sched_ok s' \<and> (resched_ok s \<longrightarrow> resched_ok s') \<and> (\<forall>v. v \<noteq> w \<longrightarrow> waitq s' v = waitq s v) \<and>
     idle_thread s' = idle_thread s \<and> in_isr s' = in_isr s \<and> (pend_ok s \<longrightarrow> pend_ok s') \<and> (flags_ok s \<longrightarrow> flags_ok s') \<and>
     (\<forall>v. \<forall>t \<in> set (waitq s v). v \<noteq> w \<longrightarrow> retval_diff (threads s t) (threads s' t)) \<and>
     (\<forall>t. held_mutexes (threads s' t) = held_mutexes (threads s t) \<and> prio (threads s' t) = prio (threads s t) \<and>
        orig_prio (threads s' t) = orig_prio (threads s t))"

definition keeps_locks :: "(k_thread \<Rightarrow> k_thread) \<Rightarrow> bool" where
  "keeps_locks g \<longleftrightarrow> keeps_state g \<and> (\<forall>th. held_mutexes (g th) = held_mutexes th \<and> orig_prio (g th) = orig_prio th)"

lemma keeps_locks_simps [simp]:
  "keeps_locks (\<lambda>th. th\<lparr>swap_retval := r, swap_data := d\<rparr>)" "keeps_locks (\<lambda>th. th\<lparr>swap_retval := r\<rparr>)"
  "keeps_locks (\<lambda>th. th\<lparr>swap_data := d\<rparr>)" "keeps_locks (\<lambda>th. th)"
  "keeps_locks (\<lambda>th. th\<lparr>thread_events := e, event_options := o'\<rparr>)"
  by (simp_all add: keeps_locks_def keeps_state_def)

text \<open>A thread that keeps its state or stops waiting.\<close>

definition wait_diff :: "k_thread \<Rightarrow> k_thread \<Rightarrow> bool" where
  "wait_diff a b \<longleftrightarrow> held_mutexes b = held_mutexes a \<and> prio b = prio a \<and> orig_prio b = orig_prio a \<and>
     (z_is_thread_pending b \<longrightarrow> z_is_thread_pending a \<and> pended_on b = pended_on a) \<and>
     z_is_thread_aborting b = z_is_thread_aborting a \<and> z_is_thread_sleeping b = z_is_thread_sleeping a \<and>
     (pended_on b \<noteq> None \<longrightarrow> pended_on a \<noteq> None)"

lemma keeps_aborting: "keeps_state g \<Longrightarrow> z_is_thread_aborting (g th) = z_is_thread_aborting th"
  by (simp add: z_is_thread_aborting_def keeps_stateD(3))

lemma aborting_fields [simp]:
  "z_is_thread_aborting (th\<lparr>swap_retval := v\<rparr>) = z_is_thread_aborting th"
  "z_is_thread_aborting (th\<lparr>pended_on := w\<rparr>) = z_is_thread_aborting th"
  by (simp_all add: z_is_thread_aborting_def)

lemma wait_diff_waked: "keeps_locks g \<Longrightarrow> wait_diff th (waked g th)"
  by (simp add: wait_diff_def keeps_locks_def waked_sel waked_def keeps_stateD keeps_aborting)

lemma wait_diff_retval:
  assumes "retval_diff a b"
  shows "wait_diff a b"
  using retval_diff_sel [OF assms] by (simp add: wait_diff_def z_is_thread_aborting_def z_is_thread_sleeping_def)

lemma wait_diff_inv:
  assumes "\<And>u. wait_diff (threads s u) (threads s' u)"
  shows "pend_ok s \<Longrightarrow> pend_ok s'" "flags_ok s \<Longrightarrow> flags_ok s'"
  using assms unfolding wait_diff_def pend_ok_def flags_ok_def by metis+

lemma obj_stepI:
  assumes "sched_ok s'" and "resched_ok s \<Longrightarrow> resched_ok s'" and "waitq s' = (waitq s)(w := q)"
    and "idle_thread s' = idle_thread s" and "in_isr s' = in_isr s" and d: "\<And>u. wait_diff (threads s u) (threads s' u)"
    and "\<And>v t. v \<noteq> w \<Longrightarrow> t \<in> set (waitq s v) \<Longrightarrow> retval_diff (threads s t) (threads s' t)"
  shows "obj_step w s s'"
  using assms(1-5,7) wait_diff_inv [OF d] d by (simp add: obj_step_def wait_diff_def)

lemma other_queue: "sched_ok s \<Longrightarrow> t \<in> set (waitq s w) \<Longrightarrow> v \<noteq> w \<Longrightarrow> t \<notin> set (waitq s v)"
  using sinv_simps(6) [OF sched_okD(1)] by (metis option.inject)

lemma obj_step_quiet: "sched_ok s \<Longrightarrow> obj_step w s (upd_objs f s)"
  by (simp add: obj_step_def pend_ok_def flags_ok_def)

lemma obj_step_objs: "obj_step w s s' \<Longrightarrow> obj_step w s (upd_objs f s')"
  by (simp add: obj_step_def pend_ok_def flags_ok_def)

lemma obj_step_pre: "obj_step w (upd_objs f s) s' = obj_step w s s'"
  by (simp add: obj_step_def pend_ok_def flags_ok_def)

lemma obj_step_hand:
  assumes s: "sched_ok s" and w: "waitq s w = t # ts" and g: "keeps_locks g"
  shows "obj_step w s (reschedule (wake_turn g t s))"
proof -
  have k: "keeps_state g" using g by (simp add: keeps_locks_def)
  define z where "z = reschedule (wake_turn g t s)"
  note r = wake_resched_rule [OF s w k, folded z_def]
  have "wait_diff (threads s u) (threads z u)" for u
    using r(9) wait_diff_retval [OF r(11) [of u]] wait_diff_waked [OF g] by (cases "u = t") simp_all
  moreover have "retval_diff (threads s u) (threads z u)" if "v \<noteq> w" "u \<in> set (waitq s v)" for u v
    using other_queue [OF s, of t w v] that w by (intro r(11)) auto
  ultimately have "obj_step w s z" using r(1-3,5,12) by (intro obj_stepI)
  then show ?thesis by (simp add: z_def)
qed

lemma obj_step_wake_all:
  assumes s: "sched_ok s" and e: "z_sched_wake_all w r d s = (b, s1)"
  shows "obj_step w s (if b then reschedule (upd_objs f s1) else upd_objs f s1)"
proof -
  define z where "z = (if b then reschedule (upd_objs f s1) else upd_objs f s1)"
  note r = wake_all_resched_rule(2-13) [where f = f, OF s e, folded z_def]
  have "wait_diff (threads s u) (threads z u)" for u
    using r(9) [of u] wait_diff_retval [OF r(11) [of u]] wait_diff_waked by (cases "u \<in> set (waitq s w)") simp_all
  moreover have "retval_diff (threads s u) (threads z u)" if "v \<noteq> w" "u \<in> set (waitq s v)" for u v
    using other_queue [OF s, of u v w] that by (intro r(11)) auto
  ultimately have "obj_step w s z" using r(1,2,4,6,12) by (intro obj_stepI)
  then show ?thesis by (simp add: z_def)
qed

lemma obj_step_block:
  assumes s: "sched_ok s" and c: "\<not> in_isr s" "current s \<noteq> idle_thread s" "timeout_fits n s"
    and g: "keeps_locks g" and w: "\<And>t. w \<noteq> WqJoin t"
  defines "s' \<equiv> snd (z_pend_curr (Some w) n (upd_thread (current s) g s))"
  shows "obj_step w s s'" "fst (z_pend_curr (Some w) n (upd_thread (current s) g s)) = Swapped" "objs s' = objs s"
    "waitq s' = (waitq s)(w := prio_insert (threads s) (current s) (waitq s w))" "resched_ok s'"
    "threads s' = (threads s)(current s := (blocked_on (Some w) (g (threads s (current s))))\<lparr>swap_retval := - EAGAIN\<rparr>)"
proof -
  let ?u = "upd_thread (current s) g s"
  have k: "keeps_state g" and h: "held_mutexes (g th) = held_mutexes th" "orig_prio (g th) = orig_prio th" for th
    using g by (simp_all add: keeps_locks_def)
  have u: "sched_ok ?u" "\<not> in_isr ?u" "current ?u \<noteq> idle_thread ?u" "timeout_fits n ?u"
    using s c k by (simp_all add: sched_ok_keeps)
  have pi: "prio_insert (threads ?u) = prio_insert (threads s)"
    by (intro ext prio_insert_cong) (simp_all add: keeps_stateD(1) [OF k])
  note P = pend_curr_rule [OF u, of "Some w", folded s'_def]
  have "z_pend_curr (Some w) n ?u = (Swapped, s')" using P(1) w by simp
  then show "fst (z_pend_curr (Some w) n ?u) = Swapped" by simp
  show "objs s' = objs s" "resched_ok s'"
    "waitq s' = (waitq s)(w := prio_insert (threads s) (current s) (waitq s w))" 
    and th: "threads s' = (threads s)(current s := (blocked_on (Some w) (g (threads s (current s))))\<lparr>swap_retval := - EAGAIN\<rparr>)"
    using P(3-6) w by (simp_all add: pi del: upd_thread_sel(1)) simp
  have r: "\<not> z_is_thread_sleeping (threads s (current s))" "t \<in> set (waitq s v) \<Longrightarrow> t \<noteq> current s" for t v
    using sched_okD [OF s] c(1) ready_not_pended [OF sched_okD(1) [OF s], of "current s"]
      sinv_simps(6) [OF sched_okD(1) [OF s], of "current s" v] by (auto simp: thread_ready_tests)
  have "flags_ok s \<Longrightarrow> flags_ok s'"
    using r(1) by (simp add: th flags_ok_def keeps_stateD [OF k] keeps_aborting [OF k])
  then show "obj_step w s s'"
    using P(2,3,5,7,9) r(2) w by (simp add: obj_step_def h keeps_stateD(1) [OF k] th pend_ok_def)
qed

lemma upd_thread_ident [simp]: "upd_thread t (\<lambda>th. th) s = s"
  by (simp add: upd_thread_def)

lemmas obj_step_wait = obj_step_block [where g = "\<lambda>th. th", simplified]

section \<open>An application\<close>

text \<open>
  Objects as an application may define them statically, and the kernel with a second thread
  (number 3, priority 7) besides the main thread.
\<close>

definition init_pipe :: "nat \<Rightarrow> k_pipe" where
  "init_pipe p = \<lparr>pipe_waiting = 0,
     pipe_buf = \<lparr>rb_buffer = 5000 + 8 * p, rb_put = \<lparr>r_head = 0, r_tail = 0, r_base = 0\<rparr>,
                 rb_get = \<lparr>r_head = 0, r_tail = 0, r_base = 0\<rparr>, rb_size = 8\<rparr>, pipe_flags = 1\<rparr>"

definition init_objs :: kobjs where
  "init_objs = \<lparr>sems = (\<lambda>_. \<lparr>sem_count = 0, sem_limit = 10\<rparr>), mutexes = (\<lambda>_. \<lparr>owner = None, lock_count = 0\<rparr>),
     msgqs = (\<lambda>m. \<lparr>msg_size = 2, max_msgs = 2, buffer_start = 100 + 4 * m, buffer_end = 104 + 4 * m,
                  read_ptr = 100 + 4 * m, write_ptr = 100 + 4 * m, used_msgs = 0, msgq_alloc = False\<rparr>),
     stacks = (\<lambda>m. \<lparr>stk_base = 1000 + 8 * m, stk_next = 1000 + 8 * m, stk_top = 1008 + 8 * m, stk_alloc = False\<rparr>),
     slabs = (\<lambda>_. \<lparr>slab_buffer = 0, free_list = 0, num_blocks = 0, block_size = 8, num_used = 0, max_used = 0\<rparr>),
     events = (\<lambda>_. \<lparr>event_bits = 0\<rparr>),
     timers = (\<lambda>_. \<lparr>timer_period = 0, timer_status = 0, expiry_fn = None, stop_fn = None, timer_user_data = 0\<rparr>),
     queues = (\<lambda>_. \<lparr>data_q = gl_init\<rparr>), pipes = init_pipe, mem = of_nat, words = (\<lambda>_. 0)\<rparr>"

text \<open>Several facts about one state, so that the state is evaluated once.\<close>

definition look :: "'a \<Rightarrow> ('a \<Rightarrow> 'b) \<Rightarrow> 'b" where "look x f = f x"

definition app :: kernel where
  "app = k_thread_create 3 7 0 0 (boot init_objs)"

lemma app_ok: "sched_ok app"
  unfolding app_def
  by (rule sched_ok_create [OF boot_ok(1)])
    (simp_all add: boot_def mk_thread_def timeout_fits_def elapsed_def u32_def this_cpu_announcing_def
      z_is_thread_dead_def THREAD_DEAD_def)

lemma app_sel [simp]:
  "\<not> in_isr app" "current app = 2" "idle_thread app = 0" "objs app = init_objs" "waitq app = (\<lambda>_. [])"
  "timeout_fits (- 1) app" "timeout_fits 0 app"
proof -
  show "\<not> in_isr app" "current app = 2" "idle_thread app = 0" by code_simp+
  show "objs app = init_objs"
    by (simp add: app_def k_thread_create_def thread_schedule_new_def k_wakeup_def z_setup_new_thread_def boot_def)
  show "waitq app = (\<lambda>_. [])"
    by (simp add: app_def k_thread_create_def thread_schedule_new_def k_wakeup_def z_setup_new_thread_def boot_def fun_eq_iff)
  have "curr_tick app = 0" "elapsed app = 0" by code_simp+
  then show "timeout_fits (- 1) app" "timeout_fits 0 app" by (simp_all add: timeout_fits_def)
qed

lemma app_flags: "flags_ok app" "pend_ok app" "prio_ok app"
proof -
  have t: "threads app u = (if u = 3 then threads app 3 else if u = 2 then threads app 2 else threads (boot init_objs) u)" for u
    by (simp add: app_def k_thread_create_def thread_schedule_new_def k_wakeup_def z_setup_new_thread_def boot_def z_ready_thread_def ready_threads)
  have a: "pended_on (threads app 3) = None" "pended_on (threads app 2) = None" "prio (threads app 3) = 7"
    "prio (threads app 2) = 0" "orig_prio (threads app 2) = 0" "orig_prio (threads app 3) = 7" by code_simp+
  have b: "\<not> z_is_thread_aborting (threads app 3)" "\<not> z_is_thread_aborting (threads app 2)"
    "\<not> z_is_thread_pending (threads app 3)" "\<not> z_is_thread_pending (threads app 2)" by code_simp+
  have c: "\<not> z_is_thread_aborting (threads (boot init_objs) u)" "pended_on (threads (boot init_objs) u) = None"
    "\<not> z_is_thread_pending (threads (boot init_objs) u)" for u
    by (simp_all add: boot_def mk_thread_def z_is_thread_aborting_def z_is_thread_pending_def z_is_thread_state_set_def
        THREAD_DUMMY_def THREAD_QUEUED_def THREAD_DEAD_def THREAD_ABORTING_def THREAD_PENDING_def)
  show "flags_ok app" unfolding flags_ok_def using t a(1,2) b c by metis
  show "pend_ok app" unfolding pend_ok_def using t b c by metis
  have d: "s8 (prio (threads (boot init_objs) u)) = prio (threads (boot init_objs) u)"
    "s8 (orig_prio (threads (boot init_objs) u)) = orig_prio (threads (boot init_objs) u)" for u
    by (simp_all add: boot_def mk_thread_def s8_def)
  have "s8 (prio (threads app u)) = prio (threads app u) \<and> s8 (orig_prio (threads app u)) = orig_prio (threads app u)" for u
  proof -
    consider "u = 3" | "u = 2" | "threads app u = threads (boot init_objs) u" using t [of u] by presburger
    then show ?thesis using a d by cases (simp_all add: s8_def)
  qed
  then show "prio_ok app" by (simp add: prio_ok_def)
qed

end
