(* ===== verification/Sem.thy ===== *)
theory Sem
  imports Kernel_Objects
begin

text \<open>
  Counting semaphores, \<^verbatim>\<open>kernel/sem.c\<close>.  Polling is not configured, so \<^verbatim>\<open>sem_handle_poll_events\<close> is
  constantly false.
\<close>

section \<open>Operations\<close>

abbreviation sem_of :: "nat \<Rightarrow> kernel \<Rightarrow> k_sem" where
  "sem_of m s \<equiv> sems (objs s) m"

definition upd_sem :: "nat \<Rightarrow> (k_sem \<Rightarrow> k_sem) \<Rightarrow> kernel \<Rightarrow> kernel" where
  "upd_sem m f = upd_objs (\<lambda>b. b\<lparr>sems := (sems b)(m := f (sems b m))\<rparr>)"

definition k_sem_init :: "nat \<Rightarrow> int \<Rightarrow> int \<Rightarrow> kernel \<Rightarrow> int \<times> kernel" where
  "k_sem_init m initial_count limit s =
     (if limit = 0 \<or> initial_count > limit then (- EINVAL, s)
      else (0, z_waitq_init (WqSem m)
                 (upd_sem m (\<lambda>x. x\<lparr>sem_count := initial_count, sem_limit := limit\<rparr>) s)))"

definition k_sem_give :: "nat \<Rightarrow> kernel \<Rightarrow> kernel" where
  "k_sem_give m s =
     (let (woke, s1) = z_sched_wake (WqSem m) 0 0 s
      in if woke then reschedule s1
         else upd_sem m (\<lambda>x. x\<lparr>sem_count :=
                u32 (sem_count x + (if sem_count x \<noteq> sem_limit x then 1 else 0))\<rparr>) s1)"

definition k_sem_take :: "nat \<Rightarrow> int \<Rightarrow> kernel \<Rightarrow> int kres \<times> kernel" where
  "k_sem_take m timeout s =
     (if sem_count (sem_of m s) > 0
      then (Ret 0, upd_sem m (\<lambda>x. x\<lparr>sem_count := u32 (sem_count x - 1)\<rparr>) s)
      else if timeout = K_NO_WAIT then (Ret (- EBUSY), s)
      else z_pend_curr (Some (WqSem m)) timeout s)"

definition k_sem_reset :: "nat \<Rightarrow> kernel \<Rightarrow> kernel" where
  "k_sem_reset m s =
     (let (woke, s1) = z_sched_wake_all (WqSem m) (- EAGAIN) 0 s;
          s2 = upd_sem m (\<lambda>x. x\<lparr>sem_count := 0\<rparr>) s1
      in if woke then reschedule s2 else s2)"

definition k_sem_count_get :: "nat \<Rightarrow> kernel \<Rightarrow> int" where
  "k_sem_count_get m s = sem_count (sem_of m s)"

section \<open>Invariant\<close>

text \<open>A semaphore with waiters has no tokens.\<close>

definition sem_ok :: "nat \<Rightarrow> kernel \<Rightarrow> bool" where
  "sem_ok m s \<longleftrightarrow> 0 < sem_limit (sem_of m s) \<and> sem_limit (sem_of m s) < 2 ^ 32 \<and>
     0 \<le> sem_count (sem_of m s) \<and> sem_count (sem_of m s) \<le> sem_limit (sem_of m s) \<and>
     (waitq s (WqSem m) \<noteq> [] \<longrightarrow> sem_count (sem_of m s) = 0)"

lemma upd_sem_sel [simp]:
  "sems (objs (upd_sem m f s)) = (sems (objs s))(m := f (sems (objs s) m))"
  "mutexes (objs (upd_sem m f s)) = mutexes (objs s)" "msgqs (objs (upd_sem m f s)) = msgqs (objs s)"
  "stacks (objs (upd_sem m f s)) = stacks (objs s)" "slabs (objs (upd_sem m f s)) = slabs (objs s)"
  "events (objs (upd_sem m f s)) = events (objs s)" "timers (objs (upd_sem m f s)) = timers (objs s)"
  "queues (objs (upd_sem m f s)) = queues (objs s)" "mem (objs (upd_sem m f s)) = mem (objs s)"
  "words (objs (upd_sem m f s)) = words (objs s)" "waitq (upd_sem m f s) = waitq s"
  "threads (upd_sem m f s) = threads s" "current (upd_sem m f s) = current s"
  "in_isr (upd_sem m f s) = in_isr s" "sched_ok (upd_sem m f s) = sched_ok s"
  "resched_ok (upd_sem m f s) = resched_ok s" "sinv X (upd_sem m f s) = sinv X s"
  "cache_ok (upd_sem m f s) = cache_ok s"
  by (simp_all add: upd_sem_def)

lemma k_sem_give_cases:
  assumes "sched_ok s"
  shows "k_sem_give m s = (case waitq s (WqSem m) of
      [] \<Rightarrow> upd_sem m (\<lambda>x. x\<lparr>sem_count := u32 (sem_count x + (if sem_count x \<noteq> sem_limit x then 1 else 0))\<rparr>) s
    | t # ts \<Rightarrow> reschedule (wake_turn (\<lambda>th. th\<lparr>swap_retval := 0, swap_data := 0\<rparr>) t s))"
  using sched_wake_turn [OF sched_okD(1) [OF assms], of "WqSem m"]
  by (auto simp: k_sem_give_def sched_wake_empty split: list.split)

lemma sem_give_rule:
  assumes s: "sched_ok s" and m: "sem_ok m s"
  defines "s' \<equiv> k_sem_give m s"
  shows "sched_ok s'" "sem_ok m s'"
    "sem_count (sem_of m s') = (if waitq s (WqSem m) = []
       then min (sem_count (sem_of m s) + 1) (sem_limit (sem_of m s)) else 0)"
    "sem_limit (sem_of m s') = sem_limit (sem_of m s)"
    "waitq s' = (waitq s)(WqSem m := tl (waitq s (WqSem m)))"
proof -
  let ?q = "waitq s (WqSem m)"
  have c: "0 \<le> sem_count (sem_of m s)" "sem_count (sem_of m s) \<le> sem_limit (sem_of m s)"
    "sem_limit (sem_of m s) < 2 ^ 32" "0 < sem_limit (sem_of m s)" "?q \<noteq> [] \<Longrightarrow> sem_count (sem_of m s) = 0"
    using m by (simp_all add: sem_ok_def)
  have u: "u32 (sem_count (sem_of m s) + (if sem_count (sem_of m s) \<noteq> sem_limit (sem_of m s) then 1 else 0)) =
      min (sem_count (sem_of m s) + 1) (sem_limit (sem_of m s))"
    using c by (auto simp: u32_id)
  have "sched_ok s' \<and> sem_ok m s' \<and> sem_count (sem_of m s') = (if ?q = []
       then min (sem_count (sem_of m s) + 1) (sem_limit (sem_of m s)) else 0) \<and>
     sem_limit (sem_of m s') = sem_limit (sem_of m s) \<and> waitq s' = (waitq s)(WqSem m := tl ?q)"
  proof (cases ?q)
    case Nil
    with s c u show ?thesis by (simp add: s'_def k_sem_give_cases [OF s] sem_ok_def fun_upd_idem)
  next
    case (Cons t ts)
    note r = wake_resched_rule [OF s Cons keeps_retval(1)]
    from Cons s c r(1,3,4) show ?thesis by (simp add: s'_def k_sem_give_cases [OF s] sem_ok_def)
  qed
  then show "sched_ok s'" "sem_ok m s'" "sem_count (sem_of m s') = (if ?q = []
       then min (sem_count (sem_of m s) + 1) (sem_limit (sem_of m s)) else 0)"
    "sem_limit (sem_of m s') = sem_limit (sem_of m s)" "waitq s' = (waitq s)(WqSem m := tl ?q)" by blast+
qed

lemma sem_take_rule:
  assumes s: "sched_ok s" and m: "sem_ok m s"
    and c: "n \<noteq> K_NO_WAIT \<Longrightarrow> \<not> in_isr s \<and> current s \<noteq> idle_thread s \<and> timeout_fits n s"
  defines "s' \<equiv> snd (k_sem_take m n s)"
  shows "sched_ok s'" "sem_ok m s'"
    "k_sem_take m n s = (if 0 < sem_count (sem_of m s) then Ret 0 else if n = K_NO_WAIT then Ret (- EBUSY) else Swapped, s')"
    "sem_count (sem_of m s') = max 0 (sem_count (sem_of m s) - 1)"
    "waitq s' = (if sem_count (sem_of m s) = 0 \<and> n \<noteq> K_NO_WAIT
       then (waitq s)(WqSem m := prio_insert (threads s) (current s) (waitq s (WqSem m))) else waitq s)"
proof -
  let ?q = "waitq s (WqSem m)"
  have b: "0 \<le> sem_count (sem_of m s)" "sem_count (sem_of m s) \<le> sem_limit (sem_of m s)"
    "sem_limit (sem_of m s) < 2 ^ 32" "0 < sem_limit (sem_of m s)" "?q \<noteq> [] \<Longrightarrow> sem_count (sem_of m s) = 0"
    using m by (simp_all add: sem_ok_def)
  have u: "u32 (sem_count (sem_of m s) - 1) = sem_count (sem_of m s) - 1" if "0 < sem_count (sem_of m s)"
    using that b by (intro u32_id) simp_all
  have "sched_ok s' \<and> sem_ok m s' \<and>
    k_sem_take m n s = (if 0 < sem_count (sem_of m s) then Ret 0 else if n = K_NO_WAIT then Ret (- EBUSY) else Swapped, s') \<and>
    sem_count (sem_of m s') = max 0 (sem_count (sem_of m s) - 1) \<and>
    waitq s' = (if sem_count (sem_of m s) = 0 \<and> n \<noteq> K_NO_WAIT
       then (waitq s)(WqSem m := prio_insert (threads s) (current s) ?q) else waitq s)"
    (is "?ok")
  proof (cases "0 < sem_count (sem_of m s)")
    case True
    with s b u show ?thesis by (auto simp: s'_def k_sem_take_def sem_ok_def)
  next
    case False
    then have z: "sem_count (sem_of m s) = 0" using b by simp
    show ?thesis
    proof (cases "n = K_NO_WAIT")
      case True
      with z s m show ?thesis by (simp add: s'_def k_sem_take_def)
    next
      case False
      note p = pend_curr_rule [of s n "Some (WqSem m)"]
      from False z have e: "k_sem_take m n s = z_pend_curr (Some (WqSem m)) n s" by (simp add: k_sem_take_def)
      show ?thesis using s z b p(1,2,5,6) c False by (simp add: s'_def e sem_ok_def)
    qed
  qed
  then show "sched_ok s'" "sem_ok m s'"
    "k_sem_take m n s = (if 0 < sem_count (sem_of m s) then Ret 0 else if n = K_NO_WAIT then Ret (- EBUSY) else Swapped, s')"
    "sem_count (sem_of m s') = max 0 (sem_count (sem_of m s) - 1)"
    "waitq s' = (if sem_count (sem_of m s) = 0 \<and> n \<noteq> K_NO_WAIT
       then (waitq s)(WqSem m := prio_insert (threads s) (current s) ?q) else waitq s)"
    by blast+
qed

lemma sem_reset_rule:
  assumes s: "sched_ok s" and m: "sem_ok m s"
  defines "s' \<equiv> k_sem_reset m s"
  shows "sched_ok s'" "resched_ok s \<Longrightarrow> resched_ok s'" "sem_ok m s'" "sem_count (sem_of m s') = 0"
    "waitq s' = (waitq s)(WqSem m := [])"
    "u \<in> set (waitq s (WqSem m)) \<Longrightarrow> swap_retval (threads s' u) = - EAGAIN \<and> pended_on (threads s' u) = None"
proof -
  let ?f = "\<lambda>b. b\<lparr>sems := (sems b)(m := (sems b m)\<lparr>sem_count := 0\<rparr>)\<rparr>"
  obtain b s1 where w: "z_sched_wake_all (WqSem m) (- EAGAIN) 0 s = (b, s1)" by fastforce
  have s': "s' = (if b then reschedule (upd_objs ?f s1) else upd_objs ?f s1)"
    by (simp add: s'_def k_sem_reset_def w upd_sem_def Let_def)
  note r = wake_all_resched_rule(2-13) [where f = ?f, OF s w, folded s']
  show "sched_ok s'" "resched_ok s \<Longrightarrow> resched_ok s'" "waitq s' = (waitq s)(WqSem m := [])"
    "sem_count (sem_of m s') = 0" by (simp_all add: r(1,2,4,5))
  show "sem_ok m s'" using m by (simp add: sem_ok_def r(4,5))
  show "u \<in> set (waitq s (WqSem m)) \<Longrightarrow> swap_retval (threads s' u) = - EAGAIN \<and> pended_on (threads s' u) = None"
    by (simp add: r(9) waked_sel(1) [OF keeps_retval(1)]) (simp add: waked_def)
qed

section \<open>Properties\<close>

datatype sem_op = SGive | STake int | SReset

fun sem_exec :: "nat \<Rightarrow> sem_op \<Rightarrow> kernel \<Rightarrow> int kres \<times> kernel" where
  "sem_exec m SGive s = (Ret 0, k_sem_give m s)"
| "sem_exec m (STake n) s = k_sem_take m n s"
| "sem_exec m SReset s = (Ret 0, k_sem_reset m s)"

text \<open>
  A counting semaphore: the tokens and the queue of waiters.  A step gives the result, the
  threads that stop waiting with the value each of them gets, and the new semaphore; \<open>ins\<close> puts
  the calling thread in the queue.
\<close>

fun sem_spec :: "int \<Rightarrow> (tid list \<Rightarrow> tid list) \<Rightarrow> sem_op \<Rightarrow> int \<times> tid list \<Rightarrow> int kres \<times> (tid \<times> int) list \<times> int \<times> tid list" where
  "sem_spec lim ins SGive (c, []) = (Ret 0, [], min (c + 1) lim, [])"
| "sem_spec lim ins SGive (c, t # ts) = (Ret 0, [(t, 0)], c, ts)"
| "sem_spec lim ins (STake n) (c, ts) =
     (if c > 0 then (Ret 0, [], c - 1, ts)
      else if n = K_NO_WAIT then (Ret (- EBUSY), [], c, ts)
      else (Swapped, [], c, ins ts))"
| "sem_spec lim ins SReset (c, ts) = (Ret 0, map (\<lambda>t. (t, - EAGAIN)) ts, 0, [])"

text \<open>
  C16: the semaphore operations implement a counting semaphore with a queue of waiters ordered by
  priority.  \<^verbatim>\<open>k_sem_give\<close> passes its token to the first waiter, who gets 0, and counts it, up to the limit, only
  when nobody waits; \<^verbatim>\<open>k_sem_take\<close> takes a token, returns -EBUSY, or makes the caller wait; \<^verbatim>\<open>k_sem_reset\<close> sends
  every waiter away with -EAGAIN.
\<close>

theorem sem_refines_counter:
  assumes "sched_ok s" and "sem_ok m s"
    and "\<And>n. op = STake n \<Longrightarrow> n \<noteq> K_NO_WAIT \<Longrightarrow> \<not> in_isr s \<and> current s \<noteq> idle_thread s \<and> timeout_fits n s"
    and "sem_spec (sem_limit (sem_of m s)) (prio_insert (threads s) (current s)) op
           (sem_count (sem_of m s), waitq s (WqSem m)) = (r, woken_with, c, ts)"
  shows "fst (sem_exec m op s) = r \<and>
    (let s' = snd (sem_exec m op s)
     in sched_ok s' \<and> sem_ok m s' \<and> sem_count (sem_of m s') = c \<and> waitq s' = (waitq s)(WqSem m := ts) \<and>
        (\<forall>(t, v) \<in> set woken_with. swap_retval (threads s' t) = v \<and> pended_on (threads s' t) = None))"
proof (cases op)
  case SGive
  note g = sem_give_rule [OF assms(1,2)]
  have z: "sem_count (sem_of m s) = 0" if "waitq s (WqSem m) \<noteq> []" using assms(2) that by (simp add: sem_ok_def)
  have "swap_retval (threads (k_sem_give m s) t) = 0 \<and> pended_on (threads (k_sem_give m s) t) = None"
    if "waitq s (WqSem m) = t # ts" for t ts
  proof -
    have "threads (k_sem_give m s) t = waked (\<lambda>th. th\<lparr>swap_retval := 0, swap_data := 0\<rparr>) (threads s t)"
      using wake_resched_rule(9) [OF assms(1) that keeps_retval(1)] that
      by (simp add: k_sem_give_cases [OF assms(1)] del: reschedule_sel)
    then show ?thesis by (simp add: waked_def)
  qed
  then show ?thesis using SGive assms(4) g z
    by (cases "waitq s (WqSem m)") (auto simp: Let_def)
next
  case (STake n)
  note t = sem_take_rule [OF assms(1,2) assms(3) [OF STake]]
  have "0 \<le> sem_count (sem_of m s)" using assms(2) by (simp add: sem_ok_def)
  then show ?thesis using STake assms(4) t(1,2,4,5) arg_cong [OF t(3), of fst]
    by (auto simp: Let_def split: if_splits)
next
  case SReset
  then show ?thesis using sem_reset_rule [OF assms(1,2)] assms(4) by (auto simp: Let_def)
qed

definition sem_waiter :: kernel where
  "sem_waiter = snd (k_sem_take 0 K_FOREVER app)"

lemma sem_waiter_ok: "sched_ok sem_waiter" "sem_ok 0 sem_waiter"
proof -
  have "sem_ok 0 app" by (simp add: sem_ok_def init_objs_def)
  from sem_take_rule(1,2) [OF app_ok this, of K_FOREVER] show "sched_ok sem_waiter" "sem_ok 0 sem_waiter"
    by (simp_all add: sem_waiter_def)
qed

theorem sem_refines_counter_witness:
  "waitq sem_waiter (WqSem 0) = [2] \<and> current sem_waiter = 3 \<and>
   waitq (k_sem_give 0 sem_waiter) (WqSem 0) = [] \<and> swap_retval (threads (k_sem_give 0 sem_waiter) 2) = 0"
proof -
  have e: "waitq sem_waiter (WqSem 0) = [2]" "current sem_waiter = 3" by code_simp+
  show ?thesis using sem_refines_counter [OF sem_waiter_ok, of SGive "Ret 0" "[(2, 0)]"] e by (auto simp: Let_def)
qed

end
