(* ===== verification/Mutex.thy ===== *)
theory Mutex
  imports Kernel_Objects
begin

text \<open>
  Mutexes with priority inheritance, \<^verbatim>\<open>kernel/mutex.c\<close>, and condition variables,
  \<^verbatim>\<open>kernel/condvar.c\<close>.  The part of an operation that runs after the thread has waited is the
  definition with suffix \<open>_resume\<close>.  Deadlock detection is part of the assertions and not
  configured; \<^verbatim>\<open>CONFIG_PRIORITY_CEILING\<close> has its default.
\<close>

section \<open>Mutexes\<close>

abbreviation mutex_of :: "nat \<Rightarrow> kernel \<Rightarrow> k_mutex" where
  "mutex_of m s \<equiv> mutexes (objs s) m"

definition upd_mutex :: "nat \<Rightarrow> (k_mutex \<Rightarrow> k_mutex) \<Rightarrow> kernel \<Rightarrow> kernel" where
  "upd_mutex m f = upd_objs (\<lambda>b. b\<lparr>mutexes := (mutexes b)(m := f (mutexes b m))\<rparr>)"

definition CONFIG_PRIORITY_CEILING :: int where "CONFIG_PRIORITY_CEILING = -128"

definition MUTEX_CHAIN_WALK_MAX_HOPS :: nat where "MUTEX_CHAIN_WALK_MAX_HOPS = 16"

definition z_is_under_prio_ceiling :: "int \<Rightarrow> bool" where
  "z_is_under_prio_ceiling p \<longleftrightarrow> p \<ge> CONFIG_PRIORITY_CEILING"

definition z_get_new_prio_with_ceiling :: "int \<Rightarrow> int" where
  "z_get_new_prio_with_ceiling p = (if z_is_under_prio_ceiling p then p else CONFIG_PRIORITY_CEILING)"

definition z_is_prio_higher :: "int \<Rightarrow> int \<Rightarrow> bool" where
  "z_is_prio_higher p test_prio \<longleftrightarrow> p < test_prio"

definition k_mutex_init :: "nat \<Rightarrow> kernel \<Rightarrow> int \<times> kernel" where
  "k_mutex_init m s =
     (0, z_waitq_init (WqMutex m) (upd_mutex m (\<lambda>x. x\<lparr>owner := None, lock_count := 0\<rparr>) s))"

definition new_prio_for_inheritance :: "int \<Rightarrow> int \<Rightarrow> int" where
  "new_prio_for_inheritance target limit =
     z_get_new_prio_with_ceiling (if z_is_prio_higher target limit then target else limit)"

definition adjust_owner_prio :: "nat \<Rightarrow> int \<Rightarrow> kernel \<Rightarrow> bool \<times> kernel" where
  "adjust_owner_prio m new_prio s =
     (case owner (mutex_of m s) of
        None \<Rightarrow> (False, k_panic s)
      | Some t \<Rightarrow> if prio (threads s t) \<noteq> new_prio then z_thread_prio_set t new_prio s else (False, s))"

fun held_scan :: "nat list \<Rightarrow> int \<Rightarrow> kernel \<Rightarrow> int" where
  "held_scan [] p s = p"
| "held_scan (m # ms) p s =
     (case z_waitq_head (WqMutex m) s of
        None \<Rightarrow> held_scan ms p s
      | Some waiter \<Rightarrow>
          let wprio = z_get_new_prio_with_ceiling (prio (threads s waiter))
          in held_scan ms (if z_is_prio_higher wprio p then wprio else p) s)"

definition held_mutexes_highest_waiter_prio :: "tid \<Rightarrow> int \<Rightarrow> kernel \<Rightarrow> int" where
  "held_mutexes_highest_waiter_prio thread floor_prio s =
     held_scan (held_mutexes (threads s thread)) floor_prio s"

text \<open>The walk along the owners; the first argument is the number of turns it may still take.\<close>

fun chain_walk :: "nat \<Rightarrow> nat \<Rightarrow> int \<Rightarrow> nat \<Rightarrow> tid option \<Rightarrow> bool \<Rightarrow> kernel \<Rightarrow> bool \<times> kernel" where
  "chain_walk 0 m boost_prio chain_mutex chain_owner rs s = (rs, s)"
| "chain_walk (Suc k) m boost_prio chain_mutex chain_owner rs s =
     (case chain_owner of
        None \<Rightarrow> (rs, s)
      | Some t \<Rightarrow>
          let (r1, s1) = (if z_is_prio_higher boost_prio (prio (threads s t))
                          then let (r, s0) = adjust_owner_prio chain_mutex boost_prio s in (r \<or> rs, s0)
                          else (rs, s))
          in case mutex_pended_on (threads s1 t) of
               None \<Rightarrow> (r1, s1)
             | Some cm \<Rightarrow>
                 if \<not> z_is_thread_pending (threads s1 t) \<or> cm = m \<or> k = 0 then (r1, s1)
                 else chain_walk k m boost_prio cm (owner (mutex_of cm s1)) r1 s1)"

text \<open>
  The result carries the flag \<open>resched\<close>, a local variable that the code still reads after the
  wait.
\<close>

definition k_mutex_lock :: "nat \<Rightarrow> int \<Rightarrow> kernel \<Rightarrow> bool \<times> int kres \<times> kernel" where
  "k_mutex_lock m timeout s =
     (let c = current s; x = mutex_of m s
      in if lock_count x = 0 \<or> owner x = Some c
         then let s1 = upd_mutex m (\<lambda>x. x\<lparr>lock_count := u32 (lock_count x + 1), owner := Some c\<rparr>) s
              in (False, Ret 0,
                  if lock_count (mutex_of m s1) = 1
                  then upd_thread c (\<lambda>th. th\<lparr>held_mutexes := held_mutexes th @ [m]\<rparr>)
                         (if held_mutexes (threads s1 c) = []
                          then upd_thread c (\<lambda>th. th\<lparr>orig_prio := prio th\<rparr>) s1 else s1)
                  else s1)
         else if timeout = K_NO_WAIT then (False, Ret (- EBUSY), s)
         else case owner x of
                None \<Rightarrow> (False, Panic, k_panic s)
              | Some t \<Rightarrow>
                  let s1 = upd_thread c (\<lambda>th. th\<lparr>mutex_pended_on := Some m\<rparr>) s;
                      boost_prio = new_prio_for_inheritance (prio (threads s1 c)) (prio (threads s1 t));
                      (rs, s2) = chain_walk MUTEX_CHAIN_WALK_MAX_HOPS m boost_prio m (Some t) False s1
                  in (rs, z_pend_curr (Some (WqMutex m)) timeout s2))"

definition k_mutex_lock_resume :: "nat \<Rightarrow> bool \<Rightarrow> kernel \<Rightarrow> int \<times> kernel" where
  "k_mutex_lock_resume m rs s =
     (let got_mutex = do_swap_resume s;
          s1 = upd_thread (current s) (\<lambda>th. th\<lparr>mutex_pended_on := None\<rparr>) s
      in if got_mutex = 0 then (0, s1)
         else let (rs2, s2) =
                    (case owner (mutex_of m s1) of
                       None \<Rightarrow> (rs, s1)
                     | Some t \<Rightarrow>
                         let new_prio = held_mutexes_highest_waiter_prio t (orig_prio (threads s1 t)) s1;
                             (r, s2) = adjust_owner_prio m new_prio s1
                         in (r \<or> rs, s2))
              in (- EAGAIN, if rs2 then reschedule s2 else s2))"

definition mutex_handoff :: "nat \<Rightarrow> kernel \<Rightarrow> bool \<times> kernel" where
  "mutex_handoff m s =
     (let (new_owner, s1) = z_unpend_first_thread_locked (WqMutex m) s;
          s2 = upd_mutex m (\<lambda>x. x\<lparr>owner := new_owner\<rparr>) s1
      in case new_owner of
           Some t \<Rightarrow>
             let s3 = (if held_mutexes (threads s2 t) = []
                       then upd_thread t (\<lambda>th. th\<lparr>orig_prio := prio th\<rparr>) s2 else s2);
                 s4 = upd_thread t (\<lambda>th. th\<lparr>held_mutexes := held_mutexes th @ [m], mutex_pended_on := None,
                                            swap_retval := 0\<rparr>) s3
             in (True, ready_thread t s4)
         | None \<Rightarrow> (False, upd_mutex m (\<lambda>x. x\<lparr>lock_count := 0\<rparr>) s2))"

definition mutex_restore_prio :: "nat \<Rightarrow> kernel \<Rightarrow> kernel" where
  "mutex_restore_prio m s =
     (let c = current s;
          s1 = upd_thread c (\<lambda>th. th\<lparr>held_mutexes := remove1 m (held_mutexes th)\<rparr>) s
      in if prio (threads s1 c) \<noteq> orig_prio (threads s1 c)
         then snd (adjust_owner_prio m (held_mutexes_highest_waiter_prio c (orig_prio (threads s1 c)) s1) s1)
         else s1)"

definition k_mutex_unlock :: "nat \<Rightarrow> kernel \<Rightarrow> int \<times> kernel" where
  "k_mutex_unlock m s =
     (let x = mutex_of m s
      in if owner x = None then (- EINVAL, s)
         else if owner x \<noteq> Some (current s) then (- EPERM, s)
         else if lock_count x > 1 then (0, upd_mutex m (\<lambda>x. x\<lparr>lock_count := u32 (lock_count x - 1)\<rparr>) s)
         else let (handed, s1) = mutex_handoff m (mutex_restore_prio m s)
              in (0, if handed then reschedule s1 else s1))"

section \<open>Condition variables\<close>

definition k_condvar_init :: "nat \<Rightarrow> kernel \<Rightarrow> int \<times> kernel" where
  "k_condvar_init cv s = (0, z_waitq_init (WqCondvar cv) s)"

definition k_condvar_signal :: "nat \<Rightarrow> kernel \<Rightarrow> int \<times> kernel" where
  "k_condvar_signal cv s =
     (let (woke, s1) = z_sched_wake (WqCondvar cv) 0 0 s in (0, if woke then reschedule s1 else s1))"

fun condvar_wake_loop :: "nat \<Rightarrow> nat \<Rightarrow> int \<Rightarrow> kernel \<Rightarrow> int \<times> kernel" where
  "condvar_wake_loop 0 cv k s = (k, s)"
| "condvar_wake_loop (Suc n) cv k s =
     (let (woke, s1) = z_sched_wake (WqCondvar cv) 0 0 s
      in if woke then condvar_wake_loop n cv (s32 (k + 1)) s1 else (k, s1))"

definition k_condvar_broadcast :: "nat \<Rightarrow> kernel \<Rightarrow> int \<times> kernel" where
  "k_condvar_broadcast cv s =
     (let (k, s1) = condvar_wake_loop (Suc (length (waitq s (WqCondvar cv)))) cv 0 s
      in (k, if k = 0 then s1 else reschedule s1))"

text \<open>
  \<^verbatim>\<open>k_condvar_wait\<close> releases the mutex with the lock of the condition variable held, that is, with
  interrupts locked, so that the release itself does not reschedule.  The wait then continues
  with the two resume parts, one for each point where the thread can be switched out.
\<close>

definition k_condvar_wait :: "nat \<Rightarrow> nat \<Rightarrow> int \<Rightarrow> kernel \<Rightarrow> int kres \<times> kernel" where
  "k_condvar_wait cv m timeout s =
     (if timeout = K_NO_WAIT then (Ret (- EAGAIN), s)
      else let s1 = snd (k_mutex_unlock m (s\<lparr>irq_unlocked := False\<rparr>))
           in z_pend_curr (Some (WqCondvar cv)) timeout (s1\<lparr>irq_unlocked := irq_unlocked s\<rparr>))"

definition k_condvar_wait_resume :: "nat \<Rightarrow> kernel \<Rightarrow> int \<times> bool \<times> int kres \<times> kernel" where
  "k_condvar_wait_resume m s =
     (let ret = do_swap_resume s; (rs, r, s1) = k_mutex_lock m K_FOREVER s in (ret, rs, r, s1))"

section \<open>Changing a priority\<close>

lemma requeue_mark:
  assumes "z_is_thread_queued th"
  shows "z_mark_thread_as_queued ((z_mark_thread_as_not_queued th)\<lparr>prio := p\<rparr>) = th\<lparr>prio := p\<rparr>"
proof -
  have "thread_state (z_mark_thread_as_queued (z_mark_thread_as_not_queued th)) = thread_state th"
    using assms unfolding thread_tests by (intro bit_word_eqI, unfold thread_marks_bits) metis
  then show ?thesis by (simp add: z_mark_thread_as_queued_def z_mark_thread_as_not_queued_def)
qed

lemma prio_set_threads:
  fixes p :: int
  assumes s: "sinv {} s" and n: "z_is_thread_pending (threads s t) \<Longrightarrow> pended_on (threads s t) \<noteq> None"
    and i: "t \<noteq> idle_thread s"
  defines "s' \<equiv> snd (z_thread_prio_set t p s)"
  shows "threads s' = (threads s)(t := (threads s t)\<lparr>prio := s8 p\<rparr>)"
    "set (waitq s' w) = set (waitq s w)" "waitq s' w = [] \<longleftrightarrow> waitq s w = []" "armed s' = armed s"
    "fatal s' = fatal s" "pended_on (threads s t) = None \<Longrightarrow> waitq s' = waitq s"
proof -
  have mq: "z_mark_thread_as_queued ((z_mark_thread_as_not_queued (threads s t))\<lparr>prio := s8 p\<rparr>) =
      (threads s t)\<lparr>prio := s8 p\<rparr>" if "RDY s t"
    using sinvD(5) [OF s that] i sinv_simps(5) [OF s, of t] by (simp add: requeue_mark)
  show "threads s' = (threads s)(t := (threads s t)\<lparr>prio := s8 p\<rparr>)"
    using n mq by (auto simp: s'_def prio_set_eq [OF s] queue_thread_eq dequeue_thread_eq split: option.split)
  have m: "t \<in> set (waitq s v)" if "pended_on (threads s t) = Some v" for v
    using that by (simp add: sinv_simps(6) [OF s])
  show w: "set (waitq s' w) = set (waitq s w)"
    using n m sinv_simps(3) [OF s, of w]
    by (auto simp: s'_def prio_set_eq [OF s] wait_add_def wait_remove_def simple_add_insert z_priq_simple_remove_def
        split: option.split if_splits)
  then show "waitq s' w = [] \<longleftrightarrow> waitq s w = []" by (metis set_empty)
  show "waitq s' = waitq s" if "pended_on (threads s t) = None"
    using n that by (auto simp: s'_def prio_set_eq [OF s])
  show "armed s' = armed s" "fatal s' = fatal s"
    using n by (auto simp: s'_def prio_set_eq [OF s] armed_def fun_eq_iff split: option.split)
qed

section \<open>Invariant\<close>

text \<open>
  A mutex is counted exactly while it has an owner, the owner is the thread that has it in its
  list, and only an owned mutex has waiters.
\<close>

definition mutex_inv :: "kernel \<Rightarrow> bool" where
  "mutex_inv s \<longleftrightarrow>
     (\<forall>m. 0 \<le> lock_count (mutex_of m s) \<and> lock_count (mutex_of m s) < 2 ^ 32 \<and>
        (lock_count (mutex_of m s) = 0 \<longleftrightarrow> owner (mutex_of m s) = None) \<and>
        (waitq s (WqMutex m) \<noteq> [] \<longrightarrow> owner (mutex_of m s) \<noteq> None)) \<and>
     (\<forall>t. distinct (held_mutexes (threads s t)) \<and>
        (\<forall>m. m \<in> set (held_mutexes (threads s t)) \<longleftrightarrow> owner (mutex_of m s) = Some t)) \<and>
     held_mutexes (threads s (idle_thread s)) = []"

lemma mutex_inv_cong:
  assumes "mutex_inv s" and "mutexes (objs s') = mutexes (objs s)"
    and "\<And>t. held_mutexes (threads s' t) = held_mutexes (threads s t)"
    and "\<And>m. waitq s (WqMutex m) = [] \<Longrightarrow> waitq s' (WqMutex m) = []" and "idle_thread s' = idle_thread s"
  shows "mutex_inv s'"
  using assms(1,4) unfolding mutex_inv_def assms(2,3,5) by blast

lemma mutex_invD:
  assumes "mutex_inv s"
  shows "0 \<le> lock_count (mutex_of m s)" "lock_count (mutex_of m s) < 2 ^ 32"
    "lock_count (mutex_of m s) = 0 \<longleftrightarrow> owner (mutex_of m s) = None"
    "waitq s (WqMutex m) \<noteq> [] \<Longrightarrow> owner (mutex_of m s) \<noteq> None"
    "distinct (held_mutexes (threads s t))"
    "m \<in> set (held_mutexes (threads s t)) \<longleftrightarrow> owner (mutex_of m s) = Some t"
    "owner (mutex_of m s) \<noteq> Some (idle_thread s)"
proof -
  show h: "m \<in> set (held_mutexes (threads s t)) \<longleftrightarrow> owner (mutex_of m s) = Some t" for t
    using assms by (simp add: mutex_inv_def)
  show "owner (mutex_of m s) \<noteq> Some (idle_thread s)"
    using assms h [of "idle_thread s"] by (auto simp: mutex_inv_def)
qed (use assms in \<open>auto simp: mutex_inv_def\<close>)

text \<open>The state a step of priority inheritance leaves alone.\<close>

definition prio_diff :: "k_thread \<Rightarrow> k_thread \<Rightarrow> bool" where
  "prio_diff th th' \<longleftrightarrow> th' = th\<lparr>prio := prio th'\<rparr>"

definition prio_only :: "kernel \<Rightarrow> kernel \<Rightarrow> bool" where
  "prio_only s s' \<longleftrightarrow> objs s' = objs s \<and> current s' = current s \<and> in_isr s' = in_isr s \<and>
     irq_unlocked s' = irq_unlocked s \<and> idle_thread s' = idle_thread s \<and> armed s' = armed s \<and> fatal s' = fatal s \<and>
     (\<forall>w. set (waitq s' w) = set (waitq s w)) \<and>
     (\<forall>t. prio_diff (threads s t) (threads s' t)) \<and> (\<forall>n. timeout_fits n s' = timeout_fits n s)"

lemma prio_diff_refl [simp]: "prio_diff th th"
  by (simp add: prio_diff_def)

lemma prio_diff_upd [simp]: "prio_diff th (th\<lparr>prio := p\<rparr>)"
  by (simp add: prio_diff_def)

lemma prio_diff_trans:
  assumes "prio_diff a b" "prio_diff b c"
  shows "prio_diff a c"
proof -
  have "c = (a\<lparr>prio := prio b\<rparr>)\<lparr>prio := prio c\<rparr>" using assms unfolding prio_diff_def by metis
  then show ?thesis by (simp add: prio_diff_def)
qed

lemma prio_diff_sel:
  assumes "prio_diff a b"
  shows "held_mutexes b = held_mutexes a" "mutex_pended_on b = mutex_pended_on a" "pended_on b = pended_on a"
    "orig_prio b = orig_prio a" "thread_state b = thread_state a" "sched_locked b = sched_locked a"
proof -
  obtain p where "b = a\<lparr>prio := p\<rparr>" using assms unfolding prio_diff_def by blast
  then show "held_mutexes b = held_mutexes a" "mutex_pended_on b = mutex_pended_on a" "pended_on b = pended_on a"
    "orig_prio b = orig_prio a" "thread_state b = thread_state a" "sched_locked b = sched_locked a" by simp_all
qed

lemma prio_only_refl [simp]: "prio_only s s"
  by (simp add: prio_only_def)

lemma prio_only_trans:
  assumes "prio_only s s1" and "prio_only s1 s2"
  shows "prio_only s s2"
proof -
  have "prio_diff (threads s t) (threads s2 t)" for t
    using assms prio_diff_trans [of "threads s t" "threads s1 t" "threads s2 t"] by (simp add: prio_only_def)
  with assms show ?thesis by (simp add: prio_only_def)
qed

lemma prio_only_thread:
  assumes "prio_only s s'"
  shows "held_mutexes (threads s' t) = held_mutexes (threads s t)"
    "mutex_pended_on (threads s' t) = mutex_pended_on (threads s t)"
    "pended_on (threads s' t) = pended_on (threads s t)" "orig_prio (threads s' t) = orig_prio (threads s t)"
    "thread_state (threads s' t) = thread_state (threads s t)"
    "sched_locked (threads s' t) = sched_locked (threads s t)"
    "z_is_thread_pending (threads s' t) = z_is_thread_pending (threads s t)" "RDY s' t = RDY s t"
    "waitq s' w = [] \<longleftrightarrow> waitq s w = []"
proof -
  have e: "prio_diff (threads s t) (threads s' t)" using assms by (simp add: prio_only_def)
  show "held_mutexes (threads s' t) = held_mutexes (threads s t)"
    "mutex_pended_on (threads s' t) = mutex_pended_on (threads s t)"
    "pended_on (threads s' t) = pended_on (threads s t)" "orig_prio (threads s' t) = orig_prio (threads s t)"
    "sched_locked (threads s' t) = sched_locked (threads s t)" by (rule prio_diff_sel [OF e])+
  show st: "thread_state (threads s' t) = thread_state (threads s t)" by (rule prio_diff_sel [OF e])
  show "z_is_thread_pending (threads s' t) = z_is_thread_pending (threads s t)" "RDY s' t = RDY s t"
    by (rule thread_state_tests_cong [OF st])+
  have "set (waitq s' w) = set (waitq s w)" using assms by (simp add: prio_only_def)
  then show "waitq s' w = [] \<longleftrightarrow> waitq s w = []" by (metis set_empty)
qed

lemma prio_only_inv:
  assumes "prio_only s s'"
  shows "mutex_inv s \<Longrightarrow> mutex_inv s'" "pend_ok s \<Longrightarrow> pend_ok s'"
proof -
  note t = prio_only_thread [OF assms]
  show "mutex_inv s \<Longrightarrow> mutex_inv s'"
    by (erule mutex_inv_cong) (use assms t in \<open>simp_all add: prio_only_def\<close>)
  show "pend_ok s \<Longrightarrow> pend_ok s'" by (simp add: pend_ok_def t)
qed

section \<open>Priority inheritance\<close>

lemma adjust_owner_prio_rule:
  assumes s: "sinv {} s" "cache_ok s" and p: "pend_ok s"
    and o: "owner (mutex_of m s) = Some t" and i: "t \<noteq> idle_thread s" and b: "s8 p = p"
  defines "s' \<equiv> snd (adjust_owner_prio m p s)"
  shows "sinv {} s'" "cache_ok s'" "prio_only s s'" "prio (threads s' u) = (if u = t then p else prio (threads s u))"
    "fst (adjust_owner_prio m p s) \<Longrightarrow> RDY s t" "u \<noteq> t \<Longrightarrow> threads s' u = threads s u"
    "prio (threads s t) \<noteq> p \<Longrightarrow> RDY s t \<Longrightarrow> cache s' = next_up s'"
    "pended_on (threads s t) = None \<Longrightarrow> waitq s' = waitq s"
proof -
  have n: "z_is_thread_pending (threads s t) \<Longrightarrow> pended_on (threads s t) \<noteq> None" using p by (simp add: pend_ok_def)
  note r = prio_set_rule [OF s(1) i, of p] and e = prio_set_threads [OF s(1) n i, of p]
  note f = prio_set_frame [of t p s]
  let ?c = "prio (threads s t) \<noteq> p"
  have s': "s' = (if ?c then snd (z_thread_prio_set t p s) else s)" "fst (adjust_owner_prio m p s) \<Longrightarrow> ?c"
    "?c \<Longrightarrow> fst (adjust_owner_prio m p s) = fst (z_thread_prio_set t p s)"
    using o by (simp_all add: s'_def adjust_owner_prio_def split: if_splits)
  show "sinv {} s'" "cache_ok s'" "fst (adjust_owner_prio m p s) \<Longrightarrow> RDY s t"
    "?c \<Longrightarrow> RDY s t \<Longrightarrow> cache s' = next_up s'"
    using s s' r by auto
  have fits: "timeout_fits k (snd (z_thread_prio_set t p s)) = timeout_fits k s" for k
    by (rule timeout_fits_same) (simp_all add: f z_thread_prio_set_def Let_def k_panic_def split: option.split)
  have "prio_diff (threads s u) (threads s' u)" for u by (simp add: s'(1) e(1))
  then show "prio_only s s'" using e(2-5) f fits by (simp add: s'(1) prio_only_def)
  show "prio (threads s' u) = (if u = t then p else prio (threads s u))" "u \<noteq> t \<Longrightarrow> threads s' u = threads s u"
    "pended_on (threads s t) = None \<Longrightarrow> waitq s' = waitq s"
    using e(1,6) b by (auto simp: s'(1))
qed

text \<open>The owner \<open>n\<close> steps down the chain that starts at a mutex; the chain ends where it meets \<open>m\<close> again.\<close>

fun nth_owner :: "kernel \<Rightarrow> nat \<Rightarrow> nat \<Rightarrow> nat \<Rightarrow> tid option" where
  "nth_owner s m 0 cm = owner (mutex_of cm s)"
| "nth_owner s m (Suc n) cm =
     (case owner (mutex_of cm s) of
        None \<Rightarrow> None
      | Some t \<Rightarrow>
          (case mutex_pended_on (threads s t) of
             None \<Rightarrow> None
           | Some cm' \<Rightarrow> if z_is_thread_pending (threads s t) \<and> cm' \<noteq> m then nth_owner s m n cm' else None))"

lemma nth_owner_prio_only:
  assumes "prio_only s s'"
  shows "nth_owner s' m n cm = nth_owner s m n cm"
proof (induction n arbitrary: cm)
  case (Suc n)
  have "mutexes (objs s') = mutexes (objs s)" using assms by (simp add: prio_only_def)
  with Suc show ?case by (simp add: prio_only_thread(2,7) [OF assms] cong: option.case_cong if_cong)
qed (use assms in \<open>simp add: prio_only_def\<close>)

lemma chain_walk_rule:
  fixes k m cm :: nat and rs :: bool
  assumes "sinv {} s" "cache_ok s" "mutex_inv s" "pend_ok s" and b: "s8 b = b"
  defines "s' \<equiv> snd (chain_walk k m b cm (owner (mutex_of cm s)) rs s)"
  shows "sinv {} s' \<and> cache_ok s' \<and> prio_only s s' \<and>
    (\<forall>u. prio (threads s' u) = prio (threads s u) \<or> prio (threads s' u) = b \<and> b < prio (threads s u)) \<and>
    (\<forall>n t. n < k \<longrightarrow> nth_owner s m n cm = Some t \<longrightarrow> prio (threads s' t) \<le> b)"
  using assms(1-4) unfolding s'_def
proof (induction k arbitrary: cm rs s)
  case 0
  then show ?case by simp
next
  case (Suc k)
  show ?case
  proof (cases "owner (mutex_of cm s)")
    case None
    have "nth_owner s m n cm = None" for n using None by (cases n) simp_all
    with None Suc.prems show ?thesis by simp
  next
    case (Some t)
    define c where "c \<longleftrightarrow> b < prio (threads s t)"
    define s1 where "s1 = (if c then snd (adjust_owner_prio cm b s) else s)"
    define r1 where "r1 \<longleftrightarrow> (c \<and> fst (adjust_owner_prio cm b s)) \<or> rs"
    have "t \<noteq> idle_thread s" using mutex_invD(7) [OF Suc.prems(3), of cm] Some by auto
    note a = adjust_owner_prio_rule [OF Suc.prems(1,2,4) Some this b]
    have s1: "sinv {} s1" "cache_ok s1" "prio_only s s1" "\<And>u. u \<noteq> t \<Longrightarrow> prio (threads s1 u) = prio (threads s u)"
      "prio (threads s1 t) = (if c then b else prio (threads s t))"
      using a(1-4) Suc.prems by (auto simp: s1_def)
    have le: "prio (threads s1 t) \<le> b" by (simp add: s1(5) c_def)
    have ch: "prio (threads s1 u) = prio (threads s u) \<or> prio (threads s1 u) = b \<and> b < prio (threads s u)" for u
      using s1(4,5) by (cases "u = t") (auto simp: c_def)
    note inv1 = prio_only_inv [OF s1(3)] and th1 = prio_only_thread [OF s1(3)]
    have o1: "mutexes (objs s1) = mutexes (objs s)" using s1(3) by (simp add: prio_only_def)
    have no: "nth_owner s1 m n cm = nth_owner s m n cm" for n by (rule nth_owner_prio_only [OF s1(3)])
    show ?thesis
    proof (cases "\<exists>cm'. mutex_pended_on (threads s t) = Some cm' \<and> z_is_thread_pending (threads s t) \<and> cm' \<noteq> m \<and> k \<noteq> 0")
      case False
      then have e: "snd (chain_walk (Suc k) m b cm (owner (mutex_of cm s)) rs s) = s1"
        using Some th1(2,7) [of t]
        by (auto simp: s1_def c_def z_is_prio_higher_def case_prod_unfold Let_def split: option.split)
      have "n = 0 \<or> nth_owner s m n cm = None" if "n < Suc k" for n
        using False that Some by (cases n) (auto split: option.split)
      then show ?thesis unfolding e using s1 ch le Some by fastforce
    next
      case True
      then obtain cm' where cm': "mutex_pended_on (threads s t) = Some cm'" "z_is_thread_pending (threads s t)"
        "cm' \<noteq> m" "k \<noteq> 0" by blast
      let ?s2 = "snd (chain_walk k m b cm' (owner (mutex_of cm' s1)) r1 s1)"
      have e: "snd (chain_walk (Suc k) m b cm (owner (mutex_of cm s)) rs s) = ?s2"
        using Some cm' th1(2,7) [of t]
        by (auto simp: s1_def r1_def c_def z_is_prio_higher_def case_prod_unfold Let_def)
      note IH = Suc.IH [OF s1(1,2) inv1(1) [OF Suc.prems(3)] inv1(2) [OF Suc.prems(4)], of cm' r1]
      have down: "prio (threads ?s2 u) \<le> prio (threads s1 u)" for u using IH by (metis less_le order_refl)
      have le2: "prio (threads ?s2 u) \<le> b" if "n < Suc k" "nth_owner s m n cm = Some u" for n u
      proof (cases n)
        case 0
        with that Some le down [of u] show ?thesis by simp
      next
        case (Suc i)
        with that Some cm' have "nth_owner s m i cm' = Some u" "i < k" by simp_all
        then have "nth_owner s1 m i cm' = Some u" "i < k" by (simp_all add: nth_owner_prio_only [OF s1(3)])
        with IH show ?thesis by blast
      qed
      have ch2: "prio (threads ?s2 u) = prio (threads s u) \<or> prio (threads ?s2 u) = b \<and> b < prio (threads s u)" for u
        using ch [of u] IH by (metis less_irrefl)
      show ?thesis unfolding e
        using IH prio_only_trans [OF s1(3)] le2 ch2 by (intro conjI allI impI) blast+
    qed
  qed
qed

section \<open>Locking\<close>

lemma mutex_inv_wait:
  assumes "mutex_inv s" and "mutexes (objs s') = mutexes (objs s)"
    and "\<And>t. held_mutexes (threads s' t) = held_mutexes (threads s t)"
    and "\<And>m. waitq s' (WqMutex m) \<noteq> [] \<Longrightarrow> owner (mutex_of m s) \<noteq> None" and "idle_thread s' = idle_thread s"
  shows "mutex_inv s'"
  using assms(1,4) unfolding mutex_inv_def assms(2,3,5) by blast

lemma upd_mutex_sel [simp]:
  "mutexes (objs (upd_mutex m f s)) = (mutexes (objs s))(m := f (mutexes (objs s) m))"
  "sems (objs (upd_mutex m f s)) = sems (objs s)" "msgqs (objs (upd_mutex m f s)) = msgqs (objs s)"
  "stacks (objs (upd_mutex m f s)) = stacks (objs s)" "slabs (objs (upd_mutex m f s)) = slabs (objs s)"
  "events (objs (upd_mutex m f s)) = events (objs s)" "timers (objs (upd_mutex m f s)) = timers (objs s)"
  "queues (objs (upd_mutex m f s)) = queues (objs s)" "mem (objs (upd_mutex m f s)) = mem (objs s)"
  "words (objs (upd_mutex m f s)) = words (objs s)" "waitq (upd_mutex m f s) = waitq s"
  "threads (upd_mutex m f s) = threads s" "current (upd_mutex m f s) = current s"
  "idle_thread (upd_mutex m f s) = idle_thread s" "in_isr (upd_mutex m f s) = in_isr s"
  "irq_unlocked (upd_mutex m f s) = irq_unlocked s" "sched_ok (upd_mutex m f s) = sched_ok s"
  "resched_ok (upd_mutex m f s) = resched_ok s" "sinv X (upd_mutex m f s) = sinv X s"
  "cache_ok (upd_mutex m f s) = cache_ok s" "armed (upd_mutex m f s) = armed s"
  by (simp_all add: upd_mutex_def)

lemma keeps_mutex_fields [simp]:
  "keeps_state (\<lambda>th. th\<lparr>held_mutexes := h th\<rparr>)" "keeps_state (\<lambda>th. th\<lparr>orig_prio := p th\<rparr>)"
  "keeps_state (\<lambda>th. th\<lparr>mutex_pended_on := x\<rparr>)"
  by (simp_all add: keeps_state_def)

lemmas sched_ok_mutex_fields [simp] =
  sched_ok_keeps [OF keeps_mutex_fields(1)] sched_ok_keeps [OF keeps_mutex_fields(2)]
  sched_ok_keeps [OF keeps_mutex_fields(3)]
  sinv_keeps [OF keeps_mutex_fields(1)] sinv_keeps [OF keeps_mutex_fields(2)] sinv_keeps [OF keeps_mutex_fields(3)]
  cache_ok_keeps [OF keeps_mutex_fields(1)] cache_ok_keeps [OF keeps_mutex_fields(2)]
  cache_ok_keeps [OF keeps_mutex_fields(3)]

lemma mutex_lock_take:
  fixes n :: int
  assumes s: "sched_ok s" and m: "mutex_inv s" and p: "prio_ok s" "pend_ok s"
    and f: "owner (mutex_of m s) = None \<or> owner (mutex_of m s) = Some (current s)"
    and c: "current s \<noteq> idle_thread s" "lock_count (mutex_of m s) < 2 ^ 32 - 1"
  defines "s' \<equiv> snd (snd (k_mutex_lock m n s))"
  shows "k_mutex_lock m n s = (False, Ret 0, s')" "sched_ok s'" "resched_ok s' = resched_ok s"
    "mutex_inv s'" "prio_ok s'" "pend_ok s'" "current s' = current s"
    "mutex_of m s' = \<lparr>owner = Some (current s), lock_count = lock_count (mutex_of m s) + 1\<rparr>"
    "waitq s' = waitq s" "k \<noteq> m \<Longrightarrow> mutex_of k s' = mutex_of k s"
proof -
  let ?c = "current s" and ?x = "mutex_of m s"
  have lc: "lock_count ?x = 0 \<or> owner ?x = Some ?c" using f mutex_invD(3) [OF m, of m] by auto
  have u: "u32 (lock_count ?x + 1) = lock_count ?x + 1" using mutex_invD(1) [OF m, of m] c(2) by (intro u32_id) simp_all
  have l1: "lock_count ?x + 1 = 1 \<longleftrightarrow> owner ?x = None" using mutex_invD(3) [OF m, of m] by simp
  have hm: "m \<in> set (held_mutexes (threads s ?c)) \<longleftrightarrow> owner ?x = Some ?c" by (rule mutex_invD(6) [OF m])
  define h where "h = (\<lambda>th :: k_thread. if owner ?x = None then th\<lparr>held_mutexes := held_mutexes th @ [m],
      orig_prio := (if held_mutexes th = [] then prio th else orig_prio th)\<rparr> else th)"
  let ?s1 = "upd_mutex m (\<lambda>x. x\<lparr>lock_count := lock_count x + 1, owner := Some ?c\<rparr>) s"
  have s1: "upd_mutex m (\<lambda>x. x\<lparr>lock_count := u32 (lock_count x + 1), owner := Some ?c\<rparr>) s = ?s1"
    using u by (simp add: upd_mutex_def upd_objs_def)
  have e: "upd_thread c f (upd_thread c g z) = upd_thread c (f \<circ> g) z" for c f g and z :: kernel
    by (simp add: upd_thread_def)
  have s': "s' = upd_thread ?c h ?s1"
  proof (cases "owner ?x = None")
    case True
    have "h (threads s ?c) = (if held_mutexes (threads s ?c) = []
        then (\<lambda>th. th\<lparr>held_mutexes := held_mutexes th @ [m]\<rparr>) ((threads s ?c)\<lparr>orig_prio := prio (threads s ?c)\<rparr>)
        else (threads s ?c)\<lparr>held_mutexes := held_mutexes (threads s ?c) @ [m]\<rparr>)"
      using True by (simp add: h_def)
    with True lc l1 u show ?thesis unfolding s'_def k_mutex_lock_def Let_def s1
      by (simp add: e) (simp add: upd_thread_def)
  next
    case False
    then have "h = (\<lambda>th. th)" unfolding h_def by (simp only: if_False)
    moreover have "owner ?x = Some ?c" "lock_count ?x \<noteq> 0" using False f l1 by auto
    ultimately show ?thesis using u unfolding s'_def k_mutex_lock_def Let_def s1
      by (simp add: upd_thread_id)
  qed
  have k: "keeps_state h" by (simp add: keeps_state_def h_def)
  show "k_mutex_lock m n s = (False, Ret 0, s')" using lc by (simp add: s'_def k_mutex_lock_def Let_def)
  show "sched_ok s'" "resched_ok s' = resched_ok s" "current s' = ?c" "waitq s' = waitq s"
    "mutex_of m s' = \<lparr>owner = Some ?c, lock_count = lock_count ?x + 1\<rparr>" "k \<noteq> m \<Longrightarrow> mutex_of k s' = mutex_of k s"
    using s by (simp_all add: s' sched_ok_keeps [OF k])
  have he: "held_mutexes (h th) = (if owner ?x = None then held_mutexes th @ [m] else held_mutexes th)" for th
    by (simp add: h_def)
  have nz: "lock_count ?x + 1 \<noteq> 0" using mutex_invD(1) [OF m, of m] by simp
  show "mutex_inv s'" using m c(1) mutex_invD(1,2) [OF m, of m] c(2) f hm mutex_invD(6) [OF m]
    unfolding s' mutex_inv_def by (auto simp: he nz)
  show "prio_ok s'" using p(1) by (simp add: s' prio_ok_def h_def)
  show "pend_ok s'" using p(2) by (simp add: s' pend_ok_def keeps_stateD [OF k])
qed

lemma ceiling_id: "s8 p = p \<Longrightarrow> z_get_new_prio_with_ceiling p = p"
  using s8_range(1) [of p] by (simp add: z_get_new_prio_with_ceiling_def z_is_under_prio_ceiling_def CONFIG_PRIORITY_CEILING_def)

lemma new_prio_min: "new_prio_for_inheritance x y = z_get_new_prio_with_ceiling (min x y)"
  by (simp add: new_prio_for_inheritance_def z_is_prio_higher_def min_def)

lemma mutex_lock_wait:
  fixes n :: int
  assumes s: "sched_ok s" and m: "mutex_inv s" and p: "prio_ok s" "pend_ok s"
    and o: "owner (mutex_of m s) = Some t" "t \<noteq> current s" and n: "n \<noteq> K_NO_WAIT" "timeout_fits n s"
    and c: "\<not> in_isr s" "current s \<noteq> idle_thread s"
  defines "s' \<equiv> snd (snd (k_mutex_lock m n s))"
    and "b \<equiv> min (prio (threads s (current s))) (prio (threads s t))"
  shows "fst (snd (k_mutex_lock m n s)) = Swapped" "sched_ok s'" "resched_ok s'" "mutex_inv s'" "prio_ok s'" "pend_ok s'"
    "objs s' = objs s" "set (waitq s' w) = (if w = WqMutex m then insert (current s) (set (waitq s w)) else set (waitq s w))"
    "pended_on (threads s' (current s)) = Some (WqMutex m)" "mutex_pended_on (threads s' (current s)) = Some m"
    "k < MUTEX_CHAIN_WALK_MAX_HOPS \<Longrightarrow> nth_owner (upd_thread (current s) (\<lambda>th. th\<lparr>mutex_pended_on := Some m\<rparr>) s) m k m = Some u
       \<Longrightarrow> prio (threads s' u) \<le> b"
    "prio (threads s' u) = prio (threads s u) \<or> prio (threads s' u) = b \<and> b < prio (threads s u)"
    "idle_thread s' = idle_thread s"
proof -
  let ?c = "current s" and ?x = "mutex_of m s"
  define s1 where "s1 = upd_thread ?c (\<lambda>th. th\<lparr>mutex_pended_on := Some m\<rparr>) s"
  define s2 where "s2 = snd (chain_walk MUTEX_CHAIN_WALK_MAX_HOPS m b m (owner (mutex_of m s1)) False s1)"
  note i = sched_okD [OF s]
  have p8: "s8 (prio (threads s u)) = prio (threads s u)" for u using p(1) by (simp add: prio_ok_def)
  have b8: "s8 b = b" using p8 [of ?c] p8 [of t] by (simp add: b_def min_def)
  have boost: "new_prio_for_inheritance (prio (threads s1 ?c)) (prio (threads s1 t)) = b"
    using ceiling_id [OF b8] o(2) by (simp add: new_prio_min s1_def b_def)
  have nl: "lock_count ?x \<noteq> 0" using mutex_invD(3) [OF m, of m] o(1) by simp
  have e: "snd (k_mutex_lock m n s) = z_pend_curr (Some (WqMutex m)) n s2"
    using o n(1) nl boost by (simp add: k_mutex_lock_def Let_def s1_def [symmetric] s2_def case_prod_unfold)
      (simp add: s1_def)
  have i1: "sched_ok s1" "sinv {} s1" "cache_ok s1" "mutex_inv s1" "pend_ok s1" "prio_ok s1"
    using s i p by (simp_all add: s1_def pend_ok_def prio_ok_def keeps_stateD(6) [OF keeps_mutex_fields(3)])
      (rule mutex_inv_cong [OF m]; simp)
  have pr1: "prio (threads s1 u) = prio (threads s u)" "orig_prio (threads s1 u) = orig_prio (threads s u)"
    "held_mutexes (threads s1 u) = held_mutexes (threads s u)" for u by (simp_all add: s1_def)
  from chain_walk_rule [OF i1(2,3,4,5) b8, of MUTEX_CHAIN_WALK_MAX_HOPS m m False, folded s2_def]
  have w: "sinv {} s2" "cache_ok s2" "prio_only s1 s2"
    and ch: "\<And>u. prio (threads s2 u) = prio (threads s1 u) \<or> prio (threads s2 u) = b \<and> b < prio (threads s1 u)"
    and le: "\<And>k u. k < MUTEX_CHAIN_WALK_MAX_HOPS \<Longrightarrow> nth_owner s1 m k m = Some u \<Longrightarrow> prio (threads s2 u) \<le> b" by blast+
  have fr: "objs s2 = objs s" "current s2 = ?c" "in_isr s2 = in_isr s" "idle_thread s2 = idle_thread s"
    "timeout_fits n s2" "\<And>w. set (waitq s2 w) = set (waitq s w)"
    using w(3) n(2) by (simp_all add: prio_only_def s1_def)
  note th = prio_only_thread [OF w(3)]
  have s2: "sched_ok s2" "\<not> in_isr s2" "current s2 \<noteq> idle_thread s2"
    using w(1,2) i(3) [OF c(1)] c th(8) [of ?c] by (auto simp: sched_ok_def fr s1_def keeps_stateD(4) [OF keeps_mutex_fields(3)])
  note P = pend_curr_rule [OF s2 fr(5), of "Some (WqMutex m)", folded e]
  show "fst (snd (k_mutex_lock m n s)) = Swapped" using P(1) by (simp add: prod_eq_iff)
  show "sched_ok s'" "resched_ok s'" using P(2,3) by (simp_all add: s'_def fr)
  show os: "objs s' = objs s" "idle_thread s' = idle_thread s" using P(6,9) by (simp_all add: s'_def fr)
  have ts: "threads s' = (threads s2)(?c := (blocked_on (Some (WqMutex m)) (threads s2 ?c))\<lparr>swap_retval := - EAGAIN\<rparr>)"
    using P(4) by (simp add: s'_def fr)
  show ws: "set (waitq s' w) = (if w = WqMutex m then insert ?c (set (waitq s w)) else set (waitq s w))" for w
    using P(5) by (simp add: s'_def fr)
  show "pended_on (threads s' ?c) = Some (WqMutex m)" "mutex_pended_on (threads s' ?c) = Some m"
    using th(2) [of ?c] by (simp_all add: ts s1_def)
  have pr: "prio (threads s' u) = prio (threads s2 u)" for u by (simp add: ts)
  show "prio (threads s' u) = prio (threads s u) \<or> prio (threads s' u) = b \<and> b < prio (threads s u)"
    using ch [of u] by (simp add: pr pr1)
  show "prio (threads s' u) \<le> b" if "k < MUTEX_CHAIN_WALK_MAX_HOPS"
    "nth_owner (upd_thread ?c (\<lambda>th. th\<lparr>mutex_pended_on := Some m\<rparr>) s) m k m = Some u" for k u
    using le that by (simp add: pr s1_def)
  show "mutex_inv s'"
  proof (rule mutex_inv_wait [OF m])
    show "waitq s' (WqMutex k) \<noteq> [] \<Longrightarrow> owner (mutex_of k s) \<noteq> None" for k
      using ws [of "WqMutex k"] mutex_invD(4) [OF m, of k] o(1) by (cases "k = m") (metis set_empty wqid.inject(2) option.simps(3))+
    show "held_mutexes (threads s' u) = held_mutexes (threads s u)" for u using th(1) [of u] by (auto simp: ts pr1)
  qed (simp_all add: os)
  have "orig_prio (threads s' u) = orig_prio (threads s u)" for u using th(4) [of u] by (auto simp: ts pr1)
  moreover have "s8 (prio (threads s2 u)) = prio (threads s2 u)" for u using ch [of u] b8 p8 [of u] by (auto simp: pr1)
  ultimately show "prio_ok s'" using p(1) by (simp add: prio_ok_def pr)
  show "pend_ok s'" using p(2) th(3,7) i1(5) by (simp add: pend_ok_def ts)
qed

section \<open>Unlocking\<close>

text \<open>The scan over the mutexes a thread holds finds the most urgent waiter.\<close>

lemma held_scan_rule:
  assumes s: "sinv {} s" and p: "prio_ok s"
  shows "held_scan ms q s \<le> q"
    "m \<in> set ms \<Longrightarrow> t \<in> set (waitq s (WqMutex m)) \<Longrightarrow> held_scan ms q s \<le> prio (threads s t)"
    "held_scan ms q s = q \<or> (\<exists>m t. m \<in> set ms \<and> t \<in> set (waitq s (WqMutex m)) \<and> held_scan ms q s = prio (threads s t))"
proof -
  have 1: "held_scan ms q s \<le> q \<and>
    (\<forall>m\<in>set ms. \<forall>t\<in>set (waitq s (WqMutex m)). held_scan ms q s \<le> prio (threads s t)) \<and>
    (held_scan ms q s = q \<or> (\<exists>m t. m \<in> set ms \<and> t \<in> set (waitq s (WqMutex m)) \<and> held_scan ms q s = prio (threads s t)))"
  proof (induction ms arbitrary: q)
    case (Cons m ms)
    show ?case
    proof (cases "waitq s (WqMutex m)")
      case Nil
      then have "held_scan (m # ms) q s = held_scan ms q s" by (simp add: z_waitq_head_def z_priq_simple_best_def)
      with Cons [of q] Nil show ?thesis by auto
    next
      case w: (Cons t ts)
      let ?q = "min (prio (threads s t)) q"
      have c: "z_get_new_prio_with_ceiling (prio (threads s t)) = prio (threads s t)"
        using p by (intro ceiling_id) (simp add: prio_ok_def)
      have e: "held_scan (m # ms) q s = held_scan ms ?q s"
        by (simp add: waitq_head_pended(1) [OF s w] Let_def c z_is_prio_higher_def min_def)
      have so: "prio (threads s t) \<le> prio (threads s u)" if "u \<in> set (waitq s (WqMutex m))" for u
        using sinvD(9) [OF s, of "WqMutex m"] that w by (auto simp: prio_sorted_def)
      have "held_scan ms ?q s = q \<or> held_scan ms ?q s = prio (threads s t) \<or>
          (\<exists>m t. m \<in> set ms \<and> t \<in> set (waitq s (WqMutex m)) \<and> held_scan ms ?q s = prio (threads s t))"
        using Cons [of ?q] by (auto simp: min_def split: if_splits)
      moreover have "held_scan ms ?q s \<le> prio (threads s u)" if "u \<in> set (waitq s (WqMutex m))" for u
        using Cons [of ?q] so [OF that] by (meson min.boundedE order_trans)
      moreover have "t \<in> set (waitq s (WqMutex m))" using w by simp
      ultimately show ?thesis unfolding e using Cons [of ?q] by auto
    qed
  qed simp
  show "held_scan ms q s \<le> q" using 1 by blast
  show "held_scan ms q s \<le> prio (threads s t)" if "m \<in> set ms" "t \<in> set (waitq s (WqMutex m))" using 1 that by blast
  show "held_scan ms q s = q \<or>
      (\<exists>m t. m \<in> set ms \<and> t \<in> set (waitq s (WqMutex m)) \<and> held_scan ms q s = prio (threads s t))" using 1 by blast
qed

lemma held_scan_s8: "sinv {} s \<Longrightarrow> prio_ok s \<Longrightarrow> s8 q = q \<Longrightarrow> s8 (held_scan ms q s) = held_scan ms q s"
  using held_scan_rule(3) [of s ms q] by (auto simp: prio_ok_def)

definition take_over :: "nat \<Rightarrow> k_thread \<Rightarrow> k_thread" where
  "take_over m th = th\<lparr>orig_prio := (if held_mutexes th = [] then prio th else orig_prio th),
     held_mutexes := held_mutexes th @ [m], mutex_pended_on := None, swap_retval := 0\<rparr>"

lemma take_over_keeps [simp]: "keeps_state (take_over m)"
  by (simp add: keeps_state_def take_over_def)

lemma mutex_handoff_eq:
  assumes "sinv {} s"
  shows "mutex_handoff m s = (case waitq s (WqMutex m) of
      [] \<Rightarrow> (False, upd_mutex m (\<lambda>x. x\<lparr>owner := None, lock_count := 0\<rparr>) s)
    | t # ts \<Rightarrow> (True, upd_mutex m (\<lambda>x. x\<lparr>owner := Some t\<rparr>) (wake_turn (take_over m) t s)))"
proof (cases "waitq s (WqMutex m)")
  case Nil
  then show ?thesis
    by (simp add: mutex_handoff_def z_unpend_first_thread_locked_def z_waitq_head_def z_priq_simple_best_def
        upd_mutex_def o_def upd_objs_def)
next
  case (Cons t ts)
  let ?a = "snd (z_try_abort_thread_timeout t (unpend_thread_no_timeout t s))"
  have c: "upd_thread t f (upd_mutex m h z) = upd_mutex m h (upd_thread t f z)" for f h z
    by (simp add: upd_thread_def upd_mutex_def upd_objs_def)
  have g: "upd_thread t (\<lambda>th. th\<lparr>held_mutexes := held_mutexes th @ [m], mutex_pended_on := None, swap_retval := 0\<rparr>)
      (if held_mutexes (threads z t) = [] then upd_thread t (\<lambda>th. th\<lparr>orig_prio := prio th\<rparr>) z else z) =
      upd_thread t (take_over m) z" for z :: kernel
    by (simp add: upd_thread_def take_over_def)
  show ?thesis using g [of "upd_mutex m (\<lambda>x. x\<lparr>owner := Some t\<rparr>) ?a"]
    by (simp add: mutex_handoff_def z_unpend_first_thread_locked_def waitq_head_pended(1) [OF assms Cons] Cons Let_def
        wake_turn_def c) (simp add: upd_mutex_def ready_upd_objs)
qed

text \<open>The releasing thread goes back to the priority its remaining mutexes justify.\<close>

lemma restore_prio_rule:
  assumes s: "sched_ok s" and m: "mutex_inv s" and p: "prio_ok s" "pend_ok s" and c: "\<not> in_isr s"
    and o: "owner (mutex_of m s) = Some (current s)"
  defines "s' \<equiv> mutex_restore_prio m s" and "th \<equiv> threads s (current s)"
  shows "sched_ok s'" "prio_ok s'" "pend_ok s'" "waitq s' = waitq s" "objs s' = objs s" "current s' = current s"
    "in_isr s' = in_isr s" "idle_thread s' = idle_thread s" "irq_unlocked s' = irq_unlocked s"
    "v \<noteq> current s \<Longrightarrow> threads s' v = threads s v"
    "held_mutexes (threads s' (current s)) = remove1 m (held_mutexes th)"
    "orig_prio (threads s' v) = orig_prio (threads s v)"
    "prio (threads s' (current s)) = (if prio th \<noteq> orig_prio th
       then held_scan (remove1 m (held_mutexes th)) (orig_prio th) s else prio th)"
    "timeout_fits n s' = timeout_fits n s"
proof -
  let ?c = "current s"
  note i = sched_okD [OF s]
  have rc: "RDY s ?c" by (rule i(3) [OF c])
  have pc: "pended_on (threads s ?c) = None" by (rule ready_not_pended [OF i(1) rc])
  define s1 where "s1 = upd_thread ?c (\<lambda>th. th\<lparr>held_mutexes := remove1 m (held_mutexes th)\<rparr>) s"
  define np where "np = held_scan (remove1 m (held_mutexes th)) (orig_prio th) s"
  have sc: "held_scan ms q s1 = held_scan ms q s" for ms q
    by (induction ms arbitrary: q) (auto simp: s1_def z_waitq_head_def split: option.split)
  have np8: "s8 np = np" using held_scan_s8 [OF i(1) p(1)] p(1) by (simp add: np_def th_def prio_ok_def)
  have s': "s' = (if prio th \<noteq> orig_prio th then snd (adjust_owner_prio m np s1) else s1)"
    unfolding s'_def mutex_restore_prio_def Let_def held_mutexes_highest_waiter_prio_def s1_def [symmetric] sc
    by (simp add: np_def s1_def th_def)
  have i1: "sinv {} s1" "cache_ok s1" "pend_ok s1" "owner (mutex_of m s1) = Some ?c" "?c \<noteq> idle_thread s1"
    using i p(2) o mutex_invD(7) [OF m, of m] by (auto simp: s1_def pend_ok_def)
  note a = adjust_owner_prio_rule [OF i1 np8]
  have i2: "sinv {} s'" "cache_ok s'" "prio_only s1 s'" using a(1-3) i1 by (simp_all add: s')
  show th: "threads s' v = threads s v" if "v \<noteq> ?c" for v using a(6) that by (simp add: s' s1_def)
  show pr: "prio (threads s' ?c) = (if prio th \<noteq> orig_prio th
       then held_scan (remove1 m (held_mutexes th)) (orig_prio th) s else prio th)"
    using a(4) by (simp add: s' s1_def np_def th_def)
  show "waitq s' = waitq s" using a(8) pc by (simp add: s' s1_def)
  show fr: "objs s' = objs s" "current s' = ?c" "in_isr s' = in_isr s" "idle_thread s' = idle_thread s"
    "irq_unlocked s' = irq_unlocked s" using i2(3) by (simp_all add: prio_only_def s1_def)
  show "timeout_fits n s' = timeout_fits n s" using i2(3) by (simp add: prio_only_def s1_def)
  note t2 = prio_only_thread [OF i2(3)]
  show "held_mutexes (threads s' ?c) = remove1 m (held_mutexes th)" using t2(1) [of ?c] by (simp add: s1_def th_def)
  show oe: "orig_prio (threads s' v) = orig_prio (threads s v)" for v using t2(4) [of v] by (simp add: s1_def)
  show "sched_ok s'" using i2(1,2) t2(8) [of ?c] rc by (simp add: sched_ok_def fr s1_def)
  have "s8 (prio (threads s' v)) = prio (threads s' v)" for v
    using np8 th pr p(1) by (cases "v = ?c") (auto simp: prio_ok_def th_def np_def)
  then show "prio_ok s'" "pend_ok s'" using p(1) oe prio_only_inv(2) [OF i2(3) i1(3)] by (simp_all add: prio_ok_def)
qed

lemma reschedule_irq_locked: "\<not> irq_unlocked s \<Longrightarrow> reschedule s = s"
  by (simp add: reschedule_def resched_def)

lemma mutex_unlock_rule:
  fixes n :: int
  assumes s: "sched_ok s" and m: "mutex_inv s" and p: "prio_ok s" "pend_ok s" and c: "\<not> in_isr s"
    and o: "mutex_of m s = \<lparr>owner = Some (current s), lock_count = 1\<rparr>"
  defines "s' \<equiv> snd (k_mutex_unlock m s)" and "th \<equiv> threads s (current s)"
  shows "fst (k_mutex_unlock m s) = 0" "sched_ok s'" "mutex_inv s'" "prio_ok s'" "pend_ok s'"
    "mutex_of m s' = (case waitq s (WqMutex m) of [] \<Rightarrow> \<lparr>owner = None, lock_count = 0\<rparr>
       | t # ts \<Rightarrow> \<lparr>owner = Some t, lock_count = 1\<rparr>)"
    "waitq s' = (waitq s)(WqMutex m := tl (waitq s (WqMutex m)))"
    "waitq s (WqMutex m) = t # ts \<Longrightarrow> threads s' t = waked (take_over m) (threads s t)"
    "prio (threads s' (current s)) = (if prio th \<noteq> orig_prio th
       then held_scan (remove1 m (held_mutexes th)) (orig_prio th) s else prio th)"
    "k \<noteq> m \<Longrightarrow> mutex_of k s' = mutex_of k s" "waitq s (WqMutex m) \<noteq> [] \<Longrightarrow> resched_ok s'"
    "idle_thread s' = idle_thread s" "in_isr s' = in_isr s" "\<not> irq_unlocked s \<Longrightarrow> current s' = current s"
    "timeout_fits n s' = timeout_fits n s"
proof -
  let ?c = "current s" and ?q = "waitq s (WqMutex m)"
  note i = sched_okD [OF s]
  have o1: "owner (mutex_of m s) = Some ?c" by (simp add: o)
  define s2 where "s2 = mutex_restore_prio m s"
  note R = restore_prio_rule [OF s m p c o1, folded s2_def]
  have u: "k_mutex_unlock m s = (let (handed, s3) = mutex_handoff m s2 in (0, if handed then reschedule s3 else s3))"
    by (simp add: k_mutex_unlock_def o s2_def Let_def)
  show "fst (k_mutex_unlock m s) = 0" by (simp add: u case_prod_unfold Let_def)
  have he: "held_mutexes (threads s2 v) = (if v = ?c then remove1 m (held_mutexes (threads s v)) else held_mutexes (threads s v))" for v
    using R(10,11) by simp
  have fr: "in_isr s' = in_isr s \<and> (\<not> irq_unlocked s \<longrightarrow> current s' = ?c) \<and> timeout_fits n s' = timeout_fits n s"
    using R(6,7,9,14) unfolding s'_def u mutex_handoff_eq [OF sched_okD(1) [OF R(1)]]
    by (auto simp: reschedule_irq_locked upd_mutex_def wake_turn_fits split: list.split)
  then show "in_isr s' = in_isr s" "\<not> irq_unlocked s \<Longrightarrow> current s' = ?c" "timeout_fits n s' = timeout_fits n s" by blast+
  note H = mutex_handoff_eq [OF sched_okD(1) [OF R(1)], of m, unfolded R(4)]
  have mo: "m \<in> set (held_mutexes (threads s v)) \<longleftrightarrow> v = ?c" for v using mutex_invD(6) [OF m, of m v] o by auto
  have "sched_ok s' \<and> mutex_inv s' \<and> prio_ok s' \<and> pend_ok s' \<and>
    mutex_of m s' = (case ?q of [] \<Rightarrow> \<lparr>owner = None, lock_count = 0\<rparr> | t # ts \<Rightarrow> \<lparr>owner = Some t, lock_count = 1\<rparr>) \<and>
    waitq s' = (waitq s)(WqMutex m := tl ?q) \<and>
    (\<forall>t ts. ?q = t # ts \<longrightarrow> threads s' t = waked (take_over m) (threads s t)) \<and>
    prio (threads s' ?c) = prio (threads s2 ?c) \<and> (\<forall>k. k \<noteq> m \<longrightarrow> mutex_of k s' = mutex_of k s) \<and>
    (?q \<noteq> [] \<longrightarrow> resched_ok s') \<and> idle_thread s' = idle_thread s"
  proof (cases ?q)
    case Nil
    then have s': "s' = upd_mutex m (\<lambda>x. x\<lparr>owner := None, lock_count := 0\<rparr>) s2" by (simp add: s'_def u H)
    have "mutex_inv s'" using m o Nil mo unfolding s' mutex_inv_def by (auto simp: he R(5-9) R(4))
    with Nil R(1-3) show ?thesis by (simp add: s' R(5-9) o R(4) prio_ok_def pend_ok_def fun_upd_idem)
  next
    case w: (Cons t ts)
    then have w2: "waitq s2 (WqMutex m) = t # ts" by (simp add: R(4))
    define z where "z = reschedule (wake_turn (take_over m) t s2)"
    note r = wake_resched_rule [OF R(1) w2 take_over_keeps [of m], folded z_def]
    have s': "s' = upd_mutex m (\<lambda>x. x\<lparr>owner := Some t\<rparr>) z"
      by (simp add: s'_def u H w upd_mutex_def reschedule_upd_objs z_def)
    have tc: "t \<noteq> ?c" using r(8) c by (simp add: R(5-9))
    have ti: "t \<noteq> idle_thread s"
      using ready_not_pended [OF i(1) sinv_simps(8) [OF i(1)]] waitq_head_pended(2) [OF i(1) w] by auto
    have tt: "threads z t = waked (take_over m) (threads s t)" using r(9) R(10) [OF tc] by simp
    have hz: "held_mutexes (threads z v) = (if v = t then held_mutexes (threads s t) @ [m]
        else held_mutexes (threads s2 v))" for v
      using r(11) [of v] by (auto simp: tt waked_def take_over_def retval_diff_sel(9))
    have pz: "prio (threads z v) = prio (threads s2 v)"
      "orig_prio (threads z v) = (if v = t \<and> held_mutexes (threads s t) = [] then prio (threads s t) else orig_prio (threads s2 v))" for v
      using r(11) [of v] R(10) [OF tc] by (cases "v = t"; auto simp: tt waked_def take_over_def retval_diff_sel(1,11))+
    have "prio_ok z" using R(2) p(1) by (simp add: prio_ok_def pz)
    moreover have "pend_ok z" unfolding pend_ok_def
    proof
      fix v
      show "z_is_thread_pending (threads z v) \<longrightarrow> pended_on (threads z v) \<noteq> None"
        using r(11) [of v] R(3) by (cases "v = t")
          (auto simp: pend_ok_def retval_diff_sel(5,13) tt waked_def keeps_stateD(6) [OF take_over_keeps])
    qed
    moreover have "mutex_inv s'" using m o mo tc ti mutex_invD(4) [OF m] unfolding s' mutex_inv_def
      by (auto simp: hz he R(5-9) r(3,4,12) R(4))
    ultimately show ?thesis using r(1-4,12) w tt
      by (simp add: s' R(5-9) o R(4) prio_ok_def pend_ok_def pz(1))
  qed
  then show "sched_ok s'" "mutex_inv s'" "prio_ok s'" "pend_ok s'"
    "mutex_of m s' = (case ?q of [] \<Rightarrow> \<lparr>owner = None, lock_count = 0\<rparr> | t # ts \<Rightarrow> \<lparr>owner = Some t, lock_count = 1\<rparr>)"
    "waitq s' = (waitq s)(WqMutex m := tl ?q)" "?q = t # ts \<Longrightarrow> threads s' t = waked (take_over m) (threads s t)"
    "k \<noteq> m \<Longrightarrow> mutex_of k s' = mutex_of k s" "?q \<noteq> [] \<Longrightarrow> resched_ok s'" "idle_thread s' = idle_thread s"
    "prio (threads s' ?c) = (if prio th \<noteq> orig_prio th
       then held_scan (remove1 m (held_mutexes th)) (orig_prio th) s else prio th)"
    by (blast, blast, blast, blast, blast, blast, blast, blast, blast, blast, simp add: R(13) th_def)
qed

lemma reschedule_inv [simp]:
  "mutex_inv (reschedule s) = mutex_inv s" "prio_ok (reschedule z) = prio_ok z" "pend_ok (reschedule z) = pend_ok z"
  unfolding mutex_inv_def prio_ok_def pend_ok_def retval_diff_sel [OF reschedule_retval] reschedule_sel(1,3,6)
  by (rule refl)+

lemma mutex_unlock_nested:
  assumes s: "sched_ok s" and m: "mutex_inv s" and p: "prio_ok s" "pend_ok s"
    and o: "owner (mutex_of m s) = Some (current s)" "1 < lock_count (mutex_of m s)"
  defines "s' \<equiv> snd (k_mutex_unlock m s)"
  shows "k_mutex_unlock m s = (0, s')" "sched_ok s'" "resched_ok s' = resched_ok s" "mutex_inv s'" "prio_ok s'" "pend_ok s'"
    "mutex_of m s' = \<lparr>owner = Some (current s), lock_count = lock_count (mutex_of m s) - 1\<rparr>" "waitq s' = waitq s"
proof -
  have u: "u32 (lock_count (mutex_of m s) - 1) = lock_count (mutex_of m s) - 1"
    using o(2) mutex_invD(2) [OF m, of m] by (intro u32_id) simp_all
  have e: "k_mutex_unlock m s = (0, upd_mutex m (\<lambda>x. x\<lparr>lock_count := u32 (lock_count x - 1)\<rparr>) s)"
    using o by (simp add: k_mutex_unlock_def Let_def)
  show "k_mutex_unlock m s = (0, s')" by (simp add: s'_def e)
  show "sched_ok s'" "resched_ok s' = resched_ok s" "prio_ok s'" "pend_ok s'" "waitq s' = waitq s"
    "mutex_of m s' = \<lparr>owner = Some (current s), lock_count = lock_count (mutex_of m s) - 1\<rparr>"
    using s p u o(1) by (simp_all add: s'_def e prio_ok_def pend_ok_def)
  have b: "lock_count (mutex_of m s) < 4294967297" using mutex_invD(2) [OF m, of m] by simp
  show "mutex_inv s'" using m o u by (auto simp: s'_def e mutex_inv_def b)
qed

lemma mutex_lock_resume_rule:
  fixes m :: nat and rs :: bool
  assumes s: "sched_ok s" and m: "mutex_inv s" and p: "prio_ok s" "pend_ok s" and c: "\<not> in_isr s"
  defines "s' \<equiv> snd (k_mutex_lock_resume m rs s)" and "got \<equiv> swap_retval (threads s (current s))"
  shows "fst (k_mutex_lock_resume m rs s) = (if got = 0 then 0 else - EAGAIN)" "sched_ok s'" "mutex_inv s'" "prio_ok s'"
    "pend_ok s'" "objs s' = objs s" "mutex_pended_on (threads s' (current s)) = None"
    "set (waitq s' w) = set (waitq s w)" "idle_thread s' = idle_thread s"
    "got \<noteq> 0 \<Longrightarrow> owner (mutex_of m s) = Some t \<Longrightarrow>
       prio (threads s' t) = held_scan (held_mutexes (threads s t)) (orig_prio (threads s t)) s"
    "got = 0 \<Longrightarrow> threads s' = (threads s)(current s := (threads s (current s))\<lparr>mutex_pended_on := None\<rparr>)"
proof -
  let ?c = "current s"
  note i = sched_okD [OF s]
  define s1 where "s1 = upd_thread ?c (\<lambda>th. th\<lparr>mutex_pended_on := None\<rparr>) s"
  have i1: "sinv {} s1" "cache_ok s1" "pend_ok s1" "prio_ok s1" "sched_ok s1"
    using i s p by (simp_all add: s1_def pend_ok_def prio_ok_def)
  have m1: "mutex_inv s1" by (rule mutex_inv_cong [OF m]) (simp_all add: s1_def)
  have sc: "held_scan ms q s1 = held_scan ms q s" for ms q
    by (induction ms arbitrary: q) (auto simp: s1_def z_waitq_head_def split: option.split)
  define np where "np = (\<lambda>t. held_scan (held_mutexes (threads s t)) (orig_prio (threads s t)) s)"
  have np8: "s8 (np t) = np t" for t using held_scan_s8 [OF i(1) p(1)] p(1) by (simp add: np_def prio_ok_def)
  define s2 where "s2 = (case owner (mutex_of m s1) of None \<Rightarrow> s1 | Some t \<Rightarrow> snd (adjust_owner_prio m (np t) s1))"
  have h1: "held_mutexes (threads s1 t) = held_mutexes (threads s t)" "orig_prio (threads s1 t) = orig_prio (threads s t)" for t
    by (simp_all add: s1_def)
  have e: "k_mutex_lock_resume m rs s = (if got = 0 then (0, s1)
      else (- EAGAIN, snd (k_mutex_lock_resume m rs s)))" "got \<noteq> 0 \<Longrightarrow> s' = s2 \<or> s' = reschedule s2" "got = 0 \<Longrightarrow> s' = s1"
    by (auto simp: s'_def k_mutex_lock_resume_def do_swap_resume_def got_def s1_def [symmetric] s2_def np_def
        held_mutexes_highest_waiter_prio_def h1 sc Let_def case_prod_unfold split: option.split)
  show "fst (k_mutex_lock_resume m rs s) = (if got = 0 then 0 else - EAGAIN)" by (subst e) simp
  have s2: "sinv {} s2 \<and> cache_ok s2 \<and> prio_only s1 s2 \<and> (\<forall>u. prio (threads s2 u) =
      (if owner (mutex_of m s1) = Some u then np u else prio (threads s1 u)))"
  proof (cases "owner (mutex_of m s1)")
    case (Some t)
    have "t \<noteq> idle_thread s1" using mutex_invD(7) [OF m1, of m] Some by auto
    from adjust_owner_prio_rule [OF i1(1-3) Some this np8] Some show ?thesis by (auto simp: s2_def)
  qed (use i1 in \<open>simp add: s2_def\<close>)
  then have "prio_only s1 s2" by blast
  note t2 = prio_only_thread [OF this] and n2 = prio_only_inv [OF this]
  have fr: "objs s2 = objs s" "current s2 = ?c" "idle_thread s2 = idle_thread s" "\<And>w. set (waitq s2 w) = set (waitq s w)"
    using s2 by (simp_all add: prio_only_def s1_def)
  have ok2: "sched_ok s2" "mutex_inv s2" "prio_ok s2" "pend_ok s2"
    using s2 i1 t2(4,8) np8 n2 m1 i(3) [OF c] c by (auto simp: sched_ok_def prio_ok_def fr s1_def)
  have ok3: "sched_ok (reschedule s2)" using reschedule_ok(1) [OF sched_okD [OF ok2(1)]] .
  have "sched_ok s' \<and> mutex_inv s' \<and> prio_ok s' \<and> pend_ok s'"
    using e(2,3) i1 m1 ok2 ok3 by (cases "got = 0") auto
  then show "sched_ok s'" "mutex_inv s'" "prio_ok s'" "pend_ok s'" by blast+
  have "objs s' = objs s \<and> set (waitq s' w) = set (waitq s w) \<and> idle_thread s' = idle_thread s \<and>
    mutex_pended_on (threads s' ?c) = None"
    using e(2,3) fr t2(2) [of ?c] by (cases "got = 0") (auto simp: s1_def)
  then show "objs s' = objs s" "set (waitq s' w) = set (waitq s w)" "idle_thread s' = idle_thread s"
    "mutex_pended_on (threads s' ?c) = None" by blast+
  show "threads s' = (threads s)(?c := (threads s ?c)\<lparr>mutex_pended_on := None\<rparr>)" if "got = 0"
    using e(3) that by (simp add: s1_def)
  show "prio (threads s' t) = held_scan (held_mutexes (threads s t)) (orig_prio (threads s t)) s"
    if "got \<noteq> 0" "owner (mutex_of m s) = Some t"
    using e(2) [OF that(1)] s2 that(2) by (auto simp: np_def s1_def)
qed

section \<open>Condition variables: properties\<close>

lemma sched_ok_irq [simp]:
  "sched_ok (s\<lparr>irq_unlocked := b\<rparr>) = sched_ok s" "sinv X (s\<lparr>irq_unlocked := b\<rparr>) = sinv X s"
  "cache_ok (s\<lparr>irq_unlocked := b\<rparr>) = cache_ok s" "timeout_fits n (s\<lparr>irq_unlocked := b\<rparr>) = timeout_fits n s"
  "armed (s\<lparr>irq_unlocked := b\<rparr>) = armed s"
proof -
  show si: "sinv X (s\<lparr>irq_unlocked := b\<rparr>) = sinv X s" for X by (rule sinv_cong) simp_all
  show ca: "cache_ok (s\<lparr>irq_unlocked := b\<rparr>) = cache_ok s" by (simp add: cache_ok_def next_up_eq split: list.split)
  show "sched_ok (s\<lparr>irq_unlocked := b\<rparr>) = sched_ok s" by (simp add: sched_ok_def si ca)
  show "timeout_fits n (s\<lparr>irq_unlocked := b\<rparr>) = timeout_fits n s" by (rule timeout_fits_same) simp_all
  show "armed (s\<lparr>irq_unlocked := b\<rparr>) = armed s" by (simp add: armed_def fun_eq_iff)
qed

lemma mutex_inv_irq [simp]:
  "mutex_inv (s\<lparr>irq_unlocked := b\<rparr>) = mutex_inv s" "prio_ok (z\<lparr>irq_unlocked := b\<rparr>) = prio_ok z"
  "pend_ok (z\<lparr>irq_unlocked := b\<rparr>) = pend_ok z"
  by (simp_all add: mutex_inv_def prio_ok_def pend_ok_def)

lemma condvar_signal_rule:
  fixes cv :: nat
  assumes s: "sched_ok s"
  defines "s' \<equiv> snd (k_condvar_signal cv s)"
  shows "fst (k_condvar_signal cv s) = 0" "sched_ok s'" "objs s' = objs s"
    "waitq s' = (waitq s)(WqCondvar cv := tl (waitq s (WqCondvar cv)))"
    "waitq s (WqCondvar cv) = t # ts \<Longrightarrow> threads s' t = waked (\<lambda>th. th\<lparr>swap_retval := 0, swap_data := 0\<rparr>) (threads s t)"
    "u \<noteq> hd (waitq s (WqCondvar cv)) \<or> waitq s (WqCondvar cv) = [] \<Longrightarrow> retval_diff (threads s u) (threads s' u)"
    "idle_thread s' = idle_thread s" "resched_ok s \<Longrightarrow> resched_ok s'"
proof -
  let ?q = "waitq s (WqCondvar cv)"
  have "fst (k_condvar_signal cv s) = 0 \<and> sched_ok s' \<and> objs s' = objs s \<and> waitq s' = (waitq s)(WqCondvar cv := tl ?q) \<and>
    (\<forall>t ts. ?q = t # ts \<longrightarrow> threads s' t = waked (\<lambda>th. th\<lparr>swap_retval := 0, swap_data := 0\<rparr>) (threads s t)) \<and>
    (\<forall>u. u \<noteq> hd ?q \<or> ?q = [] \<longrightarrow> retval_diff (threads s u) (threads s' u)) \<and> idle_thread s' = idle_thread s \<and>
    (resched_ok s \<longrightarrow> resched_ok s')"
  proof (cases ?q)
    case Nil
    then show ?thesis using s by (simp add: s'_def k_condvar_signal_def sched_wake_empty fun_upd_idem)
  next
    case w: (Cons t ts)
    note r = wake_resched_rule [OF s w keeps_retval(1) [where r = 0 and d = 0]]
    have "k_condvar_signal cv s = (0, reschedule (wake_turn (\<lambda>th. th\<lparr>swap_retval := 0, swap_data := 0\<rparr>) t s))"
      by (simp add: k_condvar_signal_def sched_wake_turn [OF sched_okD(1) [OF s] w])
    then show ?thesis using r(1-4,9,11,12) w by (simp add: s'_def del: reschedule_sel)
  qed
  then show "fst (k_condvar_signal cv s) = 0" "sched_ok s'" "objs s' = objs s" "waitq s' = (waitq s)(WqCondvar cv := tl ?q)"
    "?q = t # ts \<Longrightarrow> threads s' t = waked (\<lambda>th. th\<lparr>swap_retval := 0, swap_data := 0\<rparr>) (threads s t)"
    "u \<noteq> hd ?q \<or> ?q = [] \<Longrightarrow> retval_diff (threads s u) (threads s' u)" "idle_thread s' = idle_thread s"
    "resched_ok s \<Longrightarrow> resched_ok s'" by blast+
qed

lemma condvar_wake_loop_eq:
  assumes "sinv {} s" and "waitq s (WqCondvar cv) = ts" and "length ts < n" and "0 \<le> k" "k + int (length ts) < 2 ^ 31"
  shows "condvar_wake_loop n cv k s = (k + int (length ts),
    fold (wake_turn (\<lambda>th. th\<lparr>swap_retval := 0, swap_data := 0\<rparr>)) ts s)"
  using assms
proof (induction ts arbitrary: s n k)
  case Nil
  then show ?case by (cases n) (simp_all add: sched_wake_empty)
next
  case (Cons t ts)
  then obtain j where n: "n = Suc j" by (cases n) auto
  have p: "pended_on (threads s t) = Some (WqCondvar cv)" by (rule waitq_head_pended(2) [OF Cons.prems(1,2)])
  have e: "t \<notin> {}" by simp
  note r = wake_turn_rule [OF Cons.prems(1) p e keeps_retval(1) [where r = 0 and d = 0]]
  have k: "s32 (k + 1) = k + 1" using Cons.prems(4,5) by (intro s32_id) simp_all
  show ?case using Cons.IH [OF r(1), of j "k + 1"] r(3) Cons.prems
    by (simp add: n sched_wake_turn [OF Cons.prems(1,2)] k)
qed

lemma condvar_broadcast_rule:
  assumes s: "sched_ok s" and l: "length (waitq s (WqCondvar cv)) < 2 ^ 31"
  defines "s' \<equiv> snd (k_condvar_broadcast cv s)"
  shows "fst (k_condvar_broadcast cv s) = int (length (waitq s (WqCondvar cv)))" "sched_ok s'" "objs s' = objs s"
    "waitq s' = (waitq s)(WqCondvar cv := [])"
    "u \<in> set (waitq s (WqCondvar cv)) \<Longrightarrow> threads s' u = waked (\<lambda>th. th\<lparr>swap_retval := 0, swap_data := 0\<rparr>) (threads s u)"
    "u \<notin> set (waitq s (WqCondvar cv)) \<Longrightarrow> retval_diff (threads s u) (threads s' u)" "idle_thread s' = idle_thread s"
    "resched_ok s \<Longrightarrow> resched_ok s'"
proof -
  let ?q = "waitq s (WqCondvar cv)"
  note i = sched_okD(1) [OF s]
  obtain b s1 where w: "z_sched_wake_all (WqCondvar cv) 0 0 s = (b, s1)" by fastforce
  have b: "b = (?q \<noteq> [])" "s1 = fold (wake_turn (\<lambda>th. th\<lparr>swap_retval := 0, swap_data := 0\<rparr>)) ?q s"
    using sched_wake_all_eq [OF i, of "WqCondvar cv" 0 0] w by simp_all
  have loop: "condvar_wake_loop (Suc (length ?q)) cv 0 s = (int (length ?q), s1)"
    unfolding b(2) by (subst condvar_wake_loop_eq [OF i refl]) (use l in simp_all)
  have id: "upd_objs (\<lambda>x. x) z = z" for z by (simp add: upd_objs_def)
  have e: "k_condvar_broadcast cv s = (int (length ?q), if b then reschedule (upd_objs (\<lambda>x. x) s1) else upd_objs (\<lambda>x. x) s1)"
    unfolding k_condvar_broadcast_def loop by (simp add: b(1) id)
  have s': "s' = (if b then reschedule (upd_objs (\<lambda>x. x) s1) else upd_objs (\<lambda>x. x) s1)" unfolding s'_def e by simp
  note r = wake_all_resched_rule(2-13) [where f = "\<lambda>x. x", OF s w, folded s']
  show "fst (k_condvar_broadcast cv s) = int (length ?q)" by (simp add: e)
  show "sched_ok s'" by (rule r(1))
  show "resched_ok s \<Longrightarrow> resched_ok s'" by (rule r(2))
  show "waitq s' = (waitq s)(WqCondvar cv := [])" by (rule r(4))
  show "objs s' = objs s" by (rule r(5))
  show "u \<in> set ?q \<Longrightarrow> threads s' u = waked (\<lambda>th. th\<lparr>swap_retval := 0, swap_data := 0\<rparr>) (threads s u)" by (rule r(9))
  show "u \<notin> set ?q \<Longrightarrow> retval_diff (threads s u) (threads s' u)" by (rule r(11))
  show "idle_thread s' = idle_thread s" by (rule r(12))
qed

lemma condvar_wait_rule:
  fixes n :: int and cv :: nat
  assumes s: "sched_ok s" and m: "mutex_inv s" and p: "prio_ok s" "pend_ok s" and c: "\<not> in_isr s"
    and o: "mutex_of m s = \<lparr>owner = Some (current s), lock_count = 1\<rparr>" and n: "n \<noteq> K_NO_WAIT" "timeout_fits n s"
  defines "s' \<equiv> snd (k_condvar_wait cv m n s)"
  shows "k_condvar_wait cv m n s = (Swapped, s')" "sched_ok s'" "resched_ok s'" "mutex_inv s'" "prio_ok s'" "pend_ok s'"
    "mutex_of m s' = (case waitq s (WqMutex m) of [] \<Rightarrow> \<lparr>owner = None, lock_count = 0\<rparr>
       | t # ts \<Rightarrow> \<lparr>owner = Some t, lock_count = 1\<rparr>)"
    "set (waitq s' (WqCondvar cv)) = insert (current s) (set (waitq s (WqCondvar cv)))"
    "waitq s' (WqMutex m) = tl (waitq s (WqMutex m))"
    "w \<noteq> WqCondvar cv \<Longrightarrow> w \<noteq> WqMutex m \<Longrightarrow> waitq s' w = waitq s w"
    "k \<noteq> m \<Longrightarrow> mutex_of k s' = mutex_of k s"
proof -
  let ?c = "current s" and ?l = "s\<lparr>irq_unlocked := False\<rparr>"
  define u where "u = snd (k_mutex_unlock m ?l)"
  define v where "v = u\<lparr>irq_unlocked := irq_unlocked s\<rparr>"
  have l: "sched_ok ?l" "mutex_inv ?l" "prio_ok ?l" "pend_ok ?l" "\<not> in_isr ?l"
    "mutex_of m ?l = \<lparr>owner = Some (current ?l), lock_count = 1\<rparr>" using s m p c o by simp_all
  note U = mutex_unlock_rule [OF l, folded u_def]
  have ci: "?c \<noteq> idle_thread s" using mutex_invD(7) [OF m, of m] o by auto
  have cur: "current u = ?c" "in_isr u = in_isr s" "timeout_fits n u = timeout_fits n s"
    using U(13,14) U(15) [of n] by simp_all
  have e: "k_condvar_wait cv m n s = z_pend_curr (Some (WqCondvar cv)) n v"
    using n(1) by (simp add: k_condvar_wait_def u_def v_def Let_def)
  have v: "sched_ok v" "\<not> in_isr v" "current v \<noteq> idle_thread v" "timeout_fits n v"
    using U(2,12) cur c ci n(2) by (simp_all add: v_def)
  note P = pend_curr_rule [OF v, of "Some (WqCondvar cv)", folded e, folded s'_def]
  show "k_condvar_wait cv m n s = (Swapped, s')" "sched_ok s'" "resched_ok s'" using P(1-3) by simp_all
  have ob: "objs s' = objs u" using P(6) by (simp add: v_def)
  show "mutex_of m s' = (case waitq s (WqMutex m) of [] \<Rightarrow> \<lparr>owner = None, lock_count = 0\<rparr>
       | t # ts \<Rightarrow> \<lparr>owner = Some t, lock_count = 1\<rparr>)" "k \<noteq> m \<Longrightarrow> mutex_of k s' = mutex_of k s"
    using U(6,10) by (simp_all add: ob)
  have wq: "waitq s' = (waitq u)(WqCondvar cv := prio_insert (threads v) (current v) (waitq u (WqCondvar cv)))"
    using P(5) by (simp add: v_def)
  show "set (waitq s' (WqCondvar cv)) = insert ?c (set (waitq s (WqCondvar cv)))"
    "waitq s' (WqMutex m) = tl (waitq s (WqMutex m))"
    "w \<noteq> WqCondvar cv \<Longrightarrow> w \<noteq> WqMutex m \<Longrightarrow> waitq s' w = waitq s w"
    using U(7) cur by (simp_all add: wq v_def)
  have ts: "threads s' = (threads u)(?c := (blocked_on (Some (WqCondvar cv)) (threads u ?c))\<lparr>swap_retval := - EAGAIN\<rparr>)"
    using P(4) cur by (simp add: v_def)
  show "mutex_inv s'"
    by (rule mutex_inv_cong [OF U(3)]) (use P(9) in \<open>simp_all add: ob ts wq v_def\<close>)
  show "prio_ok s'" "pend_ok s'" using U(4,5) by (simp_all add: prio_ok_def pend_ok_def ts)
qed

end
