(* ===== verification/Msgq.thy ===== *)
theory Msgq
  imports Kernel_Objects
begin

text \<open>
  Message queues, \<^verbatim>\<open>kernel/msg_q.c\<close>: a ring of fixed-size messages in the byte memory, with direct
  hand-over between senders and receivers that wait.  Addresses are those of a 32-bit machine;
  \<^verbatim>\<open>z_thread_malloc\<close> is an argument of the operation that uses it.  The lock argument of
  \<^verbatim>\<open>z_msgq_cleanup\<close> only selects how the scheduler lock is taken and is left out.
\<close>

section \<open>Operations\<close>

abbreviation msgq_of :: "nat \<Rightarrow> kernel \<Rightarrow> k_msgq" where
  "msgq_of m s \<equiv> msgqs (objs s) m"

definition upd_msgq :: "nat \<Rightarrow> (k_msgq \<Rightarrow> k_msgq) \<Rightarrow> kernel \<Rightarrow> kernel" where
  "upd_msgq m f = upd_objs (\<lambda>b. b\<lparr>msgqs := (msgqs b)(m := f (msgqs b m))\<rparr>)"

definition upd_mem :: "((nat \<Rightarrow> 8 word) \<Rightarrow> nat \<Rightarrow> 8 word) \<Rightarrow> kernel \<Rightarrow> kernel" where
  "upd_mem f = upd_objs (\<lambda>b. b\<lparr>mem := f (mem b)\<rparr>)"

definition k_msgq_init :: "nat \<Rightarrow> nat \<Rightarrow> nat \<Rightarrow> nat \<Rightarrow> kernel \<Rightarrow> kernel" where
  "k_msgq_init m buffer sz maxn s =
     z_waitq_init (WqMsgq m) (upd_msgq m (\<lambda>q. q\<lparr>msg_size := sz, max_msgs := maxn, buffer_start := buffer,
       buffer_end := buffer + maxn * sz, read_ptr := buffer, write_ptr := buffer, used_msgs := 0,
       msgq_alloc := False\<rparr>) s)"

definition k_msgq_alloc_init ::
    "(nat \<Rightarrow> kernel \<Rightarrow> nat option \<times> kernel) \<Rightarrow> nat \<Rightarrow> nat \<Rightarrow> nat \<Rightarrow> kernel \<Rightarrow> int \<times> kernel" where
  "k_msgq_alloc_init thread_malloc m sz maxn s =
     (if sz * maxn \<ge> 2 ^ 32 then (- EINVAL, s)
      else case thread_malloc (sz * maxn) s of
             (None, s1) \<Rightarrow> (- ENOMEM, s1)
           | (Some buffer, s1) \<Rightarrow>
               (0, upd_msgq m (\<lambda>q. q\<lparr>msgq_alloc := True\<rparr>) (k_msgq_init m buffer sz maxn s1)))"

definition k_msgq_cleanup :: "(nat \<Rightarrow> kernel \<Rightarrow> kernel) \<Rightarrow> nat \<Rightarrow> kernel \<Rightarrow> int \<times> kernel" where
  "k_msgq_cleanup free m s =
     (if z_waitq_head (WqMsgq m) s \<noteq> None then (- EBUSY, s)
      else if msgq_alloc (msgq_of m s)
           then (0, upd_msgq m (\<lambda>q. q\<lparr>msgq_alloc := False\<rparr>) (free (buffer_start (msgq_of m s)) s))
           else (0, s))"

definition adv_ptr :: "k_msgq \<Rightarrow> nat \<Rightarrow> nat" where
  "adv_ptr q p = (if p + msg_size q = buffer_end q then buffer_start q else p + msg_size q)"

definition put_msg_in_queue :: "nat \<Rightarrow> nat \<Rightarrow> int \<Rightarrow> bool \<Rightarrow> kernel \<Rightarrow> int kres \<times> kernel" where
  "put_msg_in_queue m data timeout put_at_back s =
     (let q = msgq_of m s
      in if used_msgs q < max_msgs q
         then case z_unpend_first_thread_locked (WqMsgq m) s of
                (Some pending_thread, s1) \<Rightarrow>
                  let s2 = upd_mem (memcpy (swap_data (threads s1 pending_thread)) data (msg_size q)) s1;
                      s3 = upd_thread pending_thread (\<lambda>th. th\<lparr>swap_retval := 0\<rparr>) s2
                  in (Ret 0, reschedule (ready_thread pending_thread s3))
              | (None, s1) \<Rightarrow>
                  let s2 = (if put_at_back
                            then upd_msgq m (\<lambda>q. q\<lparr>write_ptr := adv_ptr q (write_ptr q)\<rparr>)
                                   (upd_mem (memcpy (write_ptr q) data (msg_size q)) s1)
                            else let rp = (if read_ptr q = buffer_start q then buffer_end q else read_ptr q) - msg_size q
                                 in upd_mem (memcpy rp data (msg_size q))
                                      (upd_msgq m (\<lambda>q. q\<lparr>read_ptr := rp\<rparr>) s1))
                  in (Ret 0, upd_msgq m (\<lambda>q. q\<lparr>used_msgs := used_msgs q + 1\<rparr>) s2)
         else if timeout = K_NO_WAIT then (Ret (- ENOMSG), s)
         else z_pend_curr (Some (WqMsgq m)) timeout (upd_thread (current s) (\<lambda>th. th\<lparr>swap_data := data\<rparr>) s))"

definition k_msgq_put :: "nat \<Rightarrow> nat \<Rightarrow> int \<Rightarrow> kernel \<Rightarrow> int kres \<times> kernel" where
  "k_msgq_put m data timeout s = put_msg_in_queue m data timeout True s"

definition k_msgq_put_front :: "nat \<Rightarrow> nat \<Rightarrow> kernel \<Rightarrow> int kres \<times> kernel" where
  "k_msgq_put_front m data s = put_msg_in_queue m data K_NO_WAIT False s"

definition k_msgq_get_attrs :: "nat \<Rightarrow> kernel \<Rightarrow> nat \<times> nat \<times> nat" where
  "k_msgq_get_attrs m s = (msg_size (msgq_of m s), max_msgs (msgq_of m s), used_msgs (msgq_of m s))"

definition k_msgq_get :: "nat \<Rightarrow> nat \<Rightarrow> int \<Rightarrow> kernel \<Rightarrow> int kres \<times> kernel" where
  "k_msgq_get m data timeout s =
     (let q = msgq_of m s
      in if used_msgs q > 0
         then let s1 = upd_mem (memcpy data (read_ptr q) (msg_size q)) s;
                  s2 = upd_msgq m (\<lambda>q. q\<lparr>read_ptr := adv_ptr q (read_ptr q), used_msgs := used_msgs q - 1\<rparr>) s1
              in case z_unpend_first_thread_locked (WqMsgq m) s2 of
                   (Some pending_thread, s3) \<Rightarrow>
                     let s4 = upd_mem (memcpy (write_ptr q) (swap_data (threads s3 pending_thread)) (msg_size q)) s3;
                         s5 = upd_msgq m (\<lambda>q. q\<lparr>write_ptr := adv_ptr q (write_ptr q), used_msgs := used_msgs q + 1\<rparr>) s4;
                         s6 = upd_thread pending_thread (\<lambda>th. th\<lparr>swap_retval := 0\<rparr>) s5
                     in (Ret 0, reschedule (ready_thread pending_thread s6))
                 | (None, s3) \<Rightarrow> (Ret 0, s3)
         else if timeout = K_NO_WAIT then (Ret (- ENOMSG), s)
         else z_pend_curr (Some (WqMsgq m)) timeout (upd_thread (current s) (\<lambda>th. th\<lparr>swap_data := data\<rparr>) s))"

definition k_msgq_peek :: "nat \<Rightarrow> nat \<Rightarrow> kernel \<Rightarrow> int \<times> kernel" where
  "k_msgq_peek m data s =
     (let q = msgq_of m s
      in if used_msgs q > 0 then (0, upd_mem (memcpy data (read_ptr q) (msg_size q)) s)
         else (- ENOMSG, s))"

definition k_msgq_peek_at :: "nat \<Rightarrow> nat \<Rightarrow> nat \<Rightarrow> kernel \<Rightarrow> int \<times> kernel" where
  "k_msgq_peek_at m data idx s =
     (let q = msgq_of m s
      in if used_msgs q > idx
         then let bytes_to_end = (buffer_end q - read_ptr q) mod 2 ^ 32;
                  byte_offset = (idx * msg_size q) mod 2 ^ 32;
                  (start_addr, offset) =
                    (if bytes_to_end \<le> byte_offset then (buffer_start q, byte_offset - bytes_to_end)
                     else (read_ptr q, byte_offset))
              in (0, upd_mem (memcpy data (start_addr + offset) (msg_size q)) s)
         else (- ENOMSG, s))"

definition k_msgq_purge :: "nat \<Rightarrow> kernel \<Rightarrow> kernel" where
  "k_msgq_purge m s =
     (let (woke, s1) = z_sched_wake_all (WqMsgq m) (- ENOMSG) 0 s;
          s2 = upd_msgq m (\<lambda>q. q\<lparr>used_msgs := 0, read_ptr := write_ptr q\<rparr>) s1
      in if woke then reschedule s2 else s2)"

definition k_msgq_num_free_get :: "nat \<Rightarrow> kernel \<Rightarrow> nat" where
  "k_msgq_num_free_get m s = max_msgs (msgq_of m s) - used_msgs (msgq_of m s)"

definition k_msgq_num_used_get :: "nat \<Rightarrow> kernel \<Rightarrow> nat" where
  "k_msgq_num_used_get m s = used_msgs (msgq_of m s)"

section \<open>The ring as a list of messages\<close>

definition slot :: "k_msgq \<Rightarrow> nat \<Rightarrow> nat" where
  "slot q i = buffer_start q + (i mod max_msgs q) * msg_size q"

definition ridx :: "k_msgq \<Rightarrow> nat" where
  "ridx q = (read_ptr q - buffer_start q) div msg_size q"

definition msgs :: "k_msgq \<Rightarrow> (nat \<Rightarrow> 8 word) \<Rightarrow> 8 word list list" where
  "msgs q mm = map (\<lambda>i. bytes (slot q (ridx q + i)) (msg_size q) mm) [0..<used_msgs q]"

definition msgq_wf :: "k_msgq \<Rightarrow> bool" where
  "msgq_wf q \<longleftrightarrow> 0 < msg_size q \<and> 0 < max_msgs q \<and> used_msgs q \<le> max_msgs q \<and>
     buffer_end q = buffer_start q + max_msgs q * msg_size q \<and> buffer_end q < 2 ^ 32 \<and>
     ridx q < max_msgs q \<and> read_ptr q = slot q (ridx q) \<and> write_ptr q = slot q (ridx q + used_msgs q)"

text \<open>Threads wait only while the queue is empty (receivers) or full (senders).\<close>

definition msgq_ok :: "nat \<Rightarrow> kernel \<Rightarrow> bool" where
  "msgq_ok m s \<longleftrightarrow> msgq_wf (msgq_of m s) \<and> (waitq s (WqMsgq m) \<noteq> [] \<longrightarrow>
     used_msgs (msgq_of m s) = 0 \<or> used_msgs (msgq_of m s) = max_msgs (msgq_of m s))"

lemma slot_bounds:
  assumes "msgq_wf q"
  shows "buffer_start q \<le> slot q i" "slot q i + msg_size q \<le> buffer_end q"
proof -
  have "i mod max_msgs q < max_msgs q" using assms by (simp add: msgq_wf_def)
  then have "Suc (i mod max_msgs q) * msg_size q \<le> max_msgs q * msg_size q" by (intro mult_le_mono1) simp
  then show "slot q i + msg_size q \<le> buffer_end q" using assms by (simp add: slot_def msgq_wf_def)
qed (simp add: slot_def)

lemma slots_disjoint:
  assumes "i mod max_msgs q \<noteq> j mod max_msgs q"
  shows "slot q i + msg_size q \<le> slot q j \<or> slot q j + msg_size q \<le> slot q i"
proof -
  have *: "slot q i + msg_size q \<le> slot q j" if "i mod max_msgs q < j mod max_msgs q" for i j
    using mult_le_mono1 [of "Suc (i mod max_msgs q)" "j mod max_msgs q" "msg_size q"] that by (simp add: slot_def)
  show ?thesis using assms * [of i j] * [of j i] by (meson nat_neq_iff)
qed

lemma adv_slot:
  assumes "msgq_wf q"
  shows "adv_ptr q (slot q i) = slot q (Suc i)"
proof -
  let ?n = "max_msgs q" and ?z = "msg_size q"
  have w: "0 < ?z" "0 < ?n" "buffer_end q = buffer_start q + ?n * ?z" using assms by (simp_all add: msgq_wf_def)
  have lt: "i mod ?n < ?n" using w by simp
  show ?thesis
  proof (cases "Suc (i mod ?n) = ?n")
    case True
    then have "Suc i mod ?n = 0" by (simp add: mod_Suc)
    moreover have "Suc (i mod ?n) * ?z = ?n * ?z" by (simp only: True)
    then have "slot q i + ?z = buffer_end q" using w by (simp add: slot_def)
    ultimately show ?thesis by (simp add: adv_ptr_def slot_def)
  next
    case False
    then have m: "Suc i mod ?n = Suc (i mod ?n)" by (simp add: mod_Suc)
    have "Suc (i mod ?n) < ?n" using False lt by linarith
    then have "Suc (i mod ?n) * ?z < ?n * ?z" using w by (intro mult_strict_right_mono) simp_all
    then have "slot q i + ?z \<noteq> buffer_end q" using w by (simp add: slot_def)
    with m show ?thesis by (simp add: adv_ptr_def slot_def)
  qed
qed

lemma slot_div: "msgq_wf q \<Longrightarrow> (slot q i - buffer_start q) div msg_size q = i mod max_msgs q"
  by (simp add: slot_def msgq_wf_def)

lemma mod_add_ne:
  assumes "(i :: nat) < n" "j < n" "i \<noteq> j"
  shows "(r + i) mod n \<noteq> (r + j) mod n"
proof -
  have *: "(r + j) mod n \<noteq> (r + i) mod n" if "i < j" "j < n" for i j
    using that mod_eq_dvd_iff_nat [of "r + i" "r + j" n] by (auto dest: dvd_imp_le)
  show ?thesis using assms * [of i j] * [of j i] by (cases "i < j") auto
qed

text \<open>What the three changes of the ring do to the list of messages.\<close>

definition apart :: "k_msgq \<Rightarrow> nat \<Rightarrow> bool" where
  "apart q a \<longleftrightarrow> a + msg_size q \<le> buffer_start q \<or> buffer_end q \<le> a"

lemma slot_same: "max_msgs q' = max_msgs q \<Longrightarrow> msg_size q' = msg_size q \<Longrightarrow> buffer_start q' = buffer_start q \<Longrightarrow> slot q' = slot q"
  by (simp add: slot_def fun_eq_iff)

lemma msgs_apart:
  assumes "msgq_wf q" "apart q a"
  shows "msgs q (memcpy a b (msg_size q) mm) = msgs q mm"
proof -
  have "bytes (slot q i) (msg_size q) (memcpy a b (msg_size q) mm) = bytes (slot q i) (msg_size q) mm" for i
    using slot_bounds [OF assms(1), of i] assms(2) by (intro bytes_memcpy_other) (auto simp: apart_def)
  then show ?thesis by (simp add: msgs_def)
qed

lemma ring_push_back:
  fixes a :: nat and mm :: "nat \<Rightarrow> 8 word"
  assumes w: "msgq_wf q" and l: "used_msgs q < max_msgs q"
  defines "q' \<equiv> q\<lparr>write_ptr := adv_ptr q (write_ptr q), used_msgs := used_msgs q + 1\<rparr>"
    and "mm' \<equiv> memcpy (write_ptr q) a (msg_size q) mm"
  shows "msgq_wf q'" "msgs q' mm' = msgs q mm @ [bytes a (msg_size q) mm]"
proof -
  have sl: "slot q' = slot q" by (rule slot_same) (simp_all add: q'_def)
  have r: "ridx q' = ridx q" "msg_size q' = msg_size q" by (simp_all add: q'_def ridx_def)
  have wp: "write_ptr q = slot q (ridx q + used_msgs q)" using w by (simp add: msgq_wf_def)
  show "msgq_wf q'" using w l adv_slot [OF w] unfolding msgq_wf_def r sl by (simp add: q'_def wp)
  have old: "bytes (slot q (ridx q + i)) (msg_size q) mm' = bytes (slot q (ridx q + i)) (msg_size q) mm" if "i < used_msgs q" for i
    unfolding mm'_def wp
    by (rule bytes_memcpy_other) (use slots_disjoint [of "ridx q + i" q "ridx q + used_msgs q"] mod_add_ne [of i _ "used_msgs q"] that l in auto)
  have new: "bytes (slot q (ridx q + used_msgs q)) (msg_size q) mm' = bytes a (msg_size q) mm"
    by (simp add: mm'_def wp)
  show "msgs q' mm' = msgs q mm @ [bytes a (msg_size q) mm]"
    using old new by (simp add: msgs_def sl r) (simp add: q'_def)
qed

lemma ring_push_front:
  fixes a :: nat and mm :: "nat \<Rightarrow> 8 word"
  assumes w: "msgq_wf q" and l: "used_msgs q < max_msgs q"
  defines "rp \<equiv> (if read_ptr q = buffer_start q then buffer_end q else read_ptr q) - msg_size q"
  defines "q' \<equiv> q\<lparr>read_ptr := rp, used_msgs := used_msgs q + 1\<rparr>"
    and "mm' \<equiv> memcpy rp a (msg_size q) mm"
  shows "msgq_wf q'" "msgs q' mm' = bytes a (msg_size q) mm # msgs q mm"
proof -
  let ?n = "max_msgs q" and ?z = "msg_size q" and ?r = "ridx q"
  have b: "0 < ?z" "0 < ?n" "buffer_end q = buffer_start q + ?n * ?z" "?r < ?n" "read_ptr q = slot q ?r"
    "write_ptr q = slot q (?r + used_msgs q)" using w by (simp_all add: msgq_wf_def)
  have sl: "slot q' = slot q" by (rule slot_same) (simp_all add: q'_def)
  define p where "p = (?r + ?n - 1) mod ?n"
  have rp: "rp = slot q (?r + ?n - 1)"
  proof (cases "?r = 0")
    case True
    then have "rp = buffer_start q + (?n - 1) * ?z" using b by (simp add: rp_def slot_def algebra_simps diff_mult_distrib2)
    with True b show ?thesis by (simp add: slot_def)
  next
    case False
    then have "(?r + ?n - 1) mod ?n = ?r - 1" using b by (simp add: mod_if)
    with False b show ?thesis by (simp add: rp_def slot_def diff_mult_distrib)
  qed
  have rd: "ridx q' = p" using slot_div [OF w, of "?r + ?n - 1"] by (simp add: ridx_def q'_def rp p_def)
  have nx: "slot q (Suc (p + i)) = slot q (?r + i)" for i
  proof -
    have "(p + Suc i) mod ?n = (?r + ?n - 1 + Suc i) mod ?n" unfolding p_def by (rule mod_add_left_eq)
    also have "?r + ?n - 1 + Suc i = (?r + i) + ?n" using b by simp
    finally show ?thesis by (simp add: slot_def)
  qed
  show "msgq_wf q'" using w l b nx [of "used_msgs q"] rp unfolding msgq_wf_def rd sl
    by (simp add: q'_def p_def) (simp add: slot_def)
  have p0: "slot q p = rp" by (simp add: rp p_def slot_def)
  have old: "bytes (slot q (?r + i)) ?z mm' = bytes (slot q (?r + i)) ?z mm" if "i < used_msgs q" for i
    unfolding mm'_def
  proof (rule bytes_memcpy_other)
    have "(p + Suc i) mod ?n \<noteq> (p + 0) mod ?n" using that l b by (intro mod_add_ne) simp_all
    from slots_disjoint [OF this] show "slot q (?r + i) + ?z \<le> rp \<or> rp + ?z \<le> slot q (?r + i)"
      by (simp add: nx p0)
  qed
  have "msgs q' mm' = map (\<lambda>i. bytes (slot q (p + i)) ?z mm') [0..<Suc (used_msgs q)]"
    by (simp add: msgs_def sl rd) (simp add: q'_def)
  also have "\<dots> = bytes (slot q p) ?z mm' # map (\<lambda>i. bytes (slot q (p + Suc i)) ?z mm') [0..<used_msgs q]"
    by (simp add: upt_conv_Cons map_Suc_upt [symmetric] del: upt_Suc)
  also have "\<dots> = bytes a ?z mm # msgs q mm" using old by (simp add: nx p0 msgs_def) (simp add: mm'_def)
  finally show "msgs q' mm' = bytes a ?z mm # msgs q mm" .
qed

lemma ring_pop:
  assumes w: "msgq_wf q" and l: "0 < used_msgs q"
  defines "q' \<equiv> q\<lparr>read_ptr := adv_ptr q (read_ptr q), used_msgs := used_msgs q - 1\<rparr>"
  shows "msgq_wf q'" "msgs q mm = bytes (read_ptr q) (msg_size q) mm # msgs q' mm"
proof -
  let ?n = "max_msgs q" and ?z = "msg_size q" and ?r = "ridx q"
  have b: "0 < ?z" "0 < ?n" "?r < ?n" "read_ptr q = slot q ?r" "write_ptr q = slot q (?r + used_msgs q)"
    using w by (simp_all add: msgq_wf_def)
  have sl: "slot q' = slot q" by (rule slot_same) (simp_all add: q'_def)
  have rp: "adv_ptr q (read_ptr q) = slot q (Suc ?r)" by (simp add: b(4) adv_slot [OF w])
  have rd: "ridx q' = Suc ?r mod ?n" using slot_div [OF w, of "Suc ?r"] by (simp add: ridx_def q'_def rp)
  have nx: "slot q (Suc ?r mod ?n + i) = slot q (?r + Suc i)" for i
    by (simp add: slot_def mod_add_left_eq)
  have "used_msgs q - Suc 0 \<le> ?n" using w unfolding msgq_wf_def by linarith
  then show "msgq_wf q'" using w l b nx [of "used_msgs q - 1"] rp unfolding msgq_wf_def rd sl
    by (simp add: q'_def) (simp add: slot_def)
  obtain k where k: "used_msgs q = Suc k" using l by (cases "used_msgs q") auto
  have "msgs q mm = bytes (slot q ?r) ?z mm # map (\<lambda>i. bytes (slot q (?r + Suc i)) ?z mm) [0..<k]"
    by (simp add: msgs_def k upt_conv_Cons map_Suc_upt [symmetric] del: upt_Suc)
  then show "msgs q mm = bytes (read_ptr q) ?z mm # msgs q' mm"
    using k by (simp add: msgs_def sl rd nx b(4)) (simp add: q'_def)
qed

section \<open>Effect of the operations\<close>

lemma upd_msgq_sel [simp]:
  "msgqs (objs (upd_msgq m f s)) = (msgqs (objs s))(m := f (msgqs (objs s) m))" "mem (objs (upd_msgq m f s)) = mem (objs s)"
  "sems (objs (upd_msgq m f s)) = sems (objs s)" "mutexes (objs (upd_msgq m f s)) = mutexes (objs s)"
  "stacks (objs (upd_msgq m f s)) = stacks (objs s)" "slabs (objs (upd_msgq m f s)) = slabs (objs s)"
  "events (objs (upd_msgq m f s)) = events (objs s)" "timers (objs (upd_msgq m f s)) = timers (objs s)"
  "queues (objs (upd_msgq m f s)) = queues (objs s)" "words (objs (upd_msgq m f s)) = words (objs s)"
  "waitq (upd_msgq m f s) = waitq s" "threads (upd_msgq m f s) = threads s" "current (upd_msgq m f s) = current s"
  "in_isr (upd_msgq m f s) = in_isr s" "idle_thread (upd_msgq m f s) = idle_thread s"
  "sched_ok (upd_msgq m f s) = sched_ok s" "resched_ok (upd_msgq m f s) = resched_ok s" "sinv X (upd_msgq m f s) = sinv X s"
  by (simp_all add: upd_msgq_def)

lemma upd_mem_sel [simp]:
  "mem (objs (upd_mem f s)) = f (mem (objs s))" "msgqs (objs (upd_mem f s)) = msgqs (objs s)"
  "sems (objs (upd_mem f s)) = sems (objs s)" "mutexes (objs (upd_mem f s)) = mutexes (objs s)"
  "stacks (objs (upd_mem f s)) = stacks (objs s)" "slabs (objs (upd_mem f s)) = slabs (objs s)"
  "events (objs (upd_mem f s)) = events (objs s)" "timers (objs (upd_mem f s)) = timers (objs s)"
  "queues (objs (upd_mem f s)) = queues (objs s)" "words (objs (upd_mem f s)) = words (objs s)"
  "waitq (upd_mem f s) = waitq s" "threads (upd_mem f s) = threads s" "current (upd_mem f s) = current s"
  "in_isr (upd_mem f s) = in_isr s" "idle_thread (upd_mem f s) = idle_thread s"
  "sched_ok (upd_mem f s) = sched_ok s" "resched_ok (upd_mem f s) = resched_ok s" "sinv X (upd_mem f s) = sinv X s"
  by (simp_all add: upd_mem_def)

abbreviation retval0 :: "k_thread \<Rightarrow> k_thread" where
  "retval0 \<equiv> \<lambda>th. th\<lparr>swap_retval := 0\<rparr>"

lemma put_deliver:
  assumes s: "sched_ok s" and w: "waitq s (WqMsgq m) = t # ts" and l: "used_msgs (msgq_of m s) < max_msgs (msgq_of m s)"
  shows "put_msg_in_queue m data n bk s =
    (Ret 0, upd_mem (memcpy (swap_data (threads s t)) data (msg_size (msgq_of m s))) (reschedule (wake_turn retval0 t s)))"
proof -
  note d = deliver_eq [OF sched_okD(1) [OF s] w]
  show ?thesis using l by (simp add: put_msg_in_queue_def Let_def d(1) d(2) [simplified] upd_mem_def d(3) reschedule_upd_objs)
qed

lemma put_store:
  fixes data :: nat and n :: int and bk :: bool
  assumes "waitq s (WqMsgq m) = []" and "used_msgs (msgq_of m s) < max_msgs (msgq_of m s)"
  defines "q \<equiv> msgq_of m s" and "s' \<equiv> snd (put_msg_in_queue m data n bk s)"
  defines "rp \<equiv> (if read_ptr q = buffer_start q then buffer_end q else read_ptr q) - msg_size q"
  shows "fst (put_msg_in_queue m data n bk s) = Ret 0"
    "msgq_of m s' = (if bk then q\<lparr>write_ptr := adv_ptr q (write_ptr q), used_msgs := used_msgs q + 1\<rparr>
       else q\<lparr>read_ptr := rp, used_msgs := used_msgs q + 1\<rparr>)"
    "mem (objs s') = memcpy (if bk then write_ptr q else rp) data (msg_size q) (mem (objs s))"
    "waitq s' = waitq s" "threads s' = threads s" "sched_ok s' = sched_ok s" "resched_ok s' = resched_ok s"
    "k \<noteq> m \<Longrightarrow> msgq_of k s' = msgq_of k s" "current s' = current s"
  using assms(1,2) by (simp_all add: s'_def put_msg_in_queue_def unpend_first_empty q_def rp_def Let_def)

lemma put_full:
  assumes "\<not> used_msgs (msgq_of m s) < max_msgs (msgq_of m s)"
  shows "put_msg_in_queue m data n bk s = (if n = K_NO_WAIT then (Ret (- ENOMSG), s)
    else z_pend_curr (Some (WqMsgq m)) n (upd_thread (current s) (\<lambda>th. th\<lparr>swap_data := data\<rparr>) s))"
  using assms by (simp add: put_msg_in_queue_def Let_def)

lemma get_cases:
  fixes m data :: nat
  assumes s: "sched_ok s"
  defines "q \<equiv> msgq_of m s"
  defines "s2 \<equiv> upd_msgq m (\<lambda>q. q\<lparr>read_ptr := adv_ptr q (read_ptr q), used_msgs := used_msgs q - 1\<rparr>)
    (upd_mem (memcpy data (read_ptr q) (msg_size q)) s)"
  shows "used_msgs q > 0 \<Longrightarrow> waitq s (WqMsgq m) = [] \<Longrightarrow> k_msgq_get m data n s = (Ret 0, s2)"
    "used_msgs q > 0 \<Longrightarrow> waitq s (WqMsgq m) = t # ts \<Longrightarrow> k_msgq_get m data n s =
       (Ret 0, upd_msgq m (\<lambda>q. q\<lparr>write_ptr := adv_ptr q (write_ptr q), used_msgs := used_msgs q + 1\<rparr>)
          (upd_mem (memcpy (write_ptr q) (swap_data (threads s t)) (msg_size q)) (reschedule (wake_turn retval0 t s2))))"
    "used_msgs q = 0 \<Longrightarrow> k_msgq_get m data n s = (if n = K_NO_WAIT then (Ret (- ENOMSG), s)
       else z_pend_curr (Some (WqMsgq m)) n (upd_thread (current s) (\<lambda>th. th\<lparr>swap_data := data\<rparr>) s))"
proof -
  show "used_msgs q > 0 \<Longrightarrow> waitq s (WqMsgq m) = [] \<Longrightarrow> k_msgq_get m data n s = (Ret 0, s2)"
    by (simp add: k_msgq_get_def Let_def unpend_first_empty q_def s2_def)
  show "used_msgs q = 0 \<Longrightarrow> k_msgq_get m data n s = (if n = K_NO_WAIT then (Ret (- ENOMSG), s)
       else z_pend_curr (Some (WqMsgq m)) n (upd_thread (current s) (\<lambda>th. th\<lparr>swap_data := data\<rparr>) s))"
    by (simp add: k_msgq_get_def Let_def q_def)
  assume w: "waitq s (WqMsgq m) = t # ts" and u: "used_msgs q > 0"
  have "sinv {} s2" "waitq s2 (WqMsgq m) = t # ts" using s w by (simp_all add: s2_def sched_ok_def)
  note d = deliver_eq [OF this]
  have t2: "threads s2 = threads s" by (simp add: s2_def)
  show "k_msgq_get m data n s =
       (Ret 0, upd_msgq m (\<lambda>q. q\<lparr>write_ptr := adv_ptr q (write_ptr q), used_msgs := used_msgs q + 1\<rparr>)
          (upd_mem (memcpy (write_ptr q) (swap_data (threads s t)) (msg_size q)) (reschedule (wake_turn retval0 t s2))))"
    using u unfolding k_msgq_get_def Let_def q_def [symmetric] s2_def [symmetric] d(1)
    by (simp add: d(2) [simplified] t2 upd_mem_def upd_msgq_def d(3) reschedule_upd_objs)
qed

lemma msgq_okD:
  assumes "msgq_ok m s"
  shows "msgq_wf (msgq_of m s)" "used_msgs (msgq_of m s) \<le> max_msgs (msgq_of m s)"
    "waitq s (WqMsgq m) \<noteq> [] \<Longrightarrow> used_msgs (msgq_of m s) = 0 \<or> used_msgs (msgq_of m s) = max_msgs (msgq_of m s)"
  using assms by (simp_all add: msgq_ok_def msgq_wf_def)

lemma keeps_swap_data [simp]: "keeps_state (\<lambda>th. th\<lparr>swap_data := d\<rparr>)"
  by (simp add: keeps_state_def)

lemma pend_with_data:
  fixes m d :: nat and n :: int
  assumes s: "sched_ok s" and c: "\<not> in_isr s" "current s \<noteq> idle_thread s" and n: "timeout_fits n s"
  defines "s' \<equiv> snd (z_pend_curr (Some (WqMsgq m)) n (upd_thread (current s) (\<lambda>th. th\<lparr>swap_data := d\<rparr>) s))"
  shows "z_pend_curr (Some (WqMsgq m)) n (upd_thread (current s) (\<lambda>th. th\<lparr>swap_data := d\<rparr>) s) = (Swapped, s')"
    "sched_ok s'" "resched_ok s'" "objs s' = objs s"
    "waitq s' = (waitq s)(WqMsgq m := prio_insert (threads s) (current s) (waitq s (WqMsgq m)))"
    "swap_data (threads s' (current s)) = d" "idle_thread s' = idle_thread s"
proof -
  let ?u = "upd_thread (current s) (\<lambda>th. th\<lparr>swap_data := d\<rparr>) s"
  have u: "sched_ok ?u" "\<not> in_isr ?u" "current ?u \<noteq> idle_thread ?u" "timeout_fits n ?u"
    using s c n by (simp_all add: sched_ok_keeps)
  have pi: "prio_insert (threads ?u) = prio_insert (threads s)" by (intro ext prio_insert_cong) simp_all
  note P = pend_curr_rule [OF u, of "Some (WqMsgq m)", folded s'_def]
  show "z_pend_curr (Some (WqMsgq m)) n ?u = (Swapped, s')" "sched_ok s'" "resched_ok s'" "objs s' = objs s"
    "waitq s' = (waitq s)(WqMsgq m := prio_insert (threads s) (current s) (waitq s (WqMsgq m)))"
    "swap_data (threads s' (current s)) = d" "idle_thread s' = idle_thread s"
    using P(1-6,9) by (simp_all add: pi del: upd_thread_sel(1)) (simp add: P(4))
qed

lemma msgq_put_ok:
  fixes data :: nat and bk :: bool
  assumes s: "sched_ok s" and q: "msgq_ok m s" and c: "n \<noteq> K_NO_WAIT \<Longrightarrow> \<not> in_isr s \<and> current s \<noteq> idle_thread s \<and> timeout_fits n s"
  defines "s' \<equiv> snd (put_msg_in_queue m data n bk s)"
  shows "sched_ok s'" "msgq_ok m s'" "msgq_ok k s \<Longrightarrow> msgq_ok k s'" "resched_ok s \<Longrightarrow> resched_ok s'"
    "w \<noteq> WqMsgq m \<Longrightarrow> waitq s' w = waitq s w"
proof -
  let ?q = "msgq_of m s"
  have "sched_ok s' \<and> msgq_ok m s' \<and> (\<forall>k. msgq_ok k s \<longrightarrow> msgq_ok k s') \<and> (resched_ok s \<longrightarrow> resched_ok s') \<and>
    (\<forall>w. w \<noteq> WqMsgq m \<longrightarrow> waitq s' w = waitq s w)"
  proof (cases "used_msgs ?q < max_msgs ?q")
    case l: True
    show ?thesis
    proof (cases "waitq s (WqMsgq m)")
      case Nil
      note p = put_store [OF Nil l, where data = data and n = n and bk = bk, folded s'_def]
      have "msgq_wf (msgq_of m s')"
        using ring_push_back(1) [OF msgq_okD(1) [OF q] l] ring_push_front(1) [OF msgq_okD(1) [OF q] l] by (simp add: p(2))
      then have m: "msgq_ok m s'" using Nil by (simp add: msgq_ok_def p(4))
      moreover have "msgq_ok k s'" if "msgq_ok k s" for k
        using that m by (cases "k = m") (simp_all add: msgq_ok_def p(4,8))
      ultimately show ?thesis using s p(4,6,7) by simp
    next
      case w: (Cons t ts)
      note p = put_deliver [OF s w l, of data n bk]
      note r = wake_resched_rule [OF s w keeps_retval(2) [where r = 0]]
      have u: "used_msgs ?q = 0" using msgq_okD(3) [OF q] w l by simp
      have "msgq_ok k s'" if "msgq_ok k s" for k
        using that r(3,4) u w by (cases "k = m") (auto simp: s'_def p msgq_ok_def)
      with q r show ?thesis by (simp add: s'_def p del: reschedule_sel)
    qed
  next
    case f: False
    note p = put_full [OF f, of data n bk]
    show ?thesis
    proof (cases "n = K_NO_WAIT")
      case True
      with p s q show ?thesis by (simp add: s'_def)
    next
      case False
      note P = pend_with_data [OF s, of n m data, folded p]
      have u: "used_msgs ?q = max_msgs ?q" using f msgq_okD(2) [OF q] by simp
      from False c P(2-5) p have "sched_ok s'" "resched_ok s'" "objs s' = objs s"
        "waitq s' = (waitq s)(WqMsgq m := prio_insert (threads s) (current s) (waitq s (WqMsgq m)))"
        by (simp_all add: s'_def)
      with u q show ?thesis by (auto simp: msgq_ok_def)
    qed
  qed
  then show "sched_ok s'" "msgq_ok m s'" "msgq_ok k s \<Longrightarrow> msgq_ok k s'" "resched_ok s \<Longrightarrow> resched_ok s'"
    "w \<noteq> WqMsgq m \<Longrightarrow> waitq s' w = waitq s w" by blast+
qed

lemma get_hand:
  fixes m data :: nat and n :: int
  assumes s: "sched_ok s" and q: "msgq_ok m s" and u: "0 < used_msgs (msgq_of m s)" and w: "waitq s (WqMsgq m) = t # ts"
  defines "q0 \<equiv> msgq_of m s" and "s' \<equiv> snd (k_msgq_get m data n s)"
  defines "q1 \<equiv> q0\<lparr>read_ptr := adv_ptr q0 (read_ptr q0), used_msgs := used_msgs q0 - 1\<rparr>"
  defines "q2 \<equiv> q1\<lparr>write_ptr := adv_ptr q1 (write_ptr q1), used_msgs := used_msgs q1 + 1\<rparr>"
  shows "fst (k_msgq_get m data n s) = Ret 0" "sched_ok s'" "resched_ok s'" "waitq s' = (waitq s)(WqMsgq m := ts)"
    "msgqs (objs s') = (msgqs (objs s))(m := q2)" "threads s' t = waked retval0 (threads s t)"
    "mem (objs s') = memcpy (write_ptr q0) (swap_data (threads s t)) (msg_size q0)
       (memcpy data (read_ptr q0) (msg_size q0) (mem (objs s)))"
    "v \<noteq> t \<Longrightarrow> retval_diff (threads s v) (threads s' v)" "idle_thread s' = idle_thread s"
proof -
  let ?s2 = "upd_msgq m (\<lambda>q. q\<lparr>read_ptr := adv_ptr q (read_ptr q), used_msgs := used_msgs q - 1\<rparr>)
    (upd_mem (memcpy data (read_ptr q0) (msg_size q0)) s)"
  note g = get_cases(2) [OF s u w, of data n, folded q0_def]
  have s2: "sched_ok ?s2" "waitq ?s2 (WqMsgq m) = t # ts" using s w by simp_all
  define z where "z = reschedule (wake_turn retval0 t ?s2)"
  note r = wake_resched_rule [OF s2 keeps_retval(2) [where r = 0], folded z_def]
  have s': "k_msgq_get m data n s = (Ret 0, upd_msgq m (\<lambda>q. q\<lparr>write_ptr := adv_ptr q (write_ptr q), used_msgs := used_msgs q + 1\<rparr>)
          (upd_mem (memcpy (write_ptr q0) (swap_data (threads s t)) (msg_size q0)) z))"
    unfolding g z_def q0_def ..
  show "fst (k_msgq_get m data n s) = Ret 0" by (simp add: s')
  show "sched_ok s'" "resched_ok s'" "waitq s' = (waitq s)(WqMsgq m := ts)" "idle_thread s' = idle_thread s"
    "threads s' t = waked retval0 (threads s t)" "v \<noteq> t \<Longrightarrow> retval_diff (threads s v) (threads s' v)"
    using r(1-3,9,11,12) by (simp_all add: s'_def s')
  show "msgqs (objs s') = (msgqs (objs s))(m := q2)" "mem (objs s') = memcpy (write_ptr q0) (swap_data (threads s t)) (msg_size q0)
       (memcpy data (read_ptr q0) (msg_size q0) (mem (objs s)))"
    using r(4) by (simp_all add: s'_def s' q2_def q1_def q0_def adv_ptr_def)
qed

lemma msgq_get_ok:
  fixes m data :: nat and n :: int
  assumes s: "sched_ok s" and q: "msgq_ok m s" and c: "n \<noteq> K_NO_WAIT \<Longrightarrow> \<not> in_isr s \<and> current s \<noteq> idle_thread s \<and> timeout_fits n s"
  defines "s' \<equiv> snd (k_msgq_get m data n s)"
  shows "sched_ok s'" "msgq_ok k s \<Longrightarrow> msgq_ok k s'" "resched_ok s \<Longrightarrow> resched_ok s'"
    "w \<noteq> WqMsgq m \<Longrightarrow> waitq s' w = waitq s w"
proof -
  let ?q = "msgq_of m s"
  have "sched_ok s' \<and> (\<forall>k. msgq_ok k s \<longrightarrow> msgq_ok k s') \<and> (resched_ok s \<longrightarrow> resched_ok s') \<and>
    (\<forall>w. w \<noteq> WqMsgq m \<longrightarrow> waitq s' w = waitq s w)"
  proof (cases "used_msgs ?q")
    case 0
    note g = get_cases(3) [OF s 0, of data n]
    show ?thesis
    proof (cases "n = K_NO_WAIT")
      case True
      with g s show ?thesis by (simp add: s'_def)
    next
      case False
      from False c g pend_with_data(2-5) [OF s, of n m data] have "sched_ok s'" "resched_ok s'" "objs s' = objs s"
        "waitq s' = (waitq s)(WqMsgq m := prio_insert (threads s) (current s) (waitq s (WqMsgq m)))"
        by (simp_all add: s'_def)
      with 0 show ?thesis by (auto simp: msgq_ok_def)
    qed
  next
    case (Suc u)
    then have l: "0 < used_msgs ?q" by simp
    note pop = ring_pop(1) [OF msgq_okD(1) [OF q] l]
    show ?thesis
    proof (cases "waitq s (WqMsgq m)")
      case Nil
      have "msgq_ok k s'" if "msgq_ok k s" for k
        using that pop Nil get_cases(1) [OF s l Nil, of data n] by (cases "k = m") (auto simp: s'_def msgq_ok_def adv_ptr_def)
      then show ?thesis using get_cases(1) [OF s l Nil, of data n] s by (simp add: s'_def)
    next
      case w: (Cons t ts)
      note h = get_hand [OF s q l w, where data = data and n = n, folded s'_def]
      have lt: "used_msgs ?q - 1 < max_msgs ?q" using l msgq_okD(2) [OF q] by simp
      have wf: "msgq_wf (msgq_of m s')" using ring_push_back(1) [OF pop] lt by (simp add: h(5))
      have ue: "used_msgs (msgq_of m s') = used_msgs ?q" "max_msgs (msgq_of m s') = max_msgs ?q" using l by (simp_all add: h(5))
      have "msgq_ok k s'" if "msgq_ok k s" for k
      proof (cases "k = m")
        case True
        with wf ue that msgq_okD(3) [OF q] w l show ?thesis by (simp add: msgq_ok_def)
      next
        case False
        with that show ?thesis by (simp add: msgq_ok_def h(4,5))
      qed
      then show ?thesis using h(2-4) by simp
    qed
  qed
  then show "sched_ok s'" "msgq_ok k s \<Longrightarrow> msgq_ok k s'" "resched_ok s \<Longrightarrow> resched_ok s'"
    "w \<noteq> WqMsgq m \<Longrightarrow> waitq s' w = waitq s w" by blast+
qed

lemma msgq_purge_ok:
  assumes s: "sched_ok s" and q: "msgq_wf (msgq_of m s)"
  defines "s' \<equiv> k_msgq_purge m s"
  shows "sched_ok s'" "msgq_ok m s'" "msgq_ok k s \<Longrightarrow> msgq_ok k s'" "resched_ok s \<Longrightarrow> resched_ok s'"
    "waitq s' = (waitq s)(WqMsgq m := [])" "msgs (msgq_of m s') (mem (objs s')) = []"
    "u \<in> set (waitq s (WqMsgq m)) \<Longrightarrow> swap_retval (threads s' u) = - ENOMSG \<and> pended_on (threads s' u) = None"
proof -
  let ?f = "\<lambda>b. b\<lparr>msgqs := (msgqs b)(m := (msgqs b m)\<lparr>used_msgs := 0, read_ptr := write_ptr (msgqs b m)\<rparr>)\<rparr>"
  obtain b s1 where w: "z_sched_wake_all (WqMsgq m) (- ENOMSG) 0 s = (b, s1)" by fastforce
  have s': "s' = (if b then reschedule (upd_objs ?f s1) else upd_objs ?f s1)"
    by (simp add: s'_def k_msgq_purge_def w upd_msgq_def Let_def)
  note r = wake_all_resched_rule(2-13) [where f = ?f, OF s w, folded s']
  let ?q = "msgq_of m s" and ?q' = "(msgq_of m s)\<lparr>used_msgs := 0, read_ptr := write_ptr (msgq_of m s)\<rparr>"
  have sl: "slot ?q' = slot ?q" by (rule slot_same) simp_all
  have wp: "write_ptr ?q = slot ?q (ridx ?q + used_msgs ?q)" and n: "0 < max_msgs ?q" using q by (simp_all add: msgq_wf_def)
  have ri: "ridx ?q' = (ridx ?q + used_msgs ?q) mod max_msgs ?q" 
    using slot_div [OF q, of "ridx ?q + used_msgs ?q"] unfolding ridx_def [of ?q'] by (simp add: wp)
  have wf: "msgq_wf ?q'" using q wp n unfolding msgq_wf_def ri sl by (simp add: slot_def)
  show "sched_ok s'" by (rule r(1))
  show "resched_ok s \<Longrightarrow> resched_ok s'" by (rule r(2))
  show wq: "waitq s' = (waitq s)(WqMsgq m := [])" by (rule r(4))
  show ok: "msgq_ok m s'" using wf by (simp add: msgq_ok_def r(4,5))
  show "msgq_ok k s \<Longrightarrow> msgq_ok k s'" using ok by (cases "k = m") (simp_all add: msgq_ok_def r(4,5))
  show "msgs (msgq_of m s') (mem (objs s')) = []" by (simp add: r(5) msgs_def)
  show "u \<in> set (waitq s (WqMsgq m)) \<Longrightarrow> swap_retval (threads s' u) = - ENOMSG \<and> pended_on (threads s' u) = None"
    by (simp add: r(9) waked_sel(1) [OF keeps_retval(1)]) (simp add: waked_def)
qed

section \<open>Properties\<close>

datatype msgq_op = MPut nat | MPutFront nat | MGet nat | MPeekAt nat nat | MPurge

fun msgq_exec :: "nat \<Rightarrow> msgq_op \<Rightarrow> kernel \<Rightarrow> int kres \<times> kernel" where
  "msgq_exec m (MPut a) s = k_msgq_put m a K_NO_WAIT s"
| "msgq_exec m (MPutFront a) s = k_msgq_put_front m a s"
| "msgq_exec m (MGet a) s = k_msgq_get m a K_NO_WAIT s"
| "msgq_exec m (MPeekAt a i) s = map_prod Ret id (k_msgq_peek_at m a i s)"
| "msgq_exec m MPurge s = (Ret 0, k_msgq_purge m s)"

text \<open>The bounded queue of messages that the operations implement: result, received message, new queue.\<close>

fun msgq_spec :: "nat \<Rightarrow> (nat \<Rightarrow> 'a) \<Rightarrow> msgq_op \<Rightarrow> 'a list \<Rightarrow> int \<times> 'a option \<times> 'a list" where
  "msgq_spec cap at (MPut a) xs = (if length xs < cap then (0, None, xs @ [at a]) else (- ENOMSG, None, xs))"
| "msgq_spec cap at (MPutFront a) xs = (if length xs < cap then (0, None, at a # xs) else (- ENOMSG, None, xs))"
| "msgq_spec cap at (MGet a) xs = (case xs of [] \<Rightarrow> (- ENOMSG, None, []) | y # ys \<Rightarrow> (0, Some y, ys))"
| "msgq_spec cap at (MPeekAt a i) xs = (if i < length xs then (0, Some (xs ! i), xs) else (- ENOMSG, None, xs))"
| "msgq_spec cap at MPurge xs = (0, None, [])"

fun dest_of :: "msgq_op \<Rightarrow> nat option" where
  "dest_of (MGet a) = Some a" | "dest_of (MPeekAt a i) = Some a" | "dest_of _ = None"

lemma length_msgs [simp]: "length (msgs q mm) = used_msgs q"
  by (simp add: msgs_def)

lemma nth_msgs: "i < used_msgs q \<Longrightarrow> msgs q mm ! i = bytes (slot q (ridx q + i)) (msg_size q) mm"
  by (simp add: msgs_def)

lemma peek_at_slot:
  assumes "msgq_wf q" "i < used_msgs q"
  defines "bytes_to_end \<equiv> (buffer_end q - read_ptr q) mod 2 ^ 32" and "byte_offset \<equiv> (i * msg_size q) mod 2 ^ 32"
  shows "(if bytes_to_end \<le> byte_offset then buffer_start q + (byte_offset - bytes_to_end) else read_ptr q + byte_offset) =
    slot q (ridx q + i)"
proof -
  let ?n = "max_msgs q" and ?z = "msg_size q" and ?r = "ridx q"
  have w: "0 < ?z" "?r < ?n" "i < ?n" "buffer_end q = buffer_start q + ?n * ?z" "buffer_end q < 2 ^ 32"
    "read_ptr q = buffer_start q + ?r * ?z" using assms(1,2) by (simp_all add: msgq_wf_def slot_def)
  have "i * ?z \<le> ?n * ?z" using w by (intro mult_le_mono1) simp
  then have o: "byte_offset = i * ?z" using w unfolding byte_offset_def by (intro mod_less) linarith
  have "buffer_end q - read_ptr q = (?n - ?r) * ?z" using w by (simp add: diff_mult_distrib)
  moreover have "(?n - ?r) * ?z \<le> ?n * ?z" by (intro mult_le_mono1) simp
  ultimately have e: "bytes_to_end = (?n - ?r) * ?z" using w unfolding bytes_to_end_def
    by (metis mod_less order_le_less_trans le_add2)
  have c: "bytes_to_end \<le> byte_offset \<longleftrightarrow> ?n \<le> ?r + i" unfolding e o using w by (auto simp: mult_le_cancel2)
  show ?thesis
  proof (cases "?n \<le> ?r + i")
    case True
    have "(?r + i) mod ?n = ?r + i - ?n" using True w by (simp add: mod_if)
    moreover have "i * ?z - (?n - ?r) * ?z = (?r + i - ?n) * ?z" using True w by (simp flip: diff_mult_distrib)
    ultimately show ?thesis using True c by (simp add: slot_def e o)
  next
    case False
    then show ?thesis using c w by (simp add: slot_def o distrib_right)
  qed
qed

lemma msgq_refine_store:
  fixes a :: nat and bk :: bool
  assumes s: "sched_ok s" and q: "msgq_ok m s" and w: "waitq s (WqMsgq m) = []"
  defines "s' \<equiv> snd (put_msg_in_queue m a K_NO_WAIT bk s)" and "q0 \<equiv> msgq_of m s"
  defines "xs \<equiv> msgs q0 (mem (objs s))" and "x \<equiv> bytes a (msg_size q0) (mem (objs s))"
  shows "fst (put_msg_in_queue m a K_NO_WAIT bk s) = Ret (if length xs < max_msgs q0 then 0 else - ENOMSG)"
    "msgs (msgq_of m s') (mem (objs s')) = (if length xs < max_msgs q0 then if bk then xs @ [x] else x # xs else xs)"
proof -
  have wf: "msgq_wf q0" using q by (simp add: msgq_ok_def q0_def)
  have l: "length xs = used_msgs q0" by (simp add: xs_def)
  show "fst (put_msg_in_queue m a K_NO_WAIT bk s) = Ret (if length xs < max_msgs q0 then 0 else - ENOMSG)"
    using put_store(1) [OF w, where data = a and n = K_NO_WAIT and bk = bk] put_full [of s m a K_NO_WAIT bk] by (auto simp: l q0_def)
  show "msgs (msgq_of m s') (mem (objs s')) = (if length xs < max_msgs q0 then if bk then xs @ [x] else x # xs else xs)"
  proof (cases "used_msgs q0 < max_msgs q0")
    case True
    note p = put_store [OF w True [unfolded q0_def], where data = a and n = K_NO_WAIT and bk = bk, folded s'_def q0_def]
    show ?thesis using True ring_push_back(2) [OF wf True, of a "mem (objs s)"] ring_push_front(2) [OF wf True, of a "mem (objs s)"]
      by (simp add: p(2,3) xs_def x_def)
  next
    case False
    then show ?thesis using put_full [of s m a K_NO_WAIT bk] by (simp add: s'_def q0_def xs_def)
  qed
qed

text \<open>
  C17: with nobody waiting, the operations of a message queue on its ring of bytes are those of a
  bounded queue of messages: \<^verbatim>\<open>k_msgq_put\<close> appends, \<^verbatim>\<open>k_msgq_put_front\<close> prepends, \<^verbatim>\<open>k_msgq_get\<close> takes the first
  message into the caller's buffer, \<^verbatim>\<open>k_msgq_peek_at\<close> copies any message, \<^verbatim>\<open>k_msgq_purge\<close> empties, with
  -ENOMSG exactly when there is no room or no such message.
\<close>

theorem msgq_refines_list:
  assumes "sched_ok s" and "msgq_ok m s" and "waitq s (WqMsgq m) = []"
    and "\<forall>a. dest_of op = Some a \<longrightarrow> apart (msgq_of m s) a"
    and "msgq_exec m op s = (r, s')"
    and "msgq_spec (max_msgs (msgq_of m s)) (\<lambda>a. bytes a (msg_size (msgq_of m s)) (mem (objs s))) op
           (msgs (msgq_of m s) (mem (objs s))) = (v, got, xs')"
  shows "sched_ok s' \<and> msgq_ok m s' \<and> r = Ret v \<and> msgs (msgq_of m s') (mem (objs s')) = xs' \<and>
    (\<forall>x a. got = Some x \<longrightarrow> dest_of op = Some a \<longrightarrow> bytes a (msg_size (msgq_of m s)) (mem (objs s')) = x)"
proof -
  let ?q = "msgq_of m s" and ?m = "mem (objs s)"
  note wf = msgq_okD(1) [OF assms(2)]
  show ?thesis
  proof (cases op)
    case (MPut a)
    note f = msgq_refine_store [OF assms(1-3), where a = a and bk = True] and g = msgq_put_ok [OF assms(1,2), where n = K_NO_WAIT and data = a and bk = True]
    show ?thesis using f g(1,2) assms(5,6) by (auto simp: MPut k_msgq_put_def split: if_splits)
  next
    case (MPutFront a)
    note f = msgq_refine_store [OF assms(1-3), where a = a and bk = False] and g = msgq_put_ok [OF assms(1,2), where n = K_NO_WAIT and data = a and bk = False]
    show ?thesis using f g(1,2) assms(5,6) by (auto simp: MPutFront k_msgq_put_front_def split: if_splits)
  next
    case (MGet a)
    have ok: "sched_ok s'" "msgq_ok m s'"
      using msgq_get_ok(1,2) [OF assms(1,2), where n = K_NO_WAIT and data = a] assms(2,5) MGet by simp_all
    show ?thesis
    proof (cases "used_msgs ?q")
      case 0
      then have "msgs ?q ?m = []" by (simp add: msgs_def)
      with 0 ok assms(5,6) get_cases(3) [OF assms(1) 0, of a K_NO_WAIT] show ?thesis by (auto simp: MGet)
    next
      case (Suc u)
      then have l: "0 < used_msgs ?q" by simp
      note p = ring_pop [OF wf l] and g = get_cases(1) [OF assms(1) l assms(3), of a K_NO_WAIT]
      have ap: "apart ?q a" using assms(4) MGet by simp
      let ?q' = "?q\<lparr>read_ptr := adv_ptr ?q (read_ptr ?q), used_msgs := used_msgs ?q - 1\<rparr>"
      have "msgs ?q' (memcpy a (read_ptr ?q) (msg_size ?q) ?m) = msgs ?q' ?m"
        using msgs_apart [OF p(1), of a] ap by (simp add: apart_def)
      then show ?thesis using ok assms(5,6) g p(2) [of ?m] by (auto simp: MGet)
    qed
  next
    case (MPeekAt a i)
    have ap: "apart ?q a" using assms(4) MPeekAt by simp
    show ?thesis
    proof (cases "i < used_msgs ?q")
      case True
      have "s' = upd_mem (memcpy a (slot ?q (ridx ?q + i)) (msg_size ?q)) s" "r = Ret 0"
        using assms(5) True peek_at_slot [OF wf True]
        by (auto simp: MPeekAt k_msgq_peek_at_def Let_def split: if_splits)
      then show ?thesis using assms(1,2,6) True msgs_apart [OF wf ap]
        by (auto simp: MPeekAt msgq_ok_def nth_msgs)
    next
      case False
      then show ?thesis using assms(1,2,5,6) by (auto simp: MPeekAt k_msgq_peek_at_def Let_def)
    qed
  next
    case MPurge
    then show ?thesis using msgq_purge_ok(1,2,6) [OF assms(1) wf] assms(5,6) by auto
  qed
qed

text \<open>Two messages are stored and the main thread waits with a third one.\<close>

definition msgq_two :: kernel where
  "msgq_two = snd (k_msgq_put 0 30 K_NO_WAIT (snd (k_msgq_put 0 20 K_NO_WAIT app)))"

definition msgq_full :: kernel where
  "msgq_full = snd (k_msgq_put 0 40 K_FOREVER msgq_two)"

lemma app_msgq_ok: "m < 1000 \<Longrightarrow> msgq_ok m app"
  by (simp add: msgq_ok_def msgq_wf_def init_objs_def ridx_def slot_def)

lemma msgq_two_sel:
  "\<not> in_isr msgq_two" "current msgq_two = 2" "idle_thread msgq_two = 0" "waitq msgq_two = (\<lambda>_. [])"
  "mem (objs msgq_two) = memcpy 102 30 2 (memcpy 100 20 2 of_nat)"
  "msgq_of 0 msgq_two = \<lparr>msg_size = 2, max_msgs = 2, buffer_start = 100, buffer_end = 104, read_ptr = 100,
     write_ptr = 100, used_msgs = 2, msgq_alloc = False\<rparr>"
  by (simp_all add: msgq_two_def k_msgq_put_def put_msg_in_queue_def unpend_first_empty init_objs_def adv_ptr_def Let_def)

lemma msgq_full_ok: "sched_ok msgq_full" "msgq_ok 0 msgq_full"
proof -
  have s1: "sched_ok (snd (k_msgq_put 0 20 K_NO_WAIT app))" "msgq_ok 0 (snd (k_msgq_put 0 20 K_NO_WAIT app))"
    using msgq_put_ok(1,2) [OF app_ok app_msgq_ok, where n = K_NO_WAIT] by (simp_all add: k_msgq_put_def)
  have s2: "sched_ok msgq_two" "msgq_ok 0 msgq_two"
    using msgq_put_ok(1,2) [OF s1, where n = K_NO_WAIT] by (simp_all add: msgq_two_def k_msgq_put_def)
  show "sched_ok msgq_full" "msgq_ok 0 msgq_full"
    using msgq_put_ok(1,2) [OF s2, where n = K_FOREVER] msgq_two_sel
    by (simp_all add: msgq_full_def k_msgq_put_def timeout_fits_def)
qed

lemma msgq_full_sel:
  "waitq msgq_full (WqMsgq 0) = [2]" "objs msgq_full = objs msgq_two" "swap_data (threads msgq_full 2) = 40"
proof -
  have s2: "sched_ok msgq_two"
    using msgq_put_ok(1,2) [OF app_ok app_msgq_ok, where n = K_NO_WAIT] msgq_put_ok(1) [where n = K_NO_WAIT]
    by (simp add: msgq_two_def k_msgq_put_def)
  note p = put_full [of msgq_two 0 40 K_FOREVER True] and q = pend_with_data [OF s2, of K_FOREVER 0 40]
  show "waitq msgq_full (WqMsgq 0) = [2]" "objs msgq_full = objs msgq_two" "swap_data (threads msgq_full 2) = 40"
    using p q(4-6) by (simp_all add: msgq_full_def k_msgq_put_def msgq_two_sel timeout_fits_def prio_insert_def)
qed

theorem msgq_refines_list_witness:
  "msgs (msgq_of 0 app) (mem (objs app)) = [] \<and>
   msgs (msgq_of 0 (snd (k_msgq_put 0 20 K_NO_WAIT app))) (mem (objs (snd (k_msgq_put 0 20 K_NO_WAIT app)))) = [[20, 21]]"
proof -
  have e: "msgs (msgq_of 0 app) (mem (objs app)) = []" "max_msgs (msgq_of 0 app) = 2" "msg_size (msgq_of 0 app) = 2"
    "used_msgs (msgq_of 0 app) = 0" "bytes 20 2 (mem (objs app)) = [20, 21]"
    by (simp_all add: msgs_def init_objs_def bytes_def upt_conv_Cons)
  obtain r s' where p: "msgq_exec 0 (MPut 20) app = (r, s')" by fastforce
  from msgq_refines_list [OF app_ok app_msgq_ok [of 0] _ _ p, of 0 None "[[20, 21]]"] e p show ?thesis by simp
qed

text \<open>
  C18: a receiver that finds senders waiting on a full queue takes the oldest message, the message
  of the first waiting sender becomes the newest one in the queue, and that sender continues with result 0,
  so that messages arrive in the order in which they were sent, provided the receiver's buffer overlaps neither
  the ring nor the sender's buffer.
\<close>

theorem msgq_get_unblocks_sender:
  fixes m a :: nat and n :: int
  assumes "sched_ok s" and "msgq_ok m s" and "waitq s (WqMsgq m) = t # ts"
    and "msgs (msgq_of m s) (mem (objs s)) = x # xs" and "apart (msgq_of m s) a"
    and "a + msg_size (msgq_of m s) \<le> swap_data (threads s t) \<or> swap_data (threads s t) + msg_size (msgq_of m s) \<le> a"
  defines "s' \<equiv> snd (k_msgq_get m a n s)"
  shows "fst (k_msgq_get m a n s) = Ret 0 \<and> sched_ok s' \<and> resched_ok s' \<and> msgq_ok m s' \<and>
    bytes a (msg_size (msgq_of m s)) (mem (objs s')) = x \<and>
    msgs (msgq_of m s') (mem (objs s')) = xs @ [bytes (swap_data (threads s t)) (msg_size (msgq_of m s)) (mem (objs s))] \<and>
    waitq s' (WqMsgq m) = ts \<and> swap_retval (threads s' t) = 0 \<and> \<not> z_is_thread_pending (threads s' t)"
proof -
  let ?q = "msgq_of m s" and ?z = "msg_size (msgq_of m s)" and ?d = "swap_data (threads s t)"
  let ?q1 = "?q\<lparr>read_ptr := adv_ptr ?q (read_ptr ?q), used_msgs := used_msgs ?q - 1\<rparr>"
  let ?m1 = "memcpy a (read_ptr ?q) ?z (mem (objs s))"
  have u: "0 < used_msgs ?q" using arg_cong [OF assms(4), of length] by simp
  note wf = msgq_okD(1) [OF assms(2)] and h = get_hand [OF assms(1,2) u assms(3), where data = a and n = n, folded s'_def]
  note pop = ring_pop [OF wf u]
  have full: "used_msgs ?q = max_msgs ?q" using msgq_okD(3) [OF assms(2)] assms(3) u by simp
  have l: "used_msgs ?q1 < max_msgs ?q1" using u full by simp
  note push = ring_push_back(2) [OF pop(1) l, where a = ?d and mm = ?m1]
  have x: "x = bytes (read_ptr ?q) ?z (mem (objs s))" "xs = msgs ?q1 (mem (objs s))"
    using pop(2) [of "mem (objs s)"] assms(4) by simp_all
  have k1: "msgs ?q1 ?m1 = xs" using msgs_apart [OF pop(1), of a] assms(5) by (simp add: x apart_def)
  have k2: "bytes ?d ?z ?m1 = bytes ?d ?z (mem (objs s))" by (rule bytes_memcpy_other) (use assms(6) in auto)
  have "write_ptr ?q = slot ?q (ridx ?q + used_msgs ?q)" using wf by (simp add: msgq_wf_def)
  with slot_bounds [OF wf, of "ridx ?q + used_msgs ?q"] assms(5)
  have "bytes a ?z (mem (objs s')) = x" unfolding h(7)
    by (subst bytes_memcpy_other) (auto simp: apart_def x)
  moreover have "msgs (msgq_of m s') (mem (objs s')) = xs @ [bytes ?d ?z (mem (objs s))]"
    using push unfolding h(5,7) fun_upd_same k1 by (simp add: k2 del: One_nat_def)
  moreover have "msgq_ok m s'"
  proof -
    have "msgq_wf (msgq_of m s')" using ring_push_back(1) [OF pop(1) l] by (simp add: h(5))
    moreover have "used_msgs (msgq_of m s') = max_msgs (msgq_of m s')" using u full by (simp add: h(5))
    ultimately show ?thesis by (simp add: msgq_ok_def)
  qed
  ultimately show ?thesis using h(1-4,6) by (simp add: waked_sel(3)) (simp add: waked_def)
qed

theorem msgq_get_unblocks_sender_witness:
  "let s' = snd (k_msgq_get 0 60 K_NO_WAIT msgq_full)
   in waitq msgq_full (WqMsgq 0) = [2] \<and> bytes 60 2 (mem (objs s')) = [20, 21] \<and>
      msgs (msgq_of 0 s') (mem (objs s')) = [[30, 31], [40, 41]] \<and> swap_retval (threads s' 2) = 0"
proof -
  have "msgs (msgq_of 0 msgq_full) (mem (objs msgq_full)) = [[20, 21], [30, 31]]"
    "apart (msgq_of 0 msgq_full) 60" "msg_size (msgq_of 0 msgq_full) = 2" "bytes 40 2 (mem (objs msgq_full)) = [40, 41]"
    by (simp_all add: msgq_full_sel msgq_two_sel msgs_def ridx_def slot_def apart_def bytes_def memcpy_def upt_conv_Cons)
  then show ?thesis using msgq_full_sel
      msgq_get_unblocks_sender [OF msgq_full_ok, of 2 "[]" "[20, 21]" "[[30, 31]]" 60 K_NO_WAIT]
    by (simp add: Let_def)
qed

end
