(* ===== verification/Stack.thy ===== *)
theory Stack
  imports Kernel_Objects
begin

text \<open>
  Stacks of words, \<^verbatim>\<open>kernel/stack.c\<close>: an array that grows upwards from \<open>stk_base\<close>, in the word memory.
  A pointer to \<^verbatim>\<open>stack_data_t\<close> moves in steps of 4 bytes.  The allocator is an argument of the operations
  that use it.
\<close>

section \<open>Operations\<close>

abbreviation stack_of :: "nat \<Rightarrow> kernel \<Rightarrow> k_stack" where
  "stack_of m s \<equiv> stacks (objs s) m"

definition upd_stack :: "nat \<Rightarrow> (k_stack \<Rightarrow> k_stack) \<Rightarrow> kernel \<Rightarrow> kernel" where
  "upd_stack m f = upd_objs (\<lambda>b. b\<lparr>stacks := (stacks b)(m := f (stacks b m))\<rparr>)"

definition STACK_DATA_SIZE :: nat where "STACK_DATA_SIZE = 4"

definition k_stack_init :: "nat \<Rightarrow> nat \<Rightarrow> nat \<Rightarrow> kernel \<Rightarrow> kernel" where
  "k_stack_init m buffer num_entries s =
     upd_stack m (\<lambda>k. k\<lparr>stk_next := buffer, stk_base := buffer, stk_top := buffer + STACK_DATA_SIZE * num_entries\<rparr>)
       (z_waitq_init (WqStack m) s)"

definition k_stack_alloc_init ::
    "(nat \<Rightarrow> kernel \<Rightarrow> nat option \<times> kernel) \<Rightarrow> nat \<Rightarrow> nat \<Rightarrow> kernel \<Rightarrow> int \<times> kernel" where
  "k_stack_alloc_init thread_malloc m num_entries s =
     (if num_entries * STACK_DATA_SIZE \<ge> 2 ^ 32 then (- ENOMEM, s)
      else case thread_malloc (num_entries * STACK_DATA_SIZE) s of
             (Some buffer, s1) \<Rightarrow>
               (0, upd_stack m (\<lambda>k. k\<lparr>stk_alloc := True\<rparr>) (k_stack_init m buffer num_entries s1))
           | (None, s1) \<Rightarrow> (- ENOMEM, s1))"

definition k_stack_cleanup :: "(nat \<Rightarrow> kernel \<Rightarrow> kernel) \<Rightarrow> nat \<Rightarrow> kernel \<Rightarrow> int \<times> kernel" where
  "k_stack_cleanup free m s =
     (if z_waitq_head (WqStack m) s \<noteq> None then (- EAGAIN, s)
      else if stk_alloc (stack_of m s)
           then (0, upd_stack m (\<lambda>k. k\<lparr>stk_base := 0, stk_alloc := False\<rparr>) (free (stk_base (stack_of m s)) s))
           else (0, s))"

definition k_stack_push :: "nat \<Rightarrow> nat \<Rightarrow> kernel \<Rightarrow> int \<times> kernel" where
  "k_stack_push m data s =
     (let k = stack_of m s
      in if stk_next k = stk_top k then (- ENOMEM, s)
         else let (woke, s1) = z_sched_wake (WqStack m) 0 data s
              in if woke then (0, reschedule s1)
                 else (0, upd_stack m (\<lambda>k. k\<lparr>stk_next := stk_next k + STACK_DATA_SIZE\<rparr>)
                            (upd_words (stk_next k) data s1)))"

definition k_stack_pop :: "nat \<Rightarrow> nat \<Rightarrow> int \<Rightarrow> kernel \<Rightarrow> int kres \<times> kernel" where
  "k_stack_pop m data timeout s =
     (let k = stack_of m s
      in if stk_next k > stk_base k
         then let nx = stk_next k - STACK_DATA_SIZE
              in (Ret 0, upd_words data (words (objs s) nx) (upd_stack m (\<lambda>k. k\<lparr>stk_next := nx\<rparr>) s))
         else if timeout = K_NO_WAIT then (Ret (- EBUSY), s)
         else z_pend_curr (Some (WqStack m)) timeout s)"

definition k_stack_pop_resume :: "nat \<Rightarrow> kernel \<Rightarrow> int \<times> kernel" where
  "k_stack_pop_resume data s =
     (if do_swap_resume s = - EAGAIN then (- EAGAIN, s)
      else (0, upd_words data (swap_data (threads s (current s))) s))"

section \<open>The stack as a list\<close>

definition stack_items :: "k_stack \<Rightarrow> (nat \<Rightarrow> nat) \<Rightarrow> nat list" where
  "stack_items k w = rev (map (\<lambda>i. w (stk_base k + STACK_DATA_SIZE * i)) [0..<(stk_next k - stk_base k) div STACK_DATA_SIZE])"

definition stack_room :: "k_stack \<Rightarrow> nat" where
  "stack_room k = (stk_top k - stk_base k) div STACK_DATA_SIZE"

definition stack_ok :: "nat \<Rightarrow> kernel \<Rightarrow> bool" where
  "stack_ok m s \<longleftrightarrow> (let k = stack_of m s in stk_base k \<le> stk_next k \<and> stk_next k \<le> stk_top k \<and>
     STACK_DATA_SIZE dvd stk_next k - stk_base k \<and> STACK_DATA_SIZE dvd stk_top k - stk_base k \<and>
     (waitq s (WqStack m) \<noteq> [] \<longrightarrow> stk_next k = stk_base k))"

lemma upd_stack_sel [simp]:
  "objs (upd_stack m f s) = (objs s)\<lparr>stacks := (stacks (objs s))(m := f (stacks (objs s) m))\<rparr>"
  "waitq (upd_stack m f s) = waitq s" "threads (upd_stack m f s) = threads s" "current (upd_stack m f s) = current s"
  "in_isr (upd_stack m f s) = in_isr s" "idle_thread (upd_stack m f s) = idle_thread s"
  "sched_ok (upd_stack m f s) = sched_ok s" "resched_ok (upd_stack m f s) = resched_ok s"
  by (simp_all add: upd_stack_def)

lemma stack_itemsE:
  assumes "STACK_DATA_SIZE dvd stk_next k - stk_base k" "stk_base k \<le> stk_next k"
  obtains n where "stk_next k = stk_base k + STACK_DATA_SIZE * n"
    "stack_items k w = rev (map (\<lambda>i. w (stk_base k + STACK_DATA_SIZE * i)) [0..<n])"
proof -
  obtain n where "stk_next k - stk_base k = STACK_DATA_SIZE * n" using assms(1) by (auto simp: dvd_def)
  with assms(2) show thesis by (intro that [of n]) (simp_all add: stack_items_def STACK_DATA_SIZE_def)
qed

lemma stack_push_items:
  assumes "stack_ok m s" "stk_next (stack_of m s) \<noteq> stk_top (stack_of m s)"
  shows "stack_items ((stack_of m s)\<lparr>stk_next := stk_next (stack_of m s) + STACK_DATA_SIZE\<rparr>) (w(stk_next (stack_of m s) := v)) =
      v # stack_items (stack_of m s) w" "length (stack_items (stack_of m s) w) < stack_room (stack_of m s)"
    "stk_next (stack_of m s) + STACK_DATA_SIZE \<le> stk_top (stack_of m s)"
    "STACK_DATA_SIZE dvd stk_next (stack_of m s) + STACK_DATA_SIZE - stk_base (stack_of m s)"
proof -
  let ?k = "stack_of m s"
  have ok: "STACK_DATA_SIZE dvd stk_next ?k - stk_base ?k" "stk_base ?k \<le> stk_next ?k" "stk_next ?k \<le> stk_top ?k"
    "STACK_DATA_SIZE dvd stk_top ?k - stk_base ?k" using assms(1) by (simp_all add: stack_ok_def Let_def)
  obtain n where n: "stk_next ?k = stk_base ?k + STACK_DATA_SIZE * n"
    "stack_items ?k w = rev (map (\<lambda>i. w (stk_base ?k + STACK_DATA_SIZE * i)) [0..<n])" by (rule stack_itemsE [OF ok(1,2)])
  obtain t where "stk_top ?k - stk_base ?k = STACK_DATA_SIZE * t" using ok(4) by (auto simp: dvd_def)
  then have t: "stk_top ?k = stk_base ?k + STACK_DATA_SIZE * t" using ok by simp
  have nt: "n < t" using assms(2) ok(3) n t by (simp add: STACK_DATA_SIZE_def)
  show "stack_items (?k\<lparr>stk_next := stk_next ?k + STACK_DATA_SIZE\<rparr>) (w(stk_next ?k := v)) = v # stack_items ?k w"
    using n by (simp add: stack_items_def STACK_DATA_SIZE_def)
  show "length (stack_items ?k w) < stack_room ?k" using nt n t by (simp add: stack_room_def STACK_DATA_SIZE_def)
  show "stk_next ?k + STACK_DATA_SIZE \<le> stk_top ?k" "STACK_DATA_SIZE dvd stk_next ?k + STACK_DATA_SIZE - stk_base ?k"
    using nt n t by (simp_all add: STACK_DATA_SIZE_def)
qed

lemma stack_full_items:
  assumes "stack_ok m s" "stk_next (stack_of m s) = stk_top (stack_of m s)"
  shows "length (stack_items (stack_of m s) w) = stack_room (stack_of m s)"
  using assms(2) by (simp add: stack_items_def stack_room_def)

lemma stack_pop_items:
  assumes "stack_ok m s" "stk_base (stack_of m s) < stk_next (stack_of m s)"
  shows "stack_items (stack_of m s) w = w (stk_next (stack_of m s) - STACK_DATA_SIZE) #
      stack_items ((stack_of m s)\<lparr>stk_next := stk_next (stack_of m s) - STACK_DATA_SIZE\<rparr>) w"
    "stk_base (stack_of m s) \<le> stk_next (stack_of m s) - STACK_DATA_SIZE"
    "STACK_DATA_SIZE dvd stk_next (stack_of m s) - STACK_DATA_SIZE - stk_base (stack_of m s)"
proof -
  let ?k = "stack_of m s"
  have ok: "STACK_DATA_SIZE dvd stk_next ?k - stk_base ?k" "stk_base ?k \<le> stk_next ?k"
    using assms(1) by (simp_all add: stack_ok_def Let_def)
  obtain n where n: "stk_next ?k = stk_base ?k + STACK_DATA_SIZE * n"
    "stack_items ?k w = rev (map (\<lambda>i. w (stk_base ?k + STACK_DATA_SIZE * i)) [0..<n])" by (rule stack_itemsE [OF ok])
  then obtain j where "n = Suc j" using assms(2) by (cases n) (auto simp: STACK_DATA_SIZE_def)
  with n show "stack_items ?k w = w (stk_next ?k - STACK_DATA_SIZE) # stack_items (?k\<lparr>stk_next := stk_next ?k - STACK_DATA_SIZE\<rparr>) w"
    "stk_base ?k \<le> stk_next ?k - STACK_DATA_SIZE" "STACK_DATA_SIZE dvd stk_next ?k - STACK_DATA_SIZE - stk_base ?k"
    by (simp_all add: stack_items_def STACK_DATA_SIZE_def)
qed

lemma stack_items_other:
  assumes "a < stk_base k \<or> stk_next k \<le> a"
  shows "stack_items k (w(a := v)) = stack_items k w"
proof -
  have "stk_base k + STACK_DATA_SIZE * i \<noteq> a" if "i < (stk_next k - stk_base k) div STACK_DATA_SIZE" for i
    using that assms by (auto simp: STACK_DATA_SIZE_def)
  then show ?thesis by (simp add: stack_items_def)
qed

section \<open>Effect of the operations\<close>

lemma stack_push_cases:
  assumes s: "sched_ok s"
  shows "stk_next (stack_of m s) = stk_top (stack_of m s) \<Longrightarrow> k_stack_push m v s = (- ENOMEM, s)"
    "stk_next (stack_of m s) \<noteq> stk_top (stack_of m s) \<Longrightarrow> waitq s (WqStack m) = [] \<Longrightarrow>
       k_stack_push m v s = (0, upd_stack m (\<lambda>k. k\<lparr>stk_next := stk_next k + STACK_DATA_SIZE\<rparr>)
         (upd_words (stk_next (stack_of m s)) v s))"
    "stk_next (stack_of m s) \<noteq> stk_top (stack_of m s) \<Longrightarrow> waitq s (WqStack m) = t # ts \<Longrightarrow>
       k_stack_push m v s = (0, reschedule (wake_turn (\<lambda>th. th\<lparr>swap_retval := 0, swap_data := v\<rparr>) t s))"
  using sched_wake_turn [OF sched_okD(1) [OF s], of "WqStack m"]
  by (auto simp: k_stack_push_def sched_wake_empty Let_def)

datatype stack_op = KPush nat | KPop nat int

fun stack_exec :: "nat \<Rightarrow> stack_op \<Rightarrow> kernel \<Rightarrow> int kres \<times> kernel" where
  "stack_exec m (KPush v) s = map_prod Ret id (k_stack_push m v s)"
| "stack_exec m (KPop a n) s = k_stack_pop m a n s"

text \<open>
  A bounded stack with a queue of waiting readers: a step gives the result, the thread that gets
  a value, the value popped, the new stack and the new queue.
\<close>

fun stack_spec :: "nat \<Rightarrow> (tid list \<Rightarrow> tid list) \<Rightarrow> stack_op \<Rightarrow> nat list \<times> tid list \<Rightarrow>
    int kres \<times> (tid \<times> nat) option \<times> nat option \<times> nat list \<times> tid list" where
  "stack_spec room ins (KPush v) (xs, ts) =
     (if length xs = room then (Ret (- ENOMEM), None, None, xs, ts)
      else case ts of [] \<Rightarrow> (Ret 0, None, None, v # xs, [])
                    | t # ts' \<Rightarrow> (Ret 0, Some (t, v), None, xs, ts'))"
| "stack_spec room ins (KPop a n) (x # xs, ts) = (Ret 0, None, Some x, xs, ts)"
| "stack_spec room ins (KPop a n) ([], ts) =
     (if n = K_NO_WAIT then (Ret (- EBUSY), None, None, [], ts) else (Swapped, None, None, [], ins ts))"

lemma stack_exec_rule:
  assumes "sched_ok s" and "stack_ok m s"
    and "\<And>a n. op = KPop a n \<Longrightarrow> a < stk_base (stack_of m s) \<or> stk_top (stack_of m s) \<le> a"
    and "\<And>a n. op = KPop a n \<Longrightarrow> n \<noteq> K_NO_WAIT \<Longrightarrow> \<not> in_isr s \<and> current s \<noteq> idle_thread s \<and> timeout_fits n s"
    and "stack_spec (stack_room (stack_of m s)) (prio_insert (threads s) (current s)) op
           (stack_items (stack_of m s) (words (objs s)), waitq s (WqStack m)) = (r, handed, popped, xs, ts)"
  shows "fst (stack_exec m op s) = r \<and>
    (let s' = snd (stack_exec m op s)
     in obj_step (WqStack m) s s' \<and> stack_ok m s' \<and>
        objs s' = (objs s)\<lparr>stacks := (stacks (objs s))(m := stack_of m s'), words := words (objs s')\<rparr> \<and> stack_items (stack_of m s') (words (objs s')) = xs \<and>
        waitq s' (WqStack m) = ts \<and>
        (\<forall>t v. handed = Some (t, v) \<longrightarrow> swap_retval (threads s' t) = 0 \<and> swap_data (threads s' t) = v \<and> pended_on (threads s' t) = None) \<and>
        (\<forall>v a n. popped = Some v \<longrightarrow> op = KPop a n \<longrightarrow> words (objs s') a = v))"
proof (cases op)
  case (KPush v)
  show ?thesis
  proof (cases "stk_next (stack_of m s) = stk_top (stack_of m s)")
    case True
    show ?thesis using KPush assms(1,2,5) stack_push_cases(1) [OF assms(1) True, of v] stack_full_items [OF assms(2) True]
        obj_step_quiet [OF assms(1), of "WqStack m" "\<lambda>x. x"]
      by (auto simp: Let_def upd_objs_def)
  next
    case False
    note f = stack_push_items(1) [OF assms(2) False, of "words (objs s)" v]
      stack_push_items(2) [OF assms(2) False, of "words (objs s)"] stack_push_items(3,4) [OF assms(2) False]
    show ?thesis
    proof (cases "waitq s (WqStack m)")
      case Nil
      note c = stack_push_cases(2) [OF assms(1) False Nil, of v]
      have st: "obj_step (WqStack m) s (snd (k_stack_push m v s))"
        unfolding c upd_stack_def upd_words_def snd_conv by (intro obj_step_objs obj_step_quiet assms(1))
      show ?thesis using KPush assms(2,5) Nil c f st
        by (auto simp: Let_def stack_ok_def)
    next
      case w: (Cons t us)
      note c = stack_push_cases(3) [OF assms(1) False w, of v]
      define z where "z = reschedule (wake_turn (\<lambda>th. th\<lparr>swap_retval := 0, swap_data := v\<rparr>) t s)"
      note r = wake_resched_rule [OF assms(1) w keeps_retval(1) [where r = 0 and d = v], folded z_def]
      have "swap_retval (threads z t) = 0 \<and> swap_data (threads z t) = v \<and> pended_on (threads z t) = None"
        by (simp add: r(9) waked_def)
      moreover have "obj_step (WqStack m) s z" unfolding z_def by (rule obj_step_hand [OF assms(1) w]) simp
      ultimately show ?thesis using KPush assms(2,5) w c f(2) r(3,4)
        by (auto simp: Let_def stack_ok_def z_def [symmetric])
    qed
  qed
next
  case (KPop a n)
  have ok: "stk_base (stack_of m s) \<le> stk_next (stack_of m s)" "stk_next (stack_of m s) \<le> stk_top (stack_of m s)"
    using assms(2) by (simp_all add: stack_ok_def Let_def)
  show ?thesis
  proof (cases "stk_base (stack_of m s) < stk_next (stack_of m s)")
    case True
    note f = stack_pop_items [OF assms(2) True]
    let ?k = "(stack_of m s)\<lparr>stk_next := stk_next (stack_of m s) - STACK_DATA_SIZE\<rparr>"
    have it: "stack_items ?k ((words (objs s))(a := v)) = stack_items ?k (words (objs s))" for v
      using assms(3) [OF KPop] ok by (intro stack_items_other) (auto simp: STACK_DATA_SIZE_def)
    have c: "k_stack_pop m a n s = (Ret 0, upd_words a (words (objs s) (stk_next (stack_of m s) - STACK_DATA_SIZE))
        (upd_stack m (\<lambda>k. k\<lparr>stk_next := stk_next (stack_of m s) - STACK_DATA_SIZE\<rparr>) s))"
      using True by (simp add: k_stack_pop_def Let_def)
    have st: "obj_step (WqStack m) s (snd (k_stack_pop m a n s))"
      unfolding c upd_stack_def upd_words_def snd_conv by (intro obj_step_objs obj_step_quiet assms(1))
    have "waitq s (WqStack m) = []" using assms(2) True by (auto simp: stack_ok_def Let_def)
    with KPop assms(2,5) c f it st ok show ?thesis
      by (auto simp: Let_def stack_ok_def)
  next
    case False
    then have e: "stack_items (stack_of m s) w = []" for w by (simp add: stack_items_def)
    have c: "k_stack_pop m a n s = (if n = K_NO_WAIT then (Ret (- EBUSY), s) else z_pend_curr (Some (WqStack m)) n s)"
      using False by (simp add: k_stack_pop_def Let_def)
    show ?thesis
    proof (cases "n = K_NO_WAIT")
      case True
      then show ?thesis using KPop assms(1,2,5) e c obj_step_quiet [OF assms(1), of "WqStack m" "\<lambda>x. x"]
        by (auto simp: Let_def upd_objs_def)
    next
      case nz: False
      note b = obj_step_wait [OF assms(1), of n "WqStack m", simplified]
      show ?thesis using KPop assms(2,4,5) e c nz b ok False by (auto simp: Let_def stack_ok_def)
    qed
  qed
qed

section \<open>Property\<close>

text \<open>
  C20: \<^verbatim>\<open>k_stack_push\<close> and \<^verbatim>\<open>k_stack_pop\<close> on the array implement a bounded stack: a push goes to the first
  waiting reader, else on top, or fails with -ENOMEM when the stack is full; a pop takes the newest
  value into a word outside the array, fails with -EBUSY, or waits.
\<close>

theorem stack_refines_list:
  assumes "sched_ok s" and "stack_ok m s"
    and "\<And>a n. op = KPop a n \<Longrightarrow> a < stk_base (stack_of m s) \<or> stk_top (stack_of m s) \<le> a"
    and "\<And>a n. op = KPop a n \<Longrightarrow> n \<noteq> K_NO_WAIT \<Longrightarrow> \<not> in_isr s \<and> current s \<noteq> idle_thread s \<and> timeout_fits n s"
    and "stack_spec (stack_room (stack_of m s)) (prio_insert (threads s) (current s)) op
           (stack_items (stack_of m s) (words (objs s)), waitq s (WqStack m)) = (r, handed, popped, xs, ts)"
  shows "fst (stack_exec m op s) = r \<and>
    (let s' = snd (stack_exec m op s)
     in obj_step (WqStack m) s s' \<and> stack_ok m s' \<and> stack_items (stack_of m s') (words (objs s')) = xs \<and>
        waitq s' (WqStack m) = ts \<and>
        (\<forall>t v. handed = Some (t, v) \<longrightarrow> swap_retval (threads s' t) = 0 \<and> swap_data (threads s' t) = v \<and> pended_on (threads s' t) = None) \<and>
        (\<forall>v a n. popped = Some v \<longrightarrow> op = KPop a n \<longrightarrow> words (objs s') a = v))"
  using stack_exec_rule [OF assms] by (simp add: Let_def)

lemma app_stack_ok: "stack_ok m app"
  by (simp add: stack_ok_def init_objs_def STACK_DATA_SIZE_def Let_def)

definition stack_reader :: kernel where
  "stack_reader = snd (k_stack_pop 0 4 K_FOREVER app)"

lemma stack_reader_ok: "sched_ok stack_reader" "stack_ok 0 stack_reader"
proof -
  have e: "stack_items (stack_of 0 app) (words (objs app)) = []"
    by (simp add: stack_items_def init_objs_def)
  have "4 < stk_base (stack_of 0 app)" by (simp add: init_objs_def)
  with e stack_exec_rule [OF app_ok app_stack_ok, of "KPop 4 K_FOREVER" 0]
  show "sched_ok stack_reader" "stack_ok 0 stack_reader" by (auto simp: stack_reader_def obj_step_def Let_def)
qed

theorem stack_refines_list_witness:
  "waitq stack_reader (WqStack 0) = [2] \<and> current stack_reader = 3 \<and>
   (let s' = snd (k_stack_push 0 77 stack_reader)
    in waitq s' (WqStack 0) = [] \<and> swap_retval (threads s' 2) = 0 \<and> swap_data (threads s' 2) = 77 \<and>
       stack_items (stack_of 0 s') (words (objs s')) = [])"
proof -
  have e: "waitq stack_reader (WqStack 0) = [2]" "current stack_reader = 3"
    "stack_items (stack_of 0 stack_reader) (words (objs stack_reader)) = []" "stack_room (stack_of 0 stack_reader) = 2"
    by code_simp+
  show ?thesis using stack_refines_list [OF stack_reader_ok, of "KPush 77" "Ret 0" "Some (2, 77)" None "[]" "[]"] e
    by (simp add: Let_def)
qed

end
