(* ===== verification/Mem_Slab.thy ===== *)
theory Mem_Slab
  imports Kernel_Objects
begin

text \<open>
  Memory slabs, \<^verbatim>\<open>kernel/mem_slab.c\<close>: blocks of one size, the free ones linked through their first
  word.  Address 0 is the null pointer.  Pointer validation and the trace of the maximum
  utilization are configured; statistics for the object core are not.
\<close>

unbundle bit_operations_syntax

section \<open>Operations\<close>

abbreviation slab_of :: "nat \<Rightarrow> kernel \<Rightarrow> k_mem_slab" where
  "slab_of m s \<equiv> slabs (objs s) m"

definition upd_slab :: "nat \<Rightarrow> (k_mem_slab \<Rightarrow> k_mem_slab) \<Rightarrow> kernel \<Rightarrow> kernel" where
  "upd_slab m f = upd_objs (\<lambda>b. b\<lparr>slabs := (slabs b)(m := f (slabs b m))\<rparr>)"

definition POINTER_SIZE :: nat where "POINTER_SIZE = 4"

text \<open>The loop of \<^verbatim>\<open>create_free_list\<close>; its pointer may step below the buffer after the last block.\<close>

fun free_list_loop :: "nat \<Rightarrow> nat \<Rightarrow> nat \<Rightarrow> nat \<Rightarrow> kernel \<Rightarrow> kernel" where
  "free_list_loop 0 m bs p s = s"
| "free_list_loop (Suc n) m bs p s =
     free_list_loop n m bs ((p + 2 ^ 32 - bs) mod 2 ^ 32)
       (upd_slab m (\<lambda>b. b\<lparr>free_list := p\<rparr>) (upd_words p (free_list (slab_of m s)) s))"

definition create_free_list :: "nat \<Rightarrow> kernel \<Rightarrow> int \<times> kernel" where
  "create_free_list m s =
     (let b = slab_of m s; total = block_size b * num_blocks b
      in if block_size b = 0 then (- EINVAL, s)
         else if (block_size b OR slab_buffer b) AND (POINTER_SIZE - 1) \<noteq> 0 then (- EINVAL, s)
         else if total \<ge> 2 ^ 32 then (- EINVAL, s)
         else if slab_buffer b + total \<ge> 2 ^ 32 then (- EINVAL, s)
         else (0, free_list_loop (num_blocks b) m (block_size b) ((slab_buffer b + total + 2 ^ 32 - block_size b) mod 2 ^ 32)
                    (upd_slab m (\<lambda>b. b\<lparr>free_list := 0\<rparr>) s)))"

definition k_mem_slab_init :: "nat \<Rightarrow> nat \<Rightarrow> nat \<Rightarrow> nat \<Rightarrow> kernel \<Rightarrow> int \<times> kernel" where
  "k_mem_slab_init m buffer bs n s =
     (let s1 = upd_slab m (\<lambda>b. b\<lparr>num_blocks := n, block_size := bs, slab_buffer := buffer, num_used := 0, max_used := 0\<rparr>) s;
          (rc, s2) = create_free_list m s1
      in if rc < 0 then (rc, s2) else (rc, z_waitq_init (WqSlab m) s2))"

definition slab_ptr_is_good :: "k_mem_slab \<Rightarrow> nat \<Rightarrow> bool" where
  "slab_ptr_is_good b p \<longleftrightarrow> p \<ge> slab_buffer b \<and> p - slab_buffer b < block_size b * num_blocks b \<and>
     (p - slab_buffer b) mod block_size b = 0"

text \<open>The address \<open>mem'\<close> of the result is written in the word memory.\<close>

definition k_mem_slab_alloc :: "nat \<Rightarrow> nat \<Rightarrow> int \<Rightarrow> kernel \<Rightarrow> int kres \<times> kernel" where
  "k_mem_slab_alloc m mem' timeout s =
     (let b = slab_of m s
      in if free_list b \<noteq> 0
         then let s1 = upd_words mem' (free_list b) s;
                  s2 = upd_slab m (\<lambda>b. b\<lparr>free_list := words (objs s1) (free_list b), num_used := (num_used b + 1) mod 2 ^ 32\<rparr>) s1
              in (Ret 0, upd_slab m (\<lambda>b. b\<lparr>max_used := max (num_used b) (max_used b)\<rparr>) s2)
         else if timeout = K_NO_WAIT then (Ret (- ENOMEM), upd_words mem' 0 s)
         else z_pend_curr (Some (WqSlab m)) timeout s)"

definition k_mem_slab_alloc_resume :: "nat \<Rightarrow> kernel \<Rightarrow> int \<times> kernel" where
  "k_mem_slab_alloc_resume mem' s =
     (let result = do_swap_resume s
      in (result, if result = 0 then upd_words mem' (swap_data (threads s (current s))) s else s))"

definition k_mem_slab_free :: "nat \<Rightarrow> nat \<Rightarrow> kernel \<Rightarrow> kernel" where
  "k_mem_slab_free m p s =
     (if \<not> slab_ptr_is_good (slab_of m s) p then k_panic s
      else let (woke, s1) = (if free_list (slab_of m s) = 0 then z_sched_wake (WqSlab m) 0 p s else (False, s))
           in if woke then reschedule s1
              else upd_slab m (\<lambda>b. b\<lparr>free_list := p, num_used := (num_used b + 2 ^ 32 - 1) mod 2 ^ 32\<rparr>)
                     (upd_words p (free_list (slab_of m s1)) s1))"

definition k_mem_slab_num_used_get :: "nat \<Rightarrow> kernel \<Rightarrow> nat" where
  "k_mem_slab_num_used_get m s = num_used (slab_of m s)"

definition k_mem_slab_max_used_get :: "nat \<Rightarrow> kernel \<Rightarrow> nat" where
  "k_mem_slab_max_used_get m s = max_used (slab_of m s)"

definition k_mem_slab_num_free_get :: "nat \<Rightarrow> kernel \<Rightarrow> nat" where
  "k_mem_slab_num_free_get m s = num_blocks (slab_of m s) - num_used (slab_of m s)"

text \<open>Free, allocated and maximal bytes; the products are those of \<^verbatim>\<open>size_t\<close>.\<close>

definition k_mem_slab_runtime_stats_get :: "nat \<Rightarrow> kernel \<Rightarrow> nat \<times> nat \<times> nat" where
  "k_mem_slab_runtime_stats_get m s =
     (let b = slab_of m s
      in (num_used b * block_size b mod 2 ^ 32,
          ((num_blocks b + 2 ^ 32 - num_used b) mod 2 ^ 32) * block_size b mod 2 ^ 32,
          max_used b * block_size b mod 2 ^ 32))"

definition k_mem_slab_runtime_stats_reset_max :: "nat \<Rightarrow> kernel \<Rightarrow> kernel" where
  "k_mem_slab_runtime_stats_reset_max m s = upd_slab m (\<lambda>b. b\<lparr>max_used := num_used b\<rparr>) s"

section \<open>The free list\<close>

text \<open>The blocks on the list that starts at an address.\<close>

inductive linked :: "(nat \<Rightarrow> nat) \<Rightarrow> nat \<Rightarrow> nat list \<Rightarrow> bool" for w where
  linked_nil: "linked w 0 []"
| linked_cons: "p \<noteq> 0 \<Longrightarrow> linked w (w p) ps \<Longrightarrow> linked w p (p # ps)"

inductive_simps linked_simps [simp]: "linked w p []" "linked w p (q # ps)" "linked w 0 ps"

definition slab_blocks :: "k_mem_slab \<Rightarrow> nat list" where
  "slab_blocks b = map (\<lambda>i. slab_buffer b + i * block_size b) [0..<num_blocks b]"

text \<open>
  The free list holds distinct blocks of the slab, as many as are not in use; threads wait only
  while it is empty.
\<close>

definition slab_ok :: "nat \<Rightarrow> nat list \<Rightarrow> kernel \<Rightarrow> bool" where
  "slab_ok m ps s \<longleftrightarrow> (let b = slab_of m s in linked (words (objs s)) (free_list b) ps \<and> distinct ps \<and>
     set ps \<subseteq> set (slab_blocks b) \<and> num_used b + length ps = num_blocks b \<and>
     num_used b \<le> max_used b \<and> max_used b \<le> num_blocks b \<and>
     0 < slab_buffer b \<and> 0 < block_size b \<and> num_blocks b < 2 ^ 32 \<and>
     (waitq s (WqSlab m) \<noteq> [] \<longrightarrow> ps = []))"

lemma linked_other: "linked w p ps \<Longrightarrow> a \<notin> set ps \<Longrightarrow> linked (w(a := v)) p ps"
  by (induction rule: linked.induct) auto

lemma linked_unique: "linked w p ps \<Longrightarrow> linked w p qs \<Longrightarrow> qs = ps"
proof (induction arbitrary: qs rule: linked.induct)
  case (linked_cons p ps)
  from linked_cons.prems linked_cons.hyps(1) obtain rs where "qs = p # rs" "linked w (w p) rs"
    by (auto elim: linked.cases)
  with linked_cons.IH show ?case by simp
qed simp

lemma slab_blocks_distinct: "0 < block_size b \<Longrightarrow> distinct (slab_blocks b)"
  by (auto simp: slab_blocks_def distinct_map inj_on_def)

lemma slab_ptr_is_good_iff: "0 < block_size b \<Longrightarrow> slab_ptr_is_good b p \<longleftrightarrow> p \<in> set (slab_blocks b)"
proof
  assume b: "0 < block_size b" and g: "slab_ptr_is_good b p"
  then obtain i where i: "p - slab_buffer b = i * block_size b" by (auto simp: slab_ptr_is_good_def dvd_def mod_eq_0_iff_dvd)
  have "slab_buffer b \<le> p" "i * block_size b < num_blocks b * block_size b"
    using g i by (simp_all add: slab_ptr_is_good_def mult.commute)
  moreover from this(1) i have "p = slab_buffer b + i * block_size b" by linarith
  ultimately show "p \<in> set (slab_blocks b)" by (auto simp: slab_blocks_def)
qed (auto simp: slab_ptr_is_good_def slab_blocks_def mult.commute)

lemma upd_slab_sel [simp]:
  "objs (upd_slab m f s) = (objs s)\<lparr>slabs := (slabs (objs s))(m := f (slabs (objs s) m))\<rparr>"
  "waitq (upd_slab m f s) = waitq s" "threads (upd_slab m f s) = threads s" "current (upd_slab m f s) = current s"
  "in_isr (upd_slab m f s) = in_isr s" "idle_thread (upd_slab m f s) = idle_thread s"
  "sched_ok (upd_slab m f s) = sched_ok s" "resched_ok (upd_slab m f s) = resched_ok s"
  by (simp_all add: upd_slab_def)

lemma linked_zero: "linked w p ps \<Longrightarrow> p = 0 \<longleftrightarrow> ps = []"
  by (auto elim: linked.cases)

lemma free_list_loop_sel [simp]:
  "waitq (free_list_loop n m bs p s) = waitq s" "sched_ok (free_list_loop n m bs p s) = sched_ok s"
  "k \<noteq> m \<Longrightarrow> slab_of k (free_list_loop n m bs p s) = slab_of k s"
  "slab_buffer (slab_of m (free_list_loop n m bs p s)) = slab_buffer (slab_of m s)"
  "block_size (slab_of m (free_list_loop n m bs p s)) = block_size (slab_of m s)"
  "num_blocks (slab_of m (free_list_loop n m bs p s)) = num_blocks (slab_of m s)"
  "num_used (slab_of m (free_list_loop n m bs p s)) = num_used (slab_of m s)"
  "max_used (slab_of m (free_list_loop n m bs p s)) = max_used (slab_of m s)"
  by (induction n arbitrary: p s) simp_all

lemma free_list_loop_linked:
  assumes "linked (words (objs s)) (free_list (slab_of m s)) qs" and "\<forall>q \<in> set qs. a + n * bs \<le> q"
    and "0 < a" "0 < bs" "a + n * bs < 2 ^ 32" and "0 < n \<Longrightarrow> p = a + (n - 1) * bs"
  defines "s' \<equiv> free_list_loop n m bs p s"
  shows "linked (words (objs s')) (free_list (slab_of m s')) (map (\<lambda>i. a + i * bs) [0..<n] @ qs)"
  using assms(1,2,5,6) unfolding s'_def
proof (induction n arbitrary: p s qs)
  case (Suc n)
  let ?s = "upd_slab m (\<lambda>b. b\<lparr>free_list := p\<rparr>) (upd_words p (free_list (slab_of m s)) s)"
  have p: "p = a + n * bs" using Suc.prems(4) by simp
  have "p \<notin> set qs" using Suc.prems(2) p assms(4) by auto
  then have l: "linked (words (objs ?s)) (free_list (slab_of m ?s)) (p # qs)"
    using Suc.prems(1) p assms(3) by (simp add: linked_other)
  have st: "(p + 2 ^ 32 - bs) mod 2 ^ 32 = a + (n - 1) * bs" if n0: "0 < n"
  proof -
    obtain k where k: "n = Suc k" using n0 by (cases n) auto
    have e: "p + 2 ^ 32 - bs = 2 ^ 32 + (a + k * bs)" using p k by simp
    have "a + k * bs < 2 ^ 32" using Suc.prems(3) k by simp
    then show ?thesis unfolding e by (simp add: k)
  qed
  have "\<forall>q \<in> set (p # qs). a + n * bs \<le> q" using Suc.prems(2) p by auto
  from Suc.IH [OF l this _ st] Suc.prems(3) have
    "linked (words (objs (free_list_loop (Suc n) m bs p s))) (free_list (slab_of m (free_list_loop (Suc n) m bs p s)))
       (map (\<lambda>i. a + i * bs) [0..<n] @ p # qs)" by simp
  then show ?case using p by simp
qed simp

lemma aligned_iff: "(a OR b) AND 3 = (0 :: nat) \<longleftrightarrow> 4 dvd a \<and> 4 dvd b"
proof -
  have "(a OR b) AND 3 = take_bit 2 (a OR b)" using take_bit_eq_mask [of 2 "a OR b"] by (simp add: mask_eq_exp_minus_1)
  also have "\<dots> = take_bit 2 a OR take_bit 2 b" by (simp add: take_bit_or)
  finally show ?thesis by (simp add: or_eq_0_iff take_bit_eq_mod dvd_eq_mod_eq_0)
qed

lemma slab_init_ok:
  assumes "sched_ok s" "waitq s (WqSlab m) = []" "0 < buffer" "0 < bs" "4 dvd bs" "4 dvd buffer" "buffer + bs * n < 2 ^ 32"
  defines "s' \<equiv> snd (k_mem_slab_init m buffer bs n s)"
  shows "fst (k_mem_slab_init m buffer bs n s) = 0" "slab_ok m (slab_blocks (slab_of m s')) s'" "sched_ok s'"
    "slab_blocks (slab_of m s') = map (\<lambda>i. buffer + i * bs) [0..<n]"
proof -
  let ?s1 = "upd_slab m (\<lambda>b. b\<lparr>num_blocks := n, block_size := bs, slab_buffer := buffer, num_used := 0, max_used := 0\<rparr>) s"
  let ?s2 = "upd_slab m (\<lambda>b. b\<lparr>free_list := 0\<rparr>) ?s1"
  let ?p = "(buffer + bs * n + 2 ^ 32 - bs) mod 2 ^ 32"
  let ?s3 = "free_list_loop n m bs ?p ?s2"
  have al: "(bs OR buffer) AND (POINTER_SIZE - 1) = 0" using assms(5,6) aligned_iff [of bs buffer] by (simp add: POINTER_SIZE_def)
  have b: "bs * n < 2 ^ 32" "num_blocks (slab_of m ?s1) = n" using assms(7) by simp_all
  have c: "create_free_list m ?s1 = (0, ?s3)" using al assms(4,7) b by (simp add: create_free_list_def)
  have w: "z_waitq_init (WqSlab m) ?s3 = ?s3" using assms(2)
    by (simp add: z_waitq_init_def z_priq_simple_init_def fun_upd_idem)
  have e: "k_mem_slab_init m buffer bs n s = (0, ?s3)" using c w by (simp add: k_mem_slab_init_def Let_def)
  have p: "?p = buffer + (n - 1) * bs" if n0: "0 < n"
  proof -
    obtain k where k: "n = Suc k" using n0 by (cases n) auto
    have e: "buffer + bs * n + 2 ^ 32 - bs = 2 ^ 32 + (buffer + k * bs)" using k by (simp add: mult.commute)
    have "buffer + k * bs < 2 ^ 32" using assms(7) k by (simp add: mult.commute)
    then show ?thesis unfolding e by (simp add: k)
  qed
  have l: "linked (words (objs ?s3)) (free_list (slab_of m ?s3)) (map (\<lambda>i. buffer + i * bs) [0..<n] @ [])"
    by (rule free_list_loop_linked [OF _ _ assms(3,4)]) (use p assms(7) in \<open>simp_all add: mult.commute\<close>)
  show "fst (k_mem_slab_init m buffer bs n s) = 0" by (simp add: e)
  show bl: "slab_blocks (slab_of m s') = map (\<lambda>i. buffer + i * bs) [0..<n]" by (simp add: s'_def e slab_blocks_def)
  show "sched_ok s'" using assms(1) by (simp add: s'_def e)
  have "n \<le> bs * n" using assms(4) by simp
  then have "n < 2 ^ 32" using b(1) by linarith
  then show "slab_ok m (slab_blocks (slab_of m s')) s'" unfolding slab_ok_def bl
    using l assms(2-4) by (auto simp: s'_def e Let_def distinct_map inj_on_def slab_blocks_def)
qed

section \<open>Effect of the operations\<close>

datatype slab_op = SlabAlloc nat int | SlabFree nat

fun slab_exec :: "nat \<Rightarrow> slab_op \<Rightarrow> kernel \<Rightarrow> int kres \<times> kernel" where
  "slab_exec m (SlabAlloc a n) s = k_mem_slab_alloc m a n s"
| "slab_exec m (SlabFree p) s = (Ret 0, k_mem_slab_free m p s)"

text \<open>
  A pool of blocks with a queue of waiting threads: a step gives the result, the address written
  for the caller, the thread that is handed a block, the new free list and the new queue.
\<close>

fun slab_spec :: "(tid list \<Rightarrow> tid list) \<Rightarrow> slab_op \<Rightarrow> nat list \<times> tid list \<Rightarrow>
    int kres \<times> nat option \<times> (tid \<times> nat) option \<times> nat list \<times> tid list" where
  "slab_spec ins (SlabAlloc a n) (p # ps, ts) = (Ret 0, Some p, None, ps, ts)"
| "slab_spec ins (SlabAlloc a n) ([], ts) =
     (if n = K_NO_WAIT then (Ret (- ENOMEM), Some 0, None, [], ts) else (Swapped, None, None, [], ins ts))"
| "slab_spec ins (SlabFree p) ([], t # ts) = (Ret 0, None, Some (t, p), [], ts)"
| "slab_spec ins (SlabFree p) (ps, ts) = (Ret 0, None, None, p # ps, ts)"

lemma slab_okD:
  assumes "slab_ok m ps s"
  shows "linked (words (objs s)) (free_list (slab_of m s)) ps" "distinct ps" "set ps \<subseteq> set (slab_blocks (slab_of m s))"
    "num_used (slab_of m s) + length ps = num_blocks (slab_of m s)" "num_used (slab_of m s) \<le> max_used (slab_of m s)"
    "max_used (slab_of m s) \<le> num_blocks (slab_of m s)" "0 < slab_buffer (slab_of m s)" "0 < block_size (slab_of m s)"
    "num_blocks (slab_of m s) < 2 ^ 32" "waitq s (WqSlab m) \<noteq> [] \<Longrightarrow> ps = []"
    "free_list (slab_of m s) = 0 \<longleftrightarrow> ps = []"
proof -
  show l: "linked (words (objs s)) (free_list (slab_of m s)) ps" using assms by (simp add: slab_ok_def Let_def)
  show "free_list (slab_of m s) = 0 \<longleftrightarrow> ps = []" by (rule linked_zero [OF l])
qed (use assms in \<open>simp_all add: slab_ok_def Let_def\<close>)

lemma slab_blocks_cong:
  "slab_buffer b' = slab_buffer b \<Longrightarrow> block_size b' = block_size b \<Longrightarrow> num_blocks b' = num_blocks b \<Longrightarrow> slab_blocks b' = slab_blocks b"
  by (simp add: slab_blocks_def)

lemma slab_alloc_rule:
  fixes n :: int
  assumes s: "sched_ok s" and k: "slab_ok m (p # ps) s" and a: "a \<notin> set (slab_blocks (slab_of m s))"
  defines "s' \<equiv> snd (k_mem_slab_alloc m a n s)"
  shows "fst (k_mem_slab_alloc m a n s) = Ret 0" "obj_step (WqSlab m) s s'" "slab_ok m ps s'" "words (objs s') a = p"
    "waitq s' = waitq s" "num_used (slab_of m s') = num_used (slab_of m s) + 1"
    "objs s' = (objs s)\<lparr>slabs := (slabs (objs s))(m := slab_of m s'), words := words (objs s')\<rparr>"
    "slab_blocks (slab_of m s') = slab_blocks (slab_of m s)"
proof -
  note d = slab_okD [OF k]
  have p: "free_list (slab_of m s) = p" "p \<noteq> 0" "p \<noteq> a" "a \<notin> set ps" using d(1,3) a by auto
  have u: "(num_used (slab_of m s) + 1) mod 2 ^ 32 = num_used (slab_of m s) + 1" using d(4,9) by simp
  let ?b = "\<lambda>b. b\<lparr>free_list := words (objs s) p, num_used := num_used (slab_of m s) + 1,
    max_used := max (num_used (slab_of m s) + 1) (max_used (slab_of m s))\<rparr>"
  have e: "k_mem_slab_alloc m a n s = (Ret 0, upd_slab m ?b (upd_words a p s))"
    using p u by (simp add: k_mem_slab_alloc_def Let_def upd_slab_def upd_words_def upd_objs_def)
  show "fst (k_mem_slab_alloc m a n s) = Ret 0" "words (objs s') a = p" "waitq s' = waitq s"
    "num_used (slab_of m s') = num_used (slab_of m s) + 1"
    "objs s' = (objs s)\<lparr>slabs := (slabs (objs s))(m := slab_of m s'), words := words (objs s')\<rparr>"
    by (simp_all add: s'_def e)
  show bl: "slab_blocks (slab_of m s') = slab_blocks (slab_of m s)" by (rule slab_blocks_cong) (simp_all add: s'_def e)
  show "obj_step (WqSlab m) s s'" unfolding s'_def e snd_conv upd_slab_def upd_words_def
    by (intro obj_step_objs obj_step_quiet s)
  have l: "linked ((words (objs s))(a := p)) (words (objs s) p) ps" using d(1) p by (intro linked_other) auto
  show "slab_ok m ps s'" unfolding slab_ok_def Let_def bl
    using l d p by (auto simp: s'_def e)
qed

lemma slab_alloc_empty:
  fixes a :: nat
  assumes s: "sched_ok s" and k: "slab_ok m [] s"
    and c: "n \<noteq> K_NO_WAIT \<Longrightarrow> \<not> in_isr s \<and> current s \<noteq> idle_thread s \<and> timeout_fits n s"
  defines "s' \<equiv> snd (k_mem_slab_alloc m a n s)"
  shows "fst (k_mem_slab_alloc m a n s) = (if n = K_NO_WAIT then Ret (- ENOMEM) else Swapped)" "obj_step (WqSlab m) s s'"
    "slab_ok m [] s'" "n = K_NO_WAIT \<Longrightarrow> words (objs s') a = 0"
    "waitq s' = (if n = K_NO_WAIT then waitq s
       else (waitq s)(WqSlab m := prio_insert (threads s) (current s) (waitq s (WqSlab m))))"
    "objs s' = (objs s)\<lparr>slabs := (slabs (objs s))(m := slab_of m s'), words := words (objs s')\<rparr>"
    "slab_of m s' = slab_of m s"
proof -
  note d = slab_okD [OF k]
  have e: "k_mem_slab_alloc m a n s =
      (if n = K_NO_WAIT then (Ret (- ENOMEM), upd_words a 0 s) else z_pend_curr (Some (WqSlab m)) n s)"
    using d(11) by (simp add: k_mem_slab_alloc_def Let_def)
  note b = obj_step_wait [OF s, of n "WqSlab m", simplified]
  have q: "obj_step (WqSlab m) s (upd_words a 0 s)" unfolding upd_words_def by (rule obj_step_quiet [OF s])
  have o: "objs s' = (if n = K_NO_WAIT then (objs s)\<lparr>words := (words (objs s))(a := 0)\<rparr> else objs s)"
    using e b(3) c by (simp add: s'_def)
  show "fst (k_mem_slab_alloc m a n s) = (if n = K_NO_WAIT then Ret (- ENOMEM) else Swapped)" "obj_step (WqSlab m) s s'"
    "waitq s' = (if n = K_NO_WAIT then waitq s
       else (waitq s)(WqSlab m := prio_insert (threads s) (current s) (waitq s (WqSlab m))))"
    using e b(1,2,4) q c by (simp_all add: s'_def)
  show "slab_of m s' = slab_of m s" "n = K_NO_WAIT \<Longrightarrow> words (objs s') a = 0"
    "objs s' = (objs s)\<lparr>slabs := (slabs (objs s))(m := slab_of m s'), words := words (objs s')\<rparr>"
    using o by simp_all
  show "slab_ok m [] s'" unfolding slab_ok_def Let_def using d o by (simp split: if_splits)
qed

lemma slab_free_rule:
  fixes p :: nat
  assumes s: "sched_ok s" and k: "slab_ok m ps s" and p: "p \<in> set (slab_blocks (slab_of m s))" "p \<notin> set ps"
  defines "s' \<equiv> k_mem_slab_free m p s"
  shows "obj_step (WqSlab m) s s'"
    "ps = [] \<Longrightarrow> waitq s (WqSlab m) = t # ts \<Longrightarrow> slab_ok m [] s' \<and> waitq s' = (waitq s)(WqSlab m := ts) \<and>
       swap_retval (threads s' t) = 0 \<and> swap_data (threads s' t) = p \<and> pended_on (threads s' t) = None"
    "ps \<noteq> [] \<or> waitq s (WqSlab m) = [] \<Longrightarrow> slab_ok m (p # ps) s' \<and> waitq s' = waitq s"
    "objs s' = (objs s)\<lparr>slabs := (slabs (objs s))(m := slab_of m s'), words := words (objs s')\<rparr>"
    "slab_blocks (slab_of m s') = slab_blocks (slab_of m s)"
proof -
  let ?h = "\<lambda>th. th\<lparr>swap_retval := 0, swap_data := p\<rparr>"
  let ?f = "upd_slab m (\<lambda>b. b\<lparr>free_list := p, num_used := (num_used b + 2 ^ 32 - 1) mod 2 ^ 32\<rparr>)
    (upd_words p (free_list (slab_of m s)) s)"
  note d = slab_okD [OF k]
  have g: "slab_ptr_is_good (slab_of m s) p" using p d(8) by (simp add: slab_ptr_is_good_iff)
  have wake: "s' = reschedule (wake_turn ?h t s)" if "ps = []" "waitq s (WqSlab m) = t # ts" for t ts
    using that g d(11) sched_wake_turn [OF sched_okD(1) [OF s] that(2), of 0 p] by (simp add: s'_def k_mem_slab_free_def)
  have put: "s' = ?f" if "ps \<noteq> [] \<or> waitq s (WqSlab m) = []"
    using that g d(11) by (auto simp: s'_def k_mem_slab_free_def sched_wake_empty)
  have hr: "obj_step (WqSlab m) s s'" "objs s' = objs s" "waitq s' = (waitq s)(WqSlab m := ts)" "threads s' t = waked ?h (threads s t)"
    if "ps = []" "waitq s (WqSlab m) = t # ts" for t ts
    using wake_resched_rule(3,4,9) [OF s that(2) keeps_retval(1) [where r = 0 and d = p]] obj_step_hand [OF s that(2), of ?h]
    by (simp_all add: wake [OF that] del: reschedule_sel)
  have pr: "obj_step (WqSlab m) s ?f" unfolding upd_slab_def upd_words_def by (intro obj_step_objs obj_step_quiet s)
  consider t ts where "ps = []" "waitq s (WqSlab m) = t # ts" | "ps \<noteq> [] \<or> waitq s (WqSlab m) = []"
    by (cases "waitq s (WqSlab m)") auto
  then have "obj_step (WqSlab m) s s' \<and> objs s' = (objs s)\<lparr>slabs := (slabs (objs s))(m := slab_of m s'), words := words (objs s')\<rparr> \<and>
    slab_blocks (slab_of m s') = slab_blocks (slab_of m s)"
  proof cases
    case 1
    show ?thesis using hr(1,2) [OF 1] by simp
  next
    case 2
    show ?thesis unfolding put [OF 2] using pr by (simp add: slab_blocks_def)
  qed
  then show "obj_step (WqSlab m) s s'" "objs s' = (objs s)\<lparr>slabs := (slabs (objs s))(m := slab_of m s'), words := words (objs s')\<rparr>"
    "slab_blocks (slab_of m s') = slab_blocks (slab_of m s)" by blast+
  show "slab_ok m [] s' \<and> waitq s' = (waitq s)(WqSlab m := ts) \<and>
       swap_retval (threads s' t) = 0 \<and> swap_data (threads s' t) = p \<and> pended_on (threads s' t) = None"
    if "ps = []" "waitq s (WqSlab m) = t # ts"
    using hr(2-4) [OF that] k that(1) by (simp add: slab_ok_def Let_def) (simp add: waked_def)
  show "slab_ok m (p # ps) s' \<and> waitq s' = waitq s" if c: "ps \<noteq> [] \<or> waitq s (WqSlab m) = []"
  proof -
    have "card (set (p # ps)) \<le> card (set (slab_blocks (slab_of m s)))" using d(3) p(1) by (intro card_mono) auto
    then have "length (p # ps) \<le> num_blocks (slab_of m s)" using d(2) p(2)
      by (simp add: distinct_card slab_blocks_distinct [OF d(8)] card_length) (simp add: slab_blocks_def)
    then have u: "0 < num_used (slab_of m s)" "num_used (slab_of m s) < 2 ^ 32" using d(4,9) by simp_all
    then have m: "(num_used (slab_of m s) + 2 ^ 32 - 1) mod 2 ^ 32 = num_used (slab_of m s) - 1"
      by (simp add: mod_if)
    have b: "slab_blocks (slab_of m ?f) = slab_blocks (slab_of m s)" by (rule slab_blocks_cong) simp_all
    have "p \<noteq> 0" using p(1) d(7) by (auto simp: slab_blocks_def)
    then have l: "linked ((words (objs s))(p := free_list (slab_of m s))) p (p # ps)" using d(1) p(2) by (simp add: linked_other)
    show ?thesis unfolding put [OF c] slab_ok_def Let_def b using l d p u m c by auto
  qed
qed

section \<open>Property\<close>

text \<open>
  C21: a memory slab is a pool of distinct blocks of the slab.  \<^verbatim>\<open>k_mem_slab_alloc\<close> takes a block off the free list,
  so that no block is given out twice, or reports -ENOMEM and a null pointer, or waits;
  \<^verbatim>\<open>k_mem_slab_free\<close> of an allocated block hands it to the first waiting thread, and puts it on the free list
  only when nobody waits.  The number of free blocks is always the length of the list.
\<close>

theorem slab_refines_pool:
  assumes "sched_ok s" and "slab_ok m ps s"
    and "\<And>a n. op = SlabAlloc a n \<Longrightarrow> a \<notin> set (slab_blocks (slab_of m s)) \<and>
           (n = K_NO_WAIT \<or> \<not> in_isr s \<and> current s \<noteq> idle_thread s \<and> timeout_fits n s)"
    and "\<And>p. op = SlabFree p \<Longrightarrow> p \<in> set (slab_blocks (slab_of m s)) - set ps"
    and "slab_spec (prio_insert (threads s) (current s)) op (ps, waitq s (WqSlab m)) = (r, got, handed, ps', ts')"
  shows "fst (slab_exec m op s) = r \<and>
    (let s' = snd (slab_exec m op s)
     in sched_ok s' \<and> slab_ok m ps' s' \<and> waitq s' (WqSlab m) = ts' \<and> k_mem_slab_num_free_get m s' = length ps' \<and>
        slab_blocks (slab_of m s') = slab_blocks (slab_of m s) \<and>
        (\<forall>p a n. got = Some p \<longrightarrow> op = SlabAlloc a n \<longrightarrow> words (objs s') a = p \<and> (p \<noteq> 0 \<longrightarrow> p \<in> set ps \<and> p \<notin> set ps')) \<and>
        (\<forall>t p. handed = Some (t, p) \<longrightarrow> swap_retval (threads s' t) = 0 \<and> swap_data (threads s' t) = p \<and> pended_on (threads s' t) = None))"
proof -
  have n: "k_mem_slab_num_free_get m z = length qs" if "slab_ok m qs z" for z qs
    using slab_okD(4) [OF that] by (simp add: k_mem_slab_num_free_get_def)
  show ?thesis
  proof (cases op)
    case (SlabAlloc a n)
    note a = assms(3) [OF SlabAlloc]
    show ?thesis
    proof (cases ps)
      case Nil
      note e = slab_alloc_empty [OF assms(1), of m n a] 
      have b: "slab_blocks (slab_of m (snd (k_mem_slab_alloc m a n s))) = slab_blocks (slab_of m s)" using e(7) assms(2) a Nil by auto
      show ?thesis using SlabAlloc assms(2,5) Nil a e(1-5) n b by (auto simp: Let_def obj_step_def split: if_splits)
    next
      case (Cons p qs)
      note e = slab_alloc_rule [OF assms(1) assms(2) [unfolded Cons], of a n]
      have "p \<notin> set qs" using slab_okD(2) [OF assms(2)] Cons by simp
      then show ?thesis using SlabAlloc assms(5) Cons a e n by (auto simp: Let_def obj_step_def)
    qed
  next
    case (SlabFree p)
    then have p: "p \<in> set (slab_blocks (slab_of m s))" "p \<notin> set ps" using assms(4) by auto
    note e = slab_free_rule [OF assms(1,2) p]
    show ?thesis
    proof (cases "ps = [] \<and> waitq s (WqSlab m) \<noteq> []")
      case True
      then obtain t ts where w: "ps = []" "waitq s (WqSlab m) = t # ts" by (auto simp: neq_Nil_conv)
      show ?thesis using SlabFree assms(5) w e(1,5) e(2) [OF w] n by (auto simp: Let_def obj_step_def)
    next
      case False
      then have w: "ps \<noteq> [] \<or> waitq s (WqSlab m) = []" by auto
      have "slab_spec (prio_insert (threads s) (current s)) op (ps, waitq s (WqSlab m)) = (Ret 0, None, None, p # ps, waitq s (WqSlab m))"
        using False SlabFree by (cases ps; cases "waitq s (WqSlab m)") auto
      then show ?thesis using SlabFree assms(5) e(1,5) e(3) [OF w] n by (auto simp: Let_def obj_step_def)
    qed
  qed
qed

definition slab_app :: kernel where
  "slab_app = snd (k_mem_slab_init 0 64 8 3 app)"

lemma slab_app_ok: "sched_ok slab_app" "slab_ok 0 [64, 72, 80] slab_app" "slab_blocks (slab_of 0 slab_app) = [64, 72, 80]"
proof -
  note i = slab_init_ok [OF app_ok, of 0 64 8 3, folded slab_app_def]
  show b: "slab_blocks (slab_of 0 slab_app) = [64, 72, 80]" using i(4) by (simp add: upt_conv_Cons)
  show "sched_ok slab_app" "slab_ok 0 [64, 72, 80] slab_app" using i(2,3) b by simp_all
qed

theorem slab_refines_pool_witness:
  "let s' = snd (k_mem_slab_alloc 0 200 K_NO_WAIT slab_app)
   in fst (k_mem_slab_alloc 0 200 K_NO_WAIT slab_app) = Ret 0 \<and> words (objs s') 200 = 64 \<and> slab_ok 0 [72, 80] s' \<and>
      k_mem_slab_num_free_get 0 s' = 2"
  using slab_refines_pool [OF slab_app_ok(1,2), of "SlabAlloc 200 K_NO_WAIT" "Ret 0" "Some 64" None "[72, 80]"] slab_app_ok(3)
  by (simp add: Let_def)

end
