(* ===== verification/Queue.thy ===== *)
theory Queue
  imports Kernel_Objects
begin

text \<open>
  Queues, \<^verbatim>\<open>kernel/queue.c\<close>: a flagged singly linked list of nodes in the word memory.  A node is the
  first word of the data itself, or, with flag 1, the first word of an \<^verbatim>\<open>alloc_node\<close> whose second word points
  to the data.  The allocator (\<^verbatim>\<open>z_thread_malloc\<close>, \<^verbatim>\<open>k_free\<close>) is an argument of the operations that use it.  Polling
  is not configured.
\<close>

section \<open>Operations\<close>

abbreviation queue_of :: "nat \<Rightarrow> kernel \<Rightarrow> k_queue" where
  "queue_of m s \<equiv> queues (objs s) m"

type_synonym malloc = "nat \<Rightarrow> kernel \<Rightarrow> nat option \<times> kernel"
type_synonym free = "nat \<Rightarrow> kernel \<Rightarrow> kernel"

definition upd_words_by :: "(wmem \<Rightarrow> wmem) \<Rightarrow> kernel \<Rightarrow> kernel" where
  "upd_words_by f = upd_objs (\<lambda>b. b\<lparr>words := f (words b)\<rparr>)"

definition upd_data_q :: "nat \<Rightarrow> (genlist \<times> wmem \<Rightarrow> genlist \<times> wmem) \<Rightarrow> kernel \<Rightarrow> kernel" where
  "upd_data_q m f = upd_objs (\<lambda>b. let (l, w) = f (data_q (queues b m), words b)
     in b\<lparr>queues := (queues b)(m := (queues b m)\<lparr>data_q := l\<rparr>), words := w\<rparr>)"

definition ALLOC_NODE_SIZE :: nat where "ALLOC_NODE_SIZE = 8"

definition ALLOC_NODE_DATA :: nat where "ALLOC_NODE_DATA = 4"

definition z_queue_node_peek :: "free \<Rightarrow> nat \<Rightarrow> bool \<Rightarrow> kernel \<Rightarrow> nat \<times> kernel" where
  "z_queue_node_peek free node needs_free s =
     (if node \<noteq> 0 \<and> sys_sfnode_flags_get node (words (objs s)) \<noteq> 0
      then (words (objs s) (node + ALLOC_NODE_DATA), if needs_free then free node s else s)
      else (node, s))"

definition k_queue_init :: "nat \<Rightarrow> kernel \<Rightarrow> kernel" where
  "k_queue_init m s = z_waitq_init (WqQueue m) (upd_data_q m (\<lambda>(l, w). (gl_init, w)) s)"

definition k_queue_cancel_wait :: "nat \<Rightarrow> kernel \<Rightarrow> kernel" where
  "k_queue_cancel_wait m s = (let (rs, s1) = z_sched_wake (WqQueue m) 0 0 s in if rs then reschedule s1 else s1)"

definition queue_insert :: "malloc \<Rightarrow> nat \<Rightarrow> nat \<Rightarrow> nat \<Rightarrow> bool \<Rightarrow> bool \<Rightarrow> kernel \<Rightarrow> int \<times> kernel" where
  "queue_insert thread_malloc m prev data alloc is_append s =
     (let prev = (if is_append then l_tail (data_q (queue_of m s)) else prev);
          (woke, s1) = z_sched_wake (WqQueue m) 0 data s
      in if woke then (0, reschedule s1)
         else if alloc
              then case thread_malloc ALLOC_NODE_SIZE s1 of
                     (None, s2) \<Rightarrow> (- ENOMEM, s2)
                   | (Some anode, s2) \<Rightarrow>
                       (0, upd_data_q m (gl_insert sfnode_ops prev anode)
                             (upd_words_by (sys_sfnode_init anode 1) (upd_words (anode + ALLOC_NODE_DATA) data s2)))
              else (0, upd_data_q m (gl_insert sfnode_ops prev data) (upd_words_by (sys_sfnode_init data 0) s1)))"

definition no_malloc :: malloc where
  "no_malloc n s = (None, s)"

definition k_queue_insert :: "nat \<Rightarrow> nat \<Rightarrow> nat \<Rightarrow> kernel \<Rightarrow> kernel" where
  "k_queue_insert m prev data s = snd (queue_insert no_malloc m prev data False False s)"

definition k_queue_append :: "nat \<Rightarrow> nat \<Rightarrow> kernel \<Rightarrow> kernel" where
  "k_queue_append m data s = snd (queue_insert no_malloc m 0 data False True s)"

definition k_queue_prepend :: "nat \<Rightarrow> nat \<Rightarrow> kernel \<Rightarrow> kernel" where
  "k_queue_prepend m data s = snd (queue_insert no_malloc m 0 data False False s)"

definition k_queue_alloc_append :: "malloc \<Rightarrow> nat \<Rightarrow> nat \<Rightarrow> kernel \<Rightarrow> int \<times> kernel" where
  "k_queue_alloc_append thread_malloc m data s = queue_insert thread_malloc m 0 data True True s"

definition k_queue_alloc_prepend :: "malloc \<Rightarrow> nat \<Rightarrow> nat \<Rightarrow> kernel \<Rightarrow> int \<times> kernel" where
  "k_queue_alloc_prepend thread_malloc m data s = queue_insert thread_malloc m 0 data True False s"

text \<open>Each turn of the loop takes one thread off the wait queue, so its length bounds the turns.\<close>

fun append_list_loop :: "nat \<Rightarrow> nat \<Rightarrow> nat \<Rightarrow> bool \<Rightarrow> kernel \<Rightarrow> nat \<times> bool \<times> kernel" where
  "append_list_loop 0 m hd' rs s = (hd', rs, s)"
| "append_list_loop (Suc n) m hd' rs s =
     (if hd' = 0 then (hd', rs, s)
      else let (woke, s1) = z_sched_wake (WqQueue m) 0 hd' s
           in if woke then append_list_loop n m (words (objs s1) hd') True s1 else (hd', rs, s1))"

definition k_queue_append_list :: "nat \<Rightarrow> nat \<Rightarrow> nat \<Rightarrow> kernel \<Rightarrow> int \<times> kernel" where
  "k_queue_append_list m hd' tl' s =
     (if hd' = 0 \<or> tl' = 0 then (- EINVAL, s)
      else let (h1, rs, s1) = append_list_loop (Suc (length (waitq s (WqQueue m)))) m hd' False s;
               s2 = (if h1 \<noteq> 0 then upd_data_q m (gl_append_list sfnode_ops h1 tl') s1 else s1)
           in (0, if rs then reschedule s2 else s2))"

definition k_queue_merge_slist :: "nat \<Rightarrow> genlist \<Rightarrow> kernel \<Rightarrow> int \<times> genlist \<times> kernel" where
  "k_queue_merge_slist m list s =
     (if gl_is_empty list then (- EINVAL, list, s)
      else case k_queue_append_list m (l_head list) (l_tail list) s of
             (ret, s1) \<Rightarrow> if ret \<noteq> 0 then (ret, list, s1) else (0, gl_init, s1))"

definition k_queue_get :: "free \<Rightarrow> nat \<Rightarrow> int \<Rightarrow> kernel \<Rightarrow> nat kres \<times> kernel" where
  "k_queue_get free m timeout s =
     (if \<not> gl_is_empty (data_q (queue_of m s))
      then let (node, lw) = gl_get_not_empty sfnode_ops (data_q (queue_of m s), words (objs s));
               (data, s2) = z_queue_node_peek free node True (upd_data_q m (\<lambda>_. lw) s)
           in (Ret data, s2)
      else if timeout = K_NO_WAIT then (Ret 0, s)
      else case z_pend_curr (Some (WqQueue m)) timeout s of (_, s1) \<Rightarrow> (Swapped, s1))"

definition k_queue_get_resume :: "kernel \<Rightarrow> nat" where
  "k_queue_get_resume s = (if do_swap_resume s \<noteq> 0 then 0 else swap_data (threads s (current s)))"

partial_function (option) queue_remove_loop :: "free \<Rightarrow> nat \<Rightarrow> nat \<Rightarrow> nat \<Rightarrow> nat \<Rightarrow> kernel \<Rightarrow> (bool \<times> kernel) option" where
  "queue_remove_loop free m data prev node s =
     (if node = 0 then Some (False, s)
      else if fst (z_queue_node_peek free node False s) = data
           then Some (True, snd (z_queue_node_peek free node True (upd_data_q m (gl_remove sfnode_ops prev node) s)))
      else queue_remove_loop free m data node (gl_peek_next sfnode_ops node (words (objs s))) s)"

definition k_queue_remove :: "free \<Rightarrow> nat \<Rightarrow> nat \<Rightarrow> kernel \<Rightarrow> (bool \<times> kernel) option" where
  "k_queue_remove free m data s = queue_remove_loop free m data 0 (l_head (data_q (queue_of m s))) s"

definition k_queue_unique_append :: "nat \<Rightarrow> nat \<Rightarrow> kernel \<Rightarrow> (bool \<times> kernel) option" where
  "k_queue_unique_append m data s =
     (case gl_find sfnode_ops data (data_q (queue_of m s), words (objs s)) of
        None \<Rightarrow> None
      | Some (found, _) \<Rightarrow> Some (if found then (False, s) else (True, snd (queue_insert no_malloc m 0 data False True s))))"

definition k_queue_peek_head :: "nat \<Rightarrow> kernel \<Rightarrow> nat" where
  "k_queue_peek_head m s = fst (z_queue_node_peek (\<lambda>_ s. s) (l_head (data_q (queue_of m s))) False s)"

definition k_queue_peek_tail :: "nat \<Rightarrow> kernel \<Rightarrow> nat" where
  "k_queue_peek_tail m s = fst (z_queue_node_peek (\<lambda>_ s. s) (l_tail (data_q (queue_of m s))) False s)"

definition k_queue_is_empty :: "nat \<Rightarrow> kernel \<Rightarrow> int" where
  "k_queue_is_empty m s = (if gl_is_empty (data_q (queue_of m s)) then 1 else 0)"

section \<open>The queue as a list of data\<close>

definition node_data :: "wmem \<Rightarrow> nat \<Rightarrow> nat" where
  "node_data w x = (if sys_sfnode_flags_get x w \<noteq> 0 then w (x + ALLOC_NODE_DATA) else x)"

abbreviation qlist :: "nat \<Rightarrow> kernel \<Rightarrow> genlist \<times> wmem" where
  "qlist m s \<equiv> (data_q (queue_of m s), words (objs s))"

text \<open>The words the nodes of a queue occupy: the node and, when it was allocated, the pointer to the data.\<close>

definition node_words :: "wmem \<Rightarrow> nat \<Rightarrow> nat set" where
  "node_words w x = (if sys_sfnode_flags_get x w \<noteq> 0 then {x, x + ALLOC_NODE_DATA} else {x})"

definition queue_ok :: "nat \<Rightarrow> nat list \<Rightarrow> kernel \<Rightarrow> bool" where
  "queue_ok m xs s \<longleftrightarrow> list_rep sfnode_ops sf_aligned (qlist m s) xs \<and>
     (\<forall>x \<in> set xs. \<forall>y \<in> set xs. sys_sfnode_flags_get x (words (objs s)) \<noteq> 0 \<longrightarrow> x + ALLOC_NODE_DATA \<noteq> y) \<and>
     (waitq s (WqQueue m) \<noteq> [] \<longrightarrow> xs = [])"

lemma upd_data_q_sel [simp]:
  "objs (upd_data_q m f s) = (objs s)\<lparr>queues := (queues (objs s))(m := (queue_of m s)\<lparr>data_q := fst (f (qlist m s))\<rparr>),
     words := snd (f (qlist m s))\<rparr>"
  "waitq (upd_data_q m f s) = waitq s" "threads (upd_data_q m f s) = threads s" "current (upd_data_q m f s) = current s"
  "in_isr (upd_data_q m f s) = in_isr s" "idle_thread (upd_data_q m f s) = idle_thread s"
  "sched_ok (upd_data_q m f s) = sched_ok s" "resched_ok (upd_data_q m f s) = resched_ok s"
  by (simp_all add: upd_data_q_def case_prod_unfold Let_def)

lemma upd_words_by_sel [simp]:
  "objs (upd_words_by f s) = (objs s)\<lparr>words := f (words (objs s))\<rparr>"
  "waitq (upd_words_by f s) = waitq s" "threads (upd_words_by f s) = threads s" "current (upd_words_by f s) = current s"
  "in_isr (upd_words_by f s) = in_isr s" "idle_thread (upd_words_by f s) = idle_thread s"
  "sched_ok (upd_words_by f s) = sched_ok s" "resched_ok (upd_words_by f s) = resched_ok s"
  by (simp_all add: upd_words_by_def)

lemma list_rep_words:
  assumes "list_rep sfnode_ops v (l, w) xs" "\<And>x. x \<in> set xs \<Longrightarrow> w' x = w x"
  shows "list_rep sfnode_ops v (l, w') xs"
proof -
  have "lseg sfnode_ops w p xs q \<Longrightarrow> lseg sfnode_ops w' p xs q" for p q
    using assms(2) by (induction xs arbitrary: p) (auto simp: sfnode_ops_def z_sfnode_next_peek_def)
  with assms(1) show ?thesis by (simp add: list_rep_def)
qed

lemma sfnode_ops_sel [simp]: "next_set sfnode_ops = z_sfnode_next_set" "next_peek sfnode_ops = z_sfnode_next_peek"
  by (simp_all add: sfnode_ops_def)

lemma next_set_other [simp]: "q \<noteq> p \<Longrightarrow> z_sfnode_next_set p c w q = w q"
  by (simp add: z_sfnode_next_set_def)

text \<open>Where a node goes that the queue inserts at its tail or at its head.\<close>

lemma insert_end:
  fixes ap :: bool
  assumes r: "list_rep sfnode_ops sf_aligned (l, w) xs" and n: "n \<noteq> 0" "sf_aligned n" "n \<notin> set xs"
  defines "r' \<equiv> gl_insert sfnode_ops (if ap then l_tail l else 0) n (l, w)"
  shows "list_rep sfnode_ops sf_aligned r' (if ap then xs @ [n] else n # xs)"
    "sys_sfnode_flags_get q (snd r') = sys_sfnode_flags_get q w" "q \<notin> insert n (set xs) \<Longrightarrow> snd r' q = w q"
proof -
  note d = list_repD [OF r]
  have pre: "r' = gl_prepend sfnode_ops n (l, w)" if "\<not> ap \<or> xs = []"
    using that d(6) by (auto simp: r'_def gl_insert_def)
  have ap: "r' = gl_append sfnode_ops n (l, w)" if a: "ap" "xs \<noteq> []"
  proof -
    obtain ys y where e: "xs = ys @ [y]" using a(2) by (cases xs rule: rev_cases) auto
    then have "z_sfnode_next_peek (l_tail l) w = 0" using d(1,5) by (auto simp: lseg_append)
    with a d(6) show ?thesis by (simp add: r'_def gl_insert_def)
  qed
  have hv: "sf_aligned (l_head l)" using d(3,7) sfl.valid_null by (auto split: if_splits)
  have tl: "l_tail l \<in> set xs" if "xs \<noteq> []" using d(5) that by simp
  show "list_rep sfnode_ops sf_aligned r' (if ap then xs @ [n] else n # xs)"
    using sfl.rep_prepend [OF r n] sfl.rep_append [OF r n] pre ap by (cases "xs = []") auto
  show "sys_sfnode_flags_get q (snd r') = sys_sfnode_flags_get q w"
  proof (cases "\<not> ap \<or> xs = []")
    case True
    then show ?thesis using hv by (simp add: pre gl_prepend_def Let_def sf_next_set)
  next
    case False
    then show ?thesis using ap n(2) sfl.valid_null by (simp add: gl_append_def Let_def sf_next_set)
  qed
  show "snd r' q = w q" if "q \<notin> insert n (set xs)"
  proof (cases "\<not> ap \<or> xs = []")
    case True
    then show ?thesis using that by (simp add: pre gl_prepend_def Let_def)
  next
    case False
    then have "q \<noteq> l_tail l" using tl that by auto
    with False show ?thesis using ap that by (simp add: gl_append_def Let_def)
  qed
qed

lemma queue_okD:
  assumes "queue_ok m xs s"
  shows "list_rep sfnode_ops sf_aligned (qlist m s) xs" "0 \<notin> set xs" "gl_is_empty (data_q (queue_of m s)) \<longleftrightarrow> xs = []"
    "x \<in> set xs \<Longrightarrow> y \<in> set xs \<Longrightarrow> sys_sfnode_flags_get x (words (objs s)) \<noteq> 0 \<Longrightarrow> x + ALLOC_NODE_DATA \<noteq> y"
    "waitq s (WqQueue m) \<noteq> [] \<Longrightarrow> xs = []"
  using assms list_repD(4,8) [of sfnode_ops sf_aligned "data_q (queue_of m s)" "words (objs s)" xs]
  by (auto simp: queue_ok_def gl_is_empty_def)

abbreviation queue_data :: "nat list \<Rightarrow> kernel \<Rightarrow> nat list" where
  "queue_data xs s \<equiv> map (node_data (words (objs s))) xs"

text \<open>A node the queue can take: aligned, and outside the words of the nodes it holds.\<close>

definition fresh_node :: "nat list \<Rightarrow> kernel \<Rightarrow> nat set \<Rightarrow> bool" where
  "fresh_node xs s A \<longleftrightarrow> 0 \<notin> A \<and> A \<inter> (\<Union>x \<in> set xs. node_words (words (objs s)) x) = {}"

lemma queue_put_rule:
  fixes ap al :: bool and d n :: nat
  assumes s: "sched_ok s" and q: "queue_ok m xs s" and w: "waitq s (WqQueue m) = []"
    and n: "sf_aligned n" "fresh_node xs s (if al then {n, n + ALLOC_NODE_DATA} else {n})"
  defines "s1 \<equiv> upd_words_by (sys_sfnode_init n (if al then 1 else 0)) (if al then upd_words (n + ALLOC_NODE_DATA) d s else s)"
  defines "s' \<equiv> upd_data_q m (gl_insert sfnode_ops (if ap then l_tail (data_q (queue_of m s)) else 0) n) s1"
  shows "queue_ok m (if ap then xs @ [n] else n # xs) s'" "obj_step (WqQueue m) s s'" "waitq s' = waitq s"
    "queue_data (if ap then xs @ [n] else n # xs) s' =
       (let v = (if al then d else n) in if ap then queue_data xs s @ [v] else v # queue_data xs s)"
proof -
  let ?w = "words (objs s)" and ?w1 = "words (objs s1)" and ?l = "data_q (queue_of m s)"
  note d = queue_okD [OF q]
  have f: "n \<noteq> 0" "n \<notin> set xs" "al \<Longrightarrow> n + ALLOC_NODE_DATA \<notin> set xs"
    "\<And>x. x \<in> set xs \<Longrightarrow> sys_sfnode_flags_get x ?w \<noteq> 0 \<Longrightarrow> x + ALLOC_NODE_DATA \<noteq> n \<and> (al \<longrightarrow> x \<noteq> n)"
    using n(2) by (auto simp: fresh_node_def node_words_def split: if_splits)
  have w1: "?w1 = (if al then ?w(n + ALLOC_NODE_DATA := d, n := 1) else ?w(n := 0))"
    by (simp add: s1_def sys_sfnode_init_def)
  have r1: "list_rep sfnode_ops sf_aligned (?l, ?w1) xs"
    using d(1) by (rule list_rep_words) (use f in \<open>auto simp: w1\<close>)
  note I = insert_end [OF r1 f(1) n(1) f(2), where ap = ap]
  define w2 where "w2 = snd (gl_insert sfnode_ops (if ap then l_tail ?l else 0) n (?l, ?w1))"
  have l1: "qlist m s1 = (?l, ?w1)" by (simp add: s1_def)
  have ws: "words (objs s') = w2" "qlist m s' = gl_insert sfnode_ops (if ap then l_tail ?l else 0) n (?l, ?w1)"
    using l1 by (simp_all add: s'_def w2_def)
  have fl: "sys_sfnode_flags_get x w2 = (if x = n then if al then 1 else 0 else sys_sfnode_flags_get x ?w1)" for x
    using I(2) [of x] by (auto simp: w2_def w1 sys_sfnode_flags_get_def SYS_SFLIST_FLAGS_MASK_def)
  have fo: "sys_sfnode_flags_get x ?w1 = sys_sfnode_flags_get x ?w" if "x \<in> set xs" for x
    using that f by (auto simp: w1 sys_sfnode_flags_get_def)
  have nd: "node_data w2 x = node_data ?w x" if x: "x \<in> set xs" for x
  proof (cases "sys_sfnode_flags_get x ?w = 0")
    case True
    with x f(2) show ?thesis by (auto simp: node_data_def fl fo)
  next
    case False
    have "x + ALLOC_NODE_DATA \<notin> insert n (set xs)" using f(4) [OF x False] d(4) [OF x _ False] by auto
    then have "w2 (x + ALLOC_NODE_DATA) = ?w1 (x + ALLOC_NODE_DATA)" using I(3) by (simp add: w2_def)
    also have "\<dots> = ?w (x + ALLOC_NODE_DATA)" using f(4) [OF x False] x f(2) by (auto simp: w1)
    finally show ?thesis using x f(2) by (auto simp: node_data_def fl fo)
  qed
  have nn: "node_data w2 n = (if al then d else n)"
  proof (cases al)
    case True
    have "n + ALLOC_NODE_DATA \<notin> insert n (set xs)" using f(3) [OF True] by (simp add: ALLOC_NODE_DATA_def)
    then have "w2 (n + ALLOC_NODE_DATA) = ?w1 (n + ALLOC_NODE_DATA)" using I(3) by (simp add: w2_def)
    with True show ?thesis by (simp add: node_data_def fl w1 ALLOC_NODE_DATA_def)
  qed (simp add: node_data_def fl)
  show "queue_data (if ap then xs @ [n] else n # xs) s' =
       (let v = (if al then d else n) in if ap then queue_data xs s @ [v] else v # queue_data xs s)"
    using nd nn by (simp add: ws Let_def)
  show wq: "waitq s' = waitq s" by (simp add: s'_def s1_def)
  show "obj_step (WqQueue m) s s'" unfolding s'_def s1_def upd_data_q_def upd_words_by_def upd_words_def
    by (auto intro!: obj_step_objs obj_step_quiet s)
  have al: "x + ALLOC_NODE_DATA \<noteq> y" if "x \<in> insert n (set xs)" "y \<in> insert n (set xs)" "sys_sfnode_flags_get x w2 \<noteq> 0" for x y
    using that f d(4) [of x y] fo [of x] by (auto simp: fl ALLOC_NODE_DATA_def split: if_splits)
  have st: "set (if ap then xs @ [n] else n # xs) = insert n (set xs)" by auto
  show "queue_ok m (if ap then xs @ [n] else n # xs) s'"
    unfolding queue_ok_def ws(2) unfolding ws(1) st wq using I(1) al w by blast
qed

lemma remove_at:
  assumes r: "list_rep sfnode_ops sf_aligned (l, w) (ys @ x # zs)"
  defines "r' \<equiv> gl_remove sfnode_ops (last (0 # ys)) x (l, w)"
  shows "list_rep sfnode_ops sf_aligned r' (ys @ zs)"
    "sys_sfnode_flags_get q (snd r') = sys_sfnode_flags_get q w" "q \<notin> set (ys @ x # zs) \<Longrightarrow> snd r' q = w q"
proof -
  note d = list_repD [OF r]
  have "lseg sfnode_ops w (z_sfnode_next_peek x w) zs 0" using d(1) by (auto simp: lseg_append)
  from lseg_head [OF this] have v: "sf_aligned (z_sfnode_next_peek x w)" using d(3) sfl.valid_null by (cases zs) auto
  show "list_rep sfnode_ops sf_aligned r' (ys @ zs)" unfolding r'_def by (rule sfl.rep_remove [OF r])
  show "sys_sfnode_flags_get q (snd r') = sys_sfnode_flags_get q w"
    using v sfl.valid_null by (simp add: r'_def gl_remove_def Let_def sf_next_set)
  show "snd r' q = w q" if "q \<notin> set (ys @ x # zs)"
  proof -
    have "ys \<noteq> [] \<Longrightarrow> q \<noteq> last ys" using that last_in_set [of ys] by auto
    with that show ?thesis by (auto simp: r'_def gl_remove_def Let_def)
  qed
qed

lemma node_data_keep:
  assumes q: "queue_ok m xs s" and f: "\<And>q. sys_sfnode_flags_get q w' = sys_sfnode_flags_get q (words (objs s))"
    and o: "\<And>q. q \<notin> set xs \<Longrightarrow> w' q = words (objs s) q" and x: "x \<in> set xs"
  shows "node_data w' x = node_data (words (objs s)) x"
  using queue_okD(4) [OF q x, of "x + ALLOC_NODE_DATA"] o [of "x + ALLOC_NODE_DATA"] f by (auto simp: node_data_def)

lemma queue_get_rule:
  fixes n :: int
  assumes s: "sched_ok s" and q: "queue_ok m (x # xs) s" and fr: "\<And>a z. free a z = z"
  defines "s' \<equiv> snd (k_queue_get free m n s)"
  shows "fst (k_queue_get free m n s) = Ret (node_data (words (objs s)) x)" "queue_ok m xs s'" "queue_data xs s' = queue_data xs s"
    "obj_step (WqQueue m) s s'" "waitq s' = waitq s"
proof -
  note d = queue_okD [OF q] and g = sfl.rep_get [OF queue_okD(1) [OF q]]
  define g' where "g' = gl_get_not_empty sfnode_ops (qlist m s)"
  have e: "gl_get sfnode_ops (qlist m s) = g'" using d(3) by (simp add: g'_def gl_get_def)
  obtain l' where g': "g' = (x, l', words (objs s))" using g(1,3) unfolding e by (metis prod.exhaust_sel)
  have r: "list_rep sfnode_ops sf_aligned (l', words (objs s)) xs" using g(2) unfolding e g' by simp
  have x: "x \<noteq> 0" using d(2) by auto
  let ?s = "upd_data_q m (\<lambda>_. (l', words (objs s))) s"
  have k: "k_queue_get free m n s = (Ret (node_data (words (objs s)) x), ?s)"
    using d(3) g' x fr by (simp add: k_queue_get_def flip: g'_def) (simp add: z_queue_node_peek_def node_data_def)
  show "fst (k_queue_get free m n s) = Ret (node_data (words (objs s)) x)" "queue_data xs s' = queue_data xs s" "waitq s' = waitq s"
    by (simp_all add: s'_def k)
  show "queue_ok m xs s'" using r d(4,5) by (auto simp: queue_ok_def s'_def k)
  show "obj_step (WqQueue m) s s'" unfolding s'_def k snd_conv upd_data_q_def by (intro obj_step_quiet s)
qed

lemma queue_get_empty:
  fixes free :: free
  assumes s: "sched_ok s" and q: "queue_ok m [] s"
    and c: "n \<noteq> K_NO_WAIT \<Longrightarrow> \<not> in_isr s \<and> current s \<noteq> idle_thread s \<and> timeout_fits n s"
  defines "s' \<equiv> snd (k_queue_get free m n s)"
  shows "fst (k_queue_get free m n s) = (if n = K_NO_WAIT then Ret 0 else Swapped)" "queue_ok m [] s'" "obj_step (WqQueue m) s s'"
    "waitq s' = (if n = K_NO_WAIT then waitq s
       else (waitq s)(WqQueue m := prio_insert (threads s) (current s) (waitq s (WqQueue m))))"
    "objs s' = objs s"
proof -
  have e: "k_queue_get free m n s = (if n = K_NO_WAIT then (Ret 0, s) else (Swapped, snd (z_pend_curr (Some (WqQueue m)) n s)))"
    using queue_okD(3) [OF q] by (simp add: k_queue_get_def case_prod_unfold)
  note b = obj_step_wait [OF s, of n "WqQueue m", simplified]
  have st: "obj_step (WqQueue m) s s" using obj_step_quiet [OF s, of "WqQueue m" "\<lambda>x. x"] by (simp add: upd_objs_def)
  show "fst (k_queue_get free m n s) = (if n = K_NO_WAIT then Ret 0 else Swapped)" "obj_step (WqQueue m) s s'"
    "waitq s' = (if n = K_NO_WAIT then waitq s
       else (waitq s)(WqQueue m := prio_insert (threads s) (current s) (waitq s (WqQueue m))))" "objs s' = objs s"
    using e b(1,3,4) st c by (simp_all add: s'_def)
  then show "queue_ok m [] s'" using q by (simp add: queue_ok_def)
qed

lemma queue_remove_rule:
  assumes s: "sched_ok s" and q: "queue_ok m (ys @ zs) s" and fr: "\<And>a z. free a z = z"
  shows "\<exists>s' zs'. queue_remove_loop free m d (last (0 # ys)) (hd (zs @ [0])) s = Some (d \<in> set (queue_data zs s), s') \<and>
    queue_ok m (ys @ zs') s' \<and> queue_data ys s' = queue_data ys s \<and> queue_data zs' s' = remove1 d (queue_data zs s) \<and>
    obj_step (WqQueue m) s s' \<and> waitq s' = waitq s"
  using q
proof (induction zs arbitrary: ys)
  case Nil
  have "obj_step (WqQueue m) s s" using obj_step_quiet [OF s, of "WqQueue m" "\<lambda>x. x"] by (simp add: upd_objs_def)
  with Nil show ?case by (subst queue_remove_loop.simps) auto
next
  case (Cons z zs)
  note d = queue_okD [OF Cons.prems]
  have z: "z \<noteq> 0" using d(2) by auto
  have pk: "fst (z_queue_node_peek free z False s) = node_data (words (objs s)) z"
    using z by (simp add: z_queue_node_peek_def node_data_def)
  show ?case
  proof (cases "node_data (words (objs s)) z = d")
    case True
    note R = remove_at [OF d(1)]
    let ?r = "gl_remove sfnode_ops (last (0 # ys)) z (qlist m s)"
    let ?s = "upd_data_q m (gl_remove sfnode_ops (last (0 # ys)) z) s"
    have fz: "snd (z_queue_node_peek free z True ?s) = ?s" using fr by (simp add: z_queue_node_peek_def)
    have e: "queue_remove_loop free m d (last (0 # ys)) (hd ((z # zs) @ [0])) s = Some (True, ?s)"
      using z pk True fz by (subst queue_remove_loop.simps) simp
    have ws: "words (objs ?s) = snd ?r" "qlist m ?s = ?r" by simp_all
    have nd: "node_data (snd ?r) x = node_data (words (objs s)) x" if "x \<in> set (ys @ z # zs)" for x
      using node_data_keep [OF Cons.prems R(2,3) that] by simp
    have "queue_ok m (ys @ zs) ?s"
      unfolding queue_ok_def ws(2) unfolding ws(1) R(2) using R(1) d(4,5) by auto
    moreover have "obj_step (WqQueue m) s ?s" unfolding upd_data_q_def by (intro obj_step_quiet s)
    moreover have "queue_data ys ?s = queue_data ys s" "queue_data zs ?s = queue_data zs s" unfolding ws(1) using nd by simp_all
    ultimately show ?thesis using e True
      by (intro exI [of _ ?s] exI [of _ zs]) simp
  next
    case False
    have n: "gl_peek_next sfnode_ops z (words (objs s)) = hd (zs @ [0])"
    proof -
      have "lseg sfnode_ops (words (objs s)) (z_sfnode_next_peek z (words (objs s))) zs 0"
        using list_repD(1) [OF d(1)] by (auto simp: lseg_append)
      from lseg_head [OF this] z show ?thesis by (cases zs) (simp_all add: gl_peek_next_def gl_peek_next_no_check_def)
    qed
    have e: "queue_remove_loop free m d (last (0 # ys)) (hd ((z # zs) @ [0])) s = queue_remove_loop free m d z (hd (zs @ [0])) s"
      using z pk False n by (subst queue_remove_loop.simps) simp
    from Cons.IH [of "ys @ [z]"] Cons.prems obtain s' zs' where
      I: "queue_remove_loop free m d (last (0 # ys @ [z])) (hd (zs @ [0])) s = Some (d \<in> set (queue_data zs s), s')"
      "queue_ok m ((ys @ [z]) @ zs') s'" "queue_data (ys @ [z]) s' = queue_data (ys @ [z]) s"
      "queue_data zs' s' = remove1 d (queue_data zs s)" "obj_step (WqQueue m) s s'" "waitq s' = waitq s" by auto
    then show ?thesis using e False by (intro exI [of _ s'] exI [of _ "z # zs'"]) auto
  qed
qed

section \<open>Property\<close>

datatype queue_op = QPut bool nat | QPutAlloc bool nat | QGet int | QRemove nat
datatype queue_res = QRet int | QData nat | QWait | QFound bool

fun queue_exec :: "malloc \<Rightarrow> free \<Rightarrow> nat \<Rightarrow> queue_op \<Rightarrow> kernel \<Rightarrow> (queue_res \<times> kernel) option" where
  "queue_exec malloc free m (QPut ap d) s =
     Some (QRet 0, if ap then k_queue_append m d s else k_queue_prepend m d s)"
| "queue_exec malloc free m (QPutAlloc ap d) s =
     Some (map_prod QRet id (if ap then k_queue_alloc_append malloc m d s else k_queue_alloc_prepend malloc m d s))"
| "queue_exec malloc free m (QGet n) s =
     Some (map_prod (\<lambda>r. case r of Ret v \<Rightarrow> QData v | _ \<Rightarrow> QWait) id (k_queue_get free m n s))"
| "queue_exec malloc free m (QRemove d) s = map_option (map_prod QFound id) (k_queue_remove free m d s)"

text \<open>
  A queue of data with a queue of waiting readers; \<open>room\<close> tells whether the allocator has memory
  for a node.  A step gives the result, the reader that is handed data, the new data and the new readers.
\<close>

fun queue_spec :: "bool \<Rightarrow> (tid list \<Rightarrow> tid list) \<Rightarrow> queue_op \<Rightarrow> nat list \<times> tid list \<Rightarrow>
    queue_res \<times> (tid \<times> nat) option \<times> nat list \<times> tid list" where
  "queue_spec room ins (QPut ap d) (ds, t # ts) = (QRet 0, Some (t, d), ds, ts)"
| "queue_spec room ins (QPut ap d) (ds, []) = (QRet 0, None, if ap then ds @ [d] else d # ds, [])"
| "queue_spec room ins (QPutAlloc ap d) (ds, t # ts) = (QRet 0, Some (t, d), ds, ts)"
| "queue_spec room ins (QPutAlloc ap d) (ds, []) =
     (if room then (QRet 0, None, if ap then ds @ [d] else d # ds, []) else (QRet (- ENOMEM), None, ds, []))"
| "queue_spec room ins (QGet n) (d # ds, ts) = (QData d, None, ds, ts)"
| "queue_spec room ins (QGet n) ([], ts) = (if n = K_NO_WAIT then (QData 0, None, [], ts) else (QWait, None, [], ins ts))"
| "queue_spec room ins (QRemove d) (ds, ts) = (QFound (d \<in> set ds), None, remove1 d ds, ts)"

lemma queue_insert_wake:
  assumes s: "sched_ok s" and q: "queue_ok m xs s" and w: "waitq s (WqQueue m) = t # ts"
  shows "\<exists>s'. queue_insert malloc m prev d al ap s = (0, s') \<and> queue_ok m xs s' \<and> obj_step (WqQueue m) s s' \<and>
    waitq s' = (waitq s)(WqQueue m := ts) \<and> objs s' = objs s \<and>
    swap_retval (threads s' t) = 0 \<and> swap_data (threads s' t) = d \<and> pended_on (threads s' t) = None"
proof -
  define s' where "s' = reschedule (wake_turn (\<lambda>th. th\<lparr>swap_retval := 0, swap_data := d\<rparr>) t s)"
  note r = wake_resched_rule [OF s w keeps_retval(1) [where r = 0 and d = d], folded s'_def]
  have "queue_insert malloc m prev d al ap s = (0, s')"
    by (simp add: queue_insert_def sched_wake_turn [OF sched_okD(1) [OF s] w] s'_def Let_def)
  moreover have "queue_ok m xs s'" using q w r(3,4) by (auto simp: queue_ok_def)
  moreover have "obj_step (WqQueue m) s s'" unfolding s'_def by (rule obj_step_hand [OF s w]) simp
  ultimately show ?thesis using r(3,4) by (intro exI [of _ s']) (simp add: r(9), simp add: waked_def)
qed

lemma queue_insert_put:
  assumes s: "sched_ok s" and q: "queue_ok m xs s" and w: "waitq s (WqQueue m) = []"
    and n: "al \<Longrightarrow> malloc ALLOC_NODE_SIZE s = (Some n, s)" "\<not> al \<Longrightarrow> v = n"
      "sf_aligned n" "fresh_node xs s (if al then {n, n + ALLOC_NODE_DATA} else {n})"
  shows "\<exists>s' xs'. queue_insert malloc m 0 v al ap s = (0, s') \<and> obj_step (WqQueue m) s s' \<and> queue_ok m xs' s' \<and>
    queue_data xs' s' = (if ap then queue_data xs s @ [v] else v # queue_data xs s) \<and> waitq s' = waitq s"
proof -
  have e: "queue_insert malloc m 0 v al ap s =
    (0, upd_data_q m (gl_insert sfnode_ops (if ap then l_tail (data_q (queue_of m s)) else 0) n)
       (upd_words_by (sys_sfnode_init n (if al then 1 else 0)) (if al then upd_words (n + ALLOC_NODE_DATA) v s else s)))"
    using w n(1,2) by (auto simp: queue_insert_def sched_wake_empty Let_def)
  have v: "(if al then v else n) = v" using n(2) by simp
  note p = queue_put_rule [OF s q w n(3,4), where ap = ap and d = v, unfolded v Let_def]
  show ?thesis by (intro exI conjI, rule e, rule p(2), rule p(1), rule p(4), rule p(3))
qed


lemma app_queue_ok: "queue_ok m [] app"
  by (simp add: queue_ok_def init_objs_def sfl.rep_init)


end
