(* ===== verification/Events.thy ===== *)
theory Events
  imports Kernel_Objects
begin

text \<open>
  Event objects, \<^verbatim>\<open>kernel/events.c\<close>, with the simple wait queue: the walk over the waiting threads wakes
  each thread whose condition is met.
\<close>

unbundle bit_operations_syntax

section \<open>Operations\<close>

abbreviation event_of :: "nat \<Rightarrow> kernel \<Rightarrow> k_event" where
  "event_of m s \<equiv> events (objs s) m"

definition upd_event :: "nat \<Rightarrow> (k_event \<Rightarrow> k_event) \<Rightarrow> kernel \<Rightarrow> kernel" where
  "upd_event m f = upd_objs (\<lambda>b. b\<lparr>events := (events b)(m := f (events b m))\<rparr>)"

definition K_EVENT_WAIT_ANY :: "32 word" where "K_EVENT_WAIT_ANY = 0"
definition K_EVENT_WAIT_ALL :: "32 word" where "K_EVENT_WAIT_ALL = 1"
definition K_EVENT_WAIT_MASK :: "32 word" where "K_EVENT_WAIT_MASK = 1"
definition K_EVENT_OPTION_RESET :: "32 word" where "K_EVENT_OPTION_RESET = 2"
definition K_EVENT_OPTION_CLEAR :: "32 word" where "K_EVENT_OPTION_CLEAR = 4"

definition k_event_init :: "nat \<Rightarrow> kernel \<Rightarrow> kernel" where
  "k_event_init m s = z_waitq_init (WqEvent m) (upd_event m (\<lambda>e. e\<lparr>event_bits := 0\<rparr>) s)"

definition are_wait_conditions_met :: "32 word \<Rightarrow> 32 word \<Rightarrow> 32 word \<Rightarrow> 32 word" where
  "are_wait_conditions_met desired cur wait_condition =
     (let match = cur AND desired
      in if wait_condition = K_EVENT_WAIT_ALL \<and> match \<noteq> desired then 0 else match)"

text \<open>The walk data are the events and the events to clear.\<close>

definition event_walk_op :: "tid \<Rightarrow> (32 word \<times> 32 word) \<times> kernel \<Rightarrow> int \<times> (32 word \<times> 32 word) \<times> kernel" where
  "event_walk_op thread = (\<lambda>((evs, clear_events), s).
     let th = threads s thread;
         wait_condition = event_options th AND K_EVENT_WAIT_MASK;
         match = are_wait_conditions_met (thread_events th) evs wait_condition
     in if match \<noteq> 0
        then let s1 = upd_thread thread (\<lambda>th. th\<lparr>thread_events := match\<rparr>) s;
                 clear = (if event_options th AND K_EVENT_OPTION_CLEAR \<noteq> 0 then clear_events OR match else clear_events);
                 s2 = snd (z_try_abort_thread_timeout thread s1);
                 s3 = upd_thread thread (\<lambda>th. th\<lparr>swap_retval := 0\<rparr>) s2
             in (0, (evs, clear), z_sched_wake_thread_locked thread s3)
        else (0, (evs, clear_events), s))"

definition k_event_post_internal :: "nat \<Rightarrow> 32 word \<Rightarrow> 32 word \<Rightarrow> kernel \<Rightarrow> 32 word \<times> kernel" where
  "k_event_post_internal m evs events_mask s =
     (let previous_events = event_bits (event_of m s) AND events_mask;
          evs = (event_bits (event_of m s) AND NOT events_mask) OR (evs AND events_mask);
          (_, (evs1, clear), s1) = z_sched_waitq_walk (WqEvent m) event_walk_op None ((evs, 0), s);
          s2 = upd_event m (\<lambda>e. e\<lparr>event_bits := evs1 AND NOT clear\<rparr>) s1
      in (previous_events, reschedule s2))"

definition k_event_post :: "nat \<Rightarrow> 32 word \<Rightarrow> kernel \<Rightarrow> 32 word \<times> kernel" where
  "k_event_post m evs = k_event_post_internal m evs evs"

definition k_event_set :: "nat \<Rightarrow> 32 word \<Rightarrow> kernel \<Rightarrow> 32 word \<times> kernel" where
  "k_event_set m evs = k_event_post_internal m evs (NOT 0)"

definition k_event_set_masked :: "nat \<Rightarrow> 32 word \<Rightarrow> 32 word \<Rightarrow> kernel \<Rightarrow> 32 word \<times> kernel" where
  "k_event_set_masked m evs events_mask = k_event_post_internal m evs events_mask"

definition k_event_clear :: "nat \<Rightarrow> 32 word \<Rightarrow> kernel \<Rightarrow> 32 word \<times> kernel" where
  "k_event_clear m evs = k_event_post_internal m 0 evs"

definition k_event_wait_internal :: "nat \<Rightarrow> 32 word \<Rightarrow> 32 word \<Rightarrow> int \<Rightarrow> kernel \<Rightarrow> 32 word kres \<times> kernel" where
  "k_event_wait_internal m evs options timeout s =
     (if evs = 0 then (Ret 0, s)
      else let wait_condition = options AND K_EVENT_WAIT_MASK;
               s1 = (if options AND K_EVENT_OPTION_RESET \<noteq> 0 then upd_event m (\<lambda>e. e\<lparr>event_bits := 0\<rparr>) s else s);
               rv = are_wait_conditions_met evs (event_bits (event_of m s1)) wait_condition
           in if rv \<noteq> 0
              then (Ret rv, if options AND K_EVENT_OPTION_CLEAR \<noteq> 0
                            then upd_event m (\<lambda>e. e\<lparr>event_bits := event_bits e AND NOT rv\<rparr>) s1 else s1)
              else if timeout = K_NO_WAIT then (Ret 0, s1)
              else let s2 = upd_thread (current s1) (\<lambda>th. th\<lparr>thread_events := evs, event_options := options\<rparr>) s1
                   in apfst (map_kres (\<lambda>_. 0)) (z_pend_curr (Some (WqEvent m)) timeout s2))"

definition k_event_wait_resume :: "kernel \<Rightarrow> 32 word" where
  "k_event_wait_resume s = (if do_swap_resume s = 0 then thread_events (threads s (current s)) else 0)"

definition k_event_wait :: "nat \<Rightarrow> 32 word \<Rightarrow> bool \<Rightarrow> int \<Rightarrow> kernel \<Rightarrow> 32 word kres \<times> kernel" where
  "k_event_wait m evs rst timeout = k_event_wait_internal m evs (if rst then K_EVENT_OPTION_RESET else 0) timeout"

definition k_event_wait_all :: "nat \<Rightarrow> 32 word \<Rightarrow> bool \<Rightarrow> int \<Rightarrow> kernel \<Rightarrow> 32 word kres \<times> kernel" where
  "k_event_wait_all m evs rst timeout =
     k_event_wait_internal m evs (if rst then K_EVENT_OPTION_RESET OR K_EVENT_WAIT_ALL else K_EVENT_WAIT_ALL) timeout"

definition k_event_wait_safe :: "nat \<Rightarrow> 32 word \<Rightarrow> bool \<Rightarrow> int \<Rightarrow> kernel \<Rightarrow> 32 word kres \<times> kernel" where
  "k_event_wait_safe m evs rst timeout =
     k_event_wait_internal m evs (if rst then K_EVENT_OPTION_CLEAR OR K_EVENT_OPTION_RESET else K_EVENT_OPTION_CLEAR) timeout"

definition k_event_wait_all_safe :: "nat \<Rightarrow> 32 word \<Rightarrow> bool \<Rightarrow> int \<Rightarrow> kernel \<Rightarrow> 32 word kres \<times> kernel" where
  "k_event_wait_all_safe m evs rst timeout =
     k_event_wait_internal m evs (if rst then (K_EVENT_OPTION_CLEAR OR K_EVENT_OPTION_RESET) OR K_EVENT_WAIT_ALL
       else K_EVENT_OPTION_CLEAR OR K_EVENT_WAIT_ALL) timeout"

definition k_event_test :: "nat \<Rightarrow> 32 word \<Rightarrow> kernel \<Rightarrow> 32 word kres \<times> kernel" where
  "k_event_test m events_mask = k_event_wait m events_mask False K_NO_WAIT"

section \<open>Waking one thread\<close>

text \<open>The condition of a waiting thread for given events.\<close>

definition wanted :: "k_thread \<Rightarrow> 32 word \<Rightarrow> 32 word" where
  "wanted th evs = are_wait_conditions_met (thread_events th) evs (event_options th AND K_EVENT_WAIT_MASK)"

text \<open>No waiting thread has been missed: the condition of each is not met.\<close>

definition event_ok :: "nat \<Rightarrow> kernel \<Rightarrow> bool" where
  "event_ok m s \<longleftrightarrow> (\<forall>t \<in> set (waitq s (WqEvent m)). wanted (threads s t) (event_bits (event_of m s)) = 0)"

lemma upd_event_sel [simp]:
  "objs (upd_event m f s) = (objs s)\<lparr>events := (events (objs s))(m := f (events (objs s) m))\<rparr>"
  "waitq (upd_event m f s) = waitq s" "threads (upd_event m f s) = threads s" "current (upd_event m f s) = current s"
  "in_isr (upd_event m f s) = in_isr s" "idle_thread (upd_event m f s) = idle_thread s"
  "sched_ok (upd_event m f s) = sched_ok s" "resched_ok (upd_event m f s) = resched_ok s"
  "timeout_fits n (upd_event m f s) = timeout_fits n s"
  by (simp_all add: upd_event_def)

lemma abort_waitq_commute: "snd (z_try_abort_thread_timeout t (s\<lparr>waitq := f\<rparr>)) = (snd (z_try_abort_thread_timeout t s))\<lparr>waitq := f\<rparr>"
proof -
  have r: "reprogram_next Q n (s\<lparr>waitq := f\<rparr>) = (reprogram_next Q n s)\<lparr>waitq := f\<rparr>" for Q n and s :: "'a kstate"
    by (simp add: reprogram_next_def sys_clock_set_timeout_def sys_clock_no_timeout_def next_timeout_def)
  have i: "inflight_mark_superseded (s\<lparr>waitq := f\<rparr>) = (inflight_mark_superseded s)\<lparr>waitq := f\<rparr>" for s :: "'a kstate"
    by (simp add: inflight_mark_superseded_def)
  have e: "elapsed (s\<lparr>waitq := f\<rparr>) = elapsed s" "inflight_ptr (s\<lparr>waitq := f\<rparr>) = inflight_ptr s" for s :: "'a kstate"
    by (simp_all add: inflight_ptr_def elapsed_def this_cpu_announcing_def)
  have q: "s\<lparr>waitq := f, tq := q\<rparr> = s\<lparr>tq := q, waitq := f\<rparr>" for q and s :: "'a kstate" by simp
  show ?thesis
    by (simp add: z_try_abort_thread_timeout_def z_try_abort_timeout_def Let_def case_prod_unfold r i e q)
qed

definition got :: "32 word \<Rightarrow> k_thread \<Rightarrow> k_thread" where
  "got k th = th\<lparr>thread_events := k, swap_retval := 0\<rparr>"

lemma keeps_got [simp]: "keeps_locks (got k)" "keeps_state (got k)"
  by (simp_all add: got_def keeps_locks_def keeps_state_def)

lemma upd_thread_twice: "upd_thread t f (upd_thread t g s) = upd_thread t (f \<circ> g) s"
  by (simp add: upd_thread_def)

lemma not_sleeping_same: "\<not> z_is_thread_sleeping th \<Longrightarrow> z_mark_thread_as_not_sleeping th = th"
  using bit.conj_disj_distrib [of "thread_state th" THREAD_SLEEPING "NOT THREAD_SLEEPING"]
  by (simp add: z_is_thread_sleeping_def z_mark_thread_as_not_sleeping_def)

lemma got_unpend: "(z_mark_thread_as_not_pending (got k th))\<lparr>pended_on := None\<rparr> =
    got k ((z_mark_thread_as_not_pending th)\<lparr>pended_on := None\<rparr>)"
  by (cases th) (simp add: got_def z_mark_thread_as_not_pending_def)

lemma event_wake_eq:
  assumes s: "sinv {} s" and p: "pended_on (threads s t) = Some w"
    and n: "\<not> z_is_thread_sleeping (threads s t)" "\<not> z_is_thread_aborting (threads s t)"
  shows "z_sched_wake_thread_locked t (upd_thread t (\<lambda>th. th\<lparr>swap_retval := 0\<rparr>)
      (snd (z_try_abort_thread_timeout t (upd_thread t (\<lambda>th. th\<lparr>thread_events := k\<rparr>) s)))) = wake_turn (got k) t s"
proof -
  let ?a = "snd (z_try_abort_thread_timeout t s)"
  have d: "\<not> z_is_thread_dead (threads s t)" using sinvD(15) [OF s, of t] p by auto
  define x where "x = upd_thread t (\<lambda>th. th\<lparr>swap_retval := 0\<rparr>) (snd (z_try_abort_thread_timeout t (upd_thread t (\<lambda>th. th\<lparr>thread_events := k\<rparr>) s)))"
  have x: "x = upd_thread t (got k) ?a"
    unfolding x_def by (simp add: abort_upd_commute upd_thread_twice) (simp add: upd_thread_def got_def comp_def)
  define y where "y = upd_thread t (got k) (snd (z_try_abort_thread_timeout t (unpend_thread_no_timeout t s)))"
  have u: "unpend_thread_no_timeout t x = y"
    unfolding x y_def unpend_eq [OF p]
    by (subst unpend_eq [of _ _ w])
      (simp add: p got_def, simp add: abort_upd_commute abort_waitq_commute, simp add: upd_thread_def got_unpend)
  have "pended_on (threads x t) = Some w" "\<not> z_is_thread_dead (threads x t)" "\<not> z_is_thread_aborting (threads x t)"
    using p d n by (simp_all add: x got_def z_is_thread_aborting_def)
  moreover have "upd_thread t z_mark_thread_as_not_sleeping y = y"
    using n unfolding y_def by (simp add: upd_thread_def unpend_eq [OF p] not_sleeping_same got_def)
  ultimately show ?thesis
    unfolding x_def [symmetric] by (simp add: z_sched_wake_thread_locked_def killed_iff u wake_turn_def flip: y_def)
qed

section \<open>The walk\<close>

definition taken :: "k_thread \<Rightarrow> 32 word \<Rightarrow> 32 word" where
  "taken th evs = (if event_options th AND K_EVENT_OPTION_CLEAR \<noteq> 0 then wanted th evs else 0)"

definition all_taken :: "(tid \<Rightarrow> k_thread) \<Rightarrow> 32 word \<Rightarrow> tid list \<Rightarrow> 32 word" where
  "all_taken f evs ts = foldr (\<lambda>t c. taken (f t) evs OR c) ts 0"

lemma all_taken_simps [simp]:
  "all_taken f evs [] = 0" "all_taken f evs (t # ts) = taken (f t) evs OR all_taken f evs ts"
  by (simp_all add: all_taken_def)

lemma all_taken_cong: "(\<And>t. t \<in> set ts \<Longrightarrow> f t = g t) \<Longrightarrow> all_taken f evs ts = all_taken g evs ts"
  by (induction ts) simp_all

lemma event_walk_op_eq:
  assumes s: "sinv {} s" and t: "t \<in> set (waitq s w)"
    and n: "\<not> z_is_thread_sleeping (threads s t)" "\<not> z_is_thread_aborting (threads s t)"
  shows "event_walk_op t ((evs, c), s) = (0, (evs, c OR taken (threads s t) evs),
    if wanted (threads s t) evs \<noteq> 0 then wake_turn (got (wanted (threads s t) evs)) t s else s)"
proof -
  have p: "pended_on (threads s t) = Some w" using sinv_simps(6) [OF s] t by simp
  show ?thesis
    by (auto simp: event_walk_op_def Let_def event_wake_eq [OF s p n] taken_def simp flip: wanted_def)
qed

lemma event_walk_rule:
  assumes "sinv {} s" and "cache_ok s" and "set ts \<subseteq> set (waitq s w)" and "distinct ts"
    and "\<forall>t \<in> set ts. \<not> z_is_thread_sleeping (threads s t) \<and> \<not> z_is_thread_aborting (threads s t)"
  shows "\<exists>s'. waitq_walk event_walk_op ts ((evs, c), s) = (0, (evs, c OR all_taken (threads s) evs ts), s') \<and>
    sinv {} s' \<and> cache_ok s' \<and> current s' = current s \<and> objs s' = objs s \<and> in_isr s' = in_isr s \<and>
    idle_thread s' = idle_thread s \<and> (\<forall>n. timeout_fits n s' = timeout_fits n s) \<and>
    waitq s' = (waitq s)(w := filter (\<lambda>t. t \<notin> set ts \<or> wanted (threads s t) evs = 0) (waitq s w)) \<and>
    (\<forall>u. threads s' u = (if u \<in> set ts \<and> wanted (threads s u) evs \<noteq> 0
       then waked (got (wanted (threads s u) evs)) (threads s u) else threads s u)) \<and>
    (\<forall>u. armed s' u \<longleftrightarrow> armed s u \<and> \<not> (u \<in> set ts \<and> wanted (threads s u) evs \<noteq> 0))"
  using assms
proof (induction ts arbitrary: s c)
  case Nil
  then show ?case by simp
next
  case (Cons t ts)
  note s = Cons.prems(1)
  have tw: "t \<in> set (waitq s w)" using Cons.prems(3) by simp
  have p: "pended_on (threads s t) = Some w" using sinv_simps(6) [OF s] tw by simp
  have n: "\<not> z_is_thread_sleeping (threads s t)" "\<not> z_is_thread_aborting (threads s t)" using Cons.prems(5) by auto
  note op = event_walk_op_eq [OF s tw n, of evs c]
  have ts: "t \<notin> set ts" "distinct ts" using Cons.prems(4) by auto
  show ?case
  proof (cases "wanted (threads s t) evs = 0")
    case True
    then have z: "taken (threads s t) evs = 0" by (simp add: taken_def)
    have f: "filter (\<lambda>x. x \<noteq> t \<and> x \<notin> set ts \<or> wanted (threads s x) evs = 0) (waitq s w) =
        filter (\<lambda>x. x \<notin> set ts \<or> wanted (threads s x) evs = 0) (waitq s w)"
      using True by (intro filter_cong) auto
    from Cons.IH [OF s Cons.prems(2) _ ts(2), of c] Cons.prems(3,5) True z f show ?thesis
      by (simp add: op) (elim exE conjE, intro exI conjI, assumption+, auto)
  next
    case False
    let ?g = "got (wanted (threads s t) evs)"
    let ?s1 = "wake_turn ?g t s"
    note r = wake_turn_rule [OF s p, of ?g, simplified]
    have th: "threads ?s1 = (threads s)(t := waked ?g (threads s t))" using r(4) by (simp add: waked_def)
    have d: "distinct (waitq s w)" by (rule sinvD(8) [OF s])
    have sub: "set ts \<subseteq> set (waitq ?s1 w)" using Cons.prems(3) ts(1) by (auto simp: r(3) set_remove1_eq [OF d])
    have cl: "\<forall>x \<in> set ts. \<not> z_is_thread_sleeping (threads ?s1 x) \<and> \<not> z_is_thread_aborting (threads ?s1 x)"
      using Cons.prems(5) ts(1) by (auto simp: th)
    have q: "filter (\<lambda>x. x \<notin> set ts \<or> wanted (threads ?s1 x) evs = 0) (waitq ?s1 w) =
        filter (\<lambda>x. x \<notin> set (t # ts) \<or> wanted (threads s x) evs = 0) (waitq s w)"
      using False ts(1) by (auto simp: r(3) distinct_remove1_removeAll [OF d] removeAll_filter_not_eq th intro!: filter_cong)
    have at: "all_taken (threads ?s1) evs ts = all_taken (threads s) evs ts"
      using ts(1) by (intro all_taken_cong) (auto simp: th)
    from Cons.IH [OF r(1) r(2) [OF Cons.prems(2)] sub ts(2) cl, of "c OR taken (threads s t) evs"] obtain s' where
      S: "waitq_walk event_walk_op ts ((evs, c OR taken (threads s t) evs), ?s1) =
          (0, (evs, (c OR taken (threads s t) evs) OR all_taken (threads ?s1) evs ts), s')" "sinv {} s'" "cache_ok s'"
        "current s' = current ?s1" "objs s' = objs ?s1" "in_isr s' = in_isr ?s1" "idle_thread s' = idle_thread ?s1"
        "\<forall>n. timeout_fits n s' = timeout_fits n ?s1"
        "waitq s' = (waitq ?s1)(w := filter (\<lambda>x. x \<notin> set ts \<or> wanted (threads ?s1 x) evs = 0) (waitq ?s1 w))"
        "\<forall>u. threads s' u = (if u \<in> set ts \<and> wanted (threads ?s1 u) evs \<noteq> 0
           then waked (got (wanted (threads ?s1 u) evs)) (threads ?s1 u) else threads ?s1 u)"
        "\<forall>u. armed s' u \<longleftrightarrow> armed ?s1 u \<and> \<not> (u \<in> set ts \<and> wanted (threads ?s1 u) evs \<noteq> 0)"
      by blast
    have W: "waitq s' = (waitq s)(w := filter (\<lambda>x. x \<notin> set (t # ts) \<or> wanted (threads s x) evs = 0) (waitq s w))"
      using S(9) unfolding q by (simp add: r(3))
    have T: "threads s' u = (if u \<in> set (t # ts) \<and> wanted (threads s u) evs \<noteq> 0
        then waked (got (wanted (threads s u) evs)) (threads s u) else threads s u)" for u
      using S(10) False ts(1) by (auto simp: th)
    have A: "armed s' u \<longleftrightarrow> armed s u \<and> \<not> (u \<in> set (t # ts) \<and> wanted (threads s u) evs \<noteq> 0)" for u
      using S(11) False ts(1) by (auto simp: th r(5))
    show ?thesis
    proof (intro exI conjI allI)
      show "waitq_walk event_walk_op (t # ts) ((evs, c), s) = (0, (evs, c OR all_taken (threads s) evs (t # ts)), s')"
        using S(1) False by (simp add: op at or.assoc)
    qed (use S W T A in simp_all)
  qed
qed

section \<open>Posting and waiting\<close>

definition posted :: "nat \<Rightarrow> 32 word \<Rightarrow> 32 word \<Rightarrow> kernel \<Rightarrow> 32 word" where
  "posted m evs msk s = (event_bits (event_of m s) AND NOT msk) OR (evs AND msk)"

lemma wanted_less:
  assumes "wanted th evs = 0"
  shows "wanted th (evs AND x) = 0"
proof -
  let ?d = "thread_events th"
  have "(evs AND x) AND ?d = x AND (evs AND ?d)" by (simp add: and.assoc and.commute and.left_commute)
  moreover have "evs AND ?d = ?d" if "x AND (evs AND ?d) = ?d"
    using arg_cong [OF that, of "\<lambda>y. evs AND y"] that by (simp add: and.left_commute)
  ultimately show ?thesis using assms by (auto simp: wanted_def are_wait_conditions_met_def Let_def split: if_splits)
qed

lemma event_post_rule:
  fixes s :: kernel and m :: nat and evs msk :: "32 word"
  assumes s: "sched_ok s" and fl: "flags_ok s"
  defines "s' \<equiv> snd (k_event_post_internal m evs msk s)" and "e \<equiv> posted m evs msk s" and "q \<equiv> waitq s (WqEvent m)"
  shows "fst (k_event_post_internal m evs msk s) = event_bits (event_of m s) AND msk"
    "obj_step (WqEvent m) s s'" "resched_ok s'"
    "objs s' = (objs s)\<lparr>events := (events (objs s))(m := (event_of m s)\<lparr>event_bits := e AND NOT (all_taken (threads s) e q)\<rparr>)\<rparr>"
    "waitq s' = (waitq s)(WqEvent m := filter (\<lambda>t. wanted (threads s t) e = 0) q)"
    "t \<in> set q \<Longrightarrow> wanted (threads s t) e \<noteq> 0 \<Longrightarrow> threads s' t = waked (got (wanted (threads s t) e)) (threads s t)"
    "t \<in> set q \<Longrightarrow> wanted (threads s t) e = 0 \<Longrightarrow> threads s' t = threads s t"
proof -
  note i = sched_okD [OF s]
  have fs: "\<forall>t \<in> set q. \<not> z_is_thread_sleeping (threads s t) \<and> \<not> z_is_thread_aborting (threads s t)"
    using fl sinv_simps(6) [OF i(1)] by (auto simp: flags_ok_def q_def)
  from event_walk_rule [OF i(1,2), of q "WqEvent m" e 0] fs sinvD(8) [OF i(1)] obtain s1 where
    W: "waitq_walk event_walk_op q ((e, 0), s) = (0, (e, all_taken (threads s) e q), s1)"
    and I: "sinv {} s1" "cache_ok s1" and S: "current s1 = current s" "objs s1 = objs s" "in_isr s1 = in_isr s" "idle_thread s1 = idle_thread s"
    and Q: "waitq s1 = (waitq s)(WqEvent m := filter (\<lambda>t. t \<notin> set q \<or> wanted (threads s t) e = 0) q)"
    and T: "\<And>u. threads s1 u = (if u \<in> set q \<and> wanted (threads s u) e \<noteq> 0
       then waked (got (wanted (threads s u) e)) (threads s u) else threads s u)"
    by (auto simp: q_def)
  define f where "f = (\<lambda>b :: kobjs. b\<lparr>events := (events b)(m := (events b m)\<lparr>event_bits := e AND NOT (all_taken (threads s) e q)\<rparr>)\<rparr>)"
  have E: "k_event_post_internal m evs msk s = (event_bits (event_of m s) AND msk, reschedule (upd_objs f s1))"
    using W by (simp add: k_event_post_internal_def Let_def z_sched_waitq_walk_def q_def upd_event_def f_def e_def posted_def)
  then have s': "s' = reschedule (upd_objs f s1)" by (simp add: s'_def)
  show "fst (k_event_post_internal m evs msk s) = event_bits (event_of m s) AND msk" by (simp add: E)
  have nc: "current s \<notin> set q" if "\<not> in_isr s"
    using ready_not_pended [OF i(1) i(3) [OF that]] sinv_simps(6) [OF i(1)] by (auto simp: q_def)
  have rc: "RDY s1 (current s)" if "\<not> in_isr s" using nc i(3) that by (simp add: T)
  have R: "sched_ok s'" "resched_ok s'" unfolding s'
    by (rule reschedule_ok; use I rc S in simp)+
  show "resched_ok s'" by fact
  have th: "threads s' u = threads s1 u" if "u \<in> set q" for u
    using that nc S by (auto simp: s' resched_def)
  show "t \<in> set q \<Longrightarrow> wanted (threads s t) e \<noteq> 0 \<Longrightarrow> threads s' t = waked (got (wanted (threads s t) e)) (threads s t)"
    "t \<in> set q \<Longrightarrow> wanted (threads s t) e = 0 \<Longrightarrow> threads s' t = threads s t" using th T by simp_all
  show Q': "waitq s' = (waitq s)(WqEvent m := filter (\<lambda>t. wanted (threads s t) e = 0) q)"
    by (auto simp: s' Q intro!: filter_cong)
  show "objs s' = (objs s)\<lparr>events := (events (objs s))(m := (event_of m s)\<lparr>event_bits := e AND NOT (all_taken (threads s) e q)\<rparr>)\<rparr>"
    by (simp add: s' f_def S)
  have rd: "retval_diff (threads s1 u) (threads s' u)" for u unfolding s' using reschedule_retval [of "upd_objs f s1" u] by simp
  have "wait_diff (threads s u) (threads s' u)" for u
    using wait_diff_retval [OF rd [of u]] wait_diff_waked th [of u] T by (cases "u \<in> set q") auto
  moreover have "retval_diff (threads s u) (threads s' u)" if "v \<noteq> WqEvent m" "u \<in> set (waitq s v)" for u v
    using rd [of u] T other_queue [OF s that(2)] that(1) by (auto simp: q_def)
  ultimately show "obj_step (WqEvent m) s s'" using R Q' S by (intro obj_stepI) (simp_all add: s')
qed

lemma event_upd: "(e :: k_event)\<lparr>event_bits := k\<rparr> = \<lparr>event_bits = k\<rparr>"
  by (cases e) simp

lemma event_post_ok:
  assumes s: "sched_ok s" and fl: "flags_ok s"
  shows "event_ok m (snd (k_event_post_internal m evs msk s))"
proof -
  note r = event_post_rule [OF s fl, where m = m and evs = evs and msk = msk]
  show ?thesis unfolding event_ok_def r(4,5) by (auto simp: r(7) wanted_less)
qed

lemma event_wait_rule:
  fixes s :: kernel and m :: nat and evs opts :: "32 word" and n :: int
  assumes s: "sched_ok s" and m: "event_ok m s"
    and c: "n \<noteq> K_NO_WAIT \<Longrightarrow> \<not> in_isr s \<and> current s \<noteq> idle_thread s \<and> timeout_fits n s"
  defines "s' \<equiv> snd (k_event_wait_internal m evs opts n s)"
    and "b \<equiv> if opts AND K_EVENT_OPTION_RESET \<noteq> 0 then 0 else event_bits (event_of m s)"
  defines "rv \<equiv> are_wait_conditions_met evs b (opts AND K_EVENT_WAIT_MASK)"
  shows "obj_step (WqEvent m) s s'" "event_ok m s'"
    "objs s' = (if evs = 0 then objs s else (objs s)\<lparr>events := (events (objs s))(m := \<lparr>event_bits =
       (if opts AND K_EVENT_OPTION_CLEAR \<noteq> 0 then b AND NOT rv else b)\<rparr>)\<rparr>)"
    "fst (k_event_wait_internal m evs opts n s) =
       (if evs = 0 then Ret 0 else if rv \<noteq> 0 then Ret rv else if n = K_NO_WAIT then Ret 0 else Swapped)"
    "waitq s' = (if evs \<noteq> 0 \<and> rv = 0 \<and> n \<noteq> K_NO_WAIT
       then (waitq s)(WqEvent m := prio_insert (threads s) (current s) (waitq s (WqEvent m))) else waitq s)"
    "threads s' = (if evs \<noteq> 0 \<and> rv = 0 \<and> n \<noteq> K_NO_WAIT then (threads s)(current s := (blocked_on (Some (WqEvent m))
      ((threads s (current s))\<lparr>thread_events := evs, event_options := opts\<rparr>))\<lparr>swap_retval := - EAGAIN\<rparr>) else threads s)"
proof -
  let ?r = "if evs = 0 then Ret 0 else if rv \<noteq> 0 then Ret rv else if n = K_NO_WAIT then Ret 0 else Swapped"
  define s1 where "s1 = (if opts AND K_EVENT_OPTION_RESET \<noteq> 0 then upd_event m (\<lambda>e. e\<lparr>event_bits := 0\<rparr>) s else s)"
  have b: "event_bits (event_of m s1) = b" by (simp add: s1_def b_def)
  define f where "f = (\<lambda>k (o' :: kobjs). o'\<lparr>events := (events o')(m := \<lparr>event_bits = k\<rparr>)\<rparr>)"
  have s1: "s1 = upd_objs (f b) s"
    by (simp add: s1_def b_def f_def upd_event_def upd_objs_def fun_upd_idem event_upd)
  have o1: "obj_step (WqEvent m) s (upd_objs (f k) s)" "sched_ok (upd_objs (f k) s)" for k
    using s by (simp_all add: obj_step_quiet)
  let ?rest = "upd_objs (f (if opts AND K_EVENT_OPTION_CLEAR \<noteq> 0 then b AND NOT rv else b)) s"
  have less: "event_ok m (upd_objs (f (event_bits (event_of m s) AND k)) s)" for k
    using m by (auto simp: event_ok_def f_def wanted_less)
  have lb: "event_ok m (upd_objs (f (b AND k)) s)" for k using less [of k] less [of 0] by (simp add: b_def)
  have o: "objs ?rest = (objs s)\<lparr>events := (events (objs s))(m := \<lparr>event_bits =
       (if opts AND K_EVENT_OPTION_CLEAR \<noteq> 0 then b AND NOT rv else b)\<rparr>)\<rparr>" by (simp add: f_def)
  have fin: "upd_event m (\<lambda>e. e\<lparr>event_bits := event_bits e AND NOT rv\<rparr>) s1 = upd_objs (f (b AND NOT rv)) s"
    by (simp add: s1 upd_event_def f_def comp_def event_upd)
  have E: "k_event_wait_internal m evs opts n s = (if evs = 0 then (Ret 0, s) else if rv \<noteq> 0 then (Ret rv, ?rest)
     else if n = K_NO_WAIT then (Ret 0, upd_objs (f b) s)
     else apfst (map_kres (\<lambda>_. 0)) (z_pend_curr (Some (WqEvent m)) n
       (upd_thread (current s1) (\<lambda>th. th\<lparr>thread_events := evs, event_options := opts\<rparr>) s1)))"
    unfolding k_event_wait_internal_def Let_def s1_def [symmetric] b rv_def [symmetric] fin by (simp add: s1)
  consider (z) "evs = 0" | (met) "evs \<noteq> 0" "rv \<noteq> 0" | (now) "evs \<noteq> 0" "rv = 0" "n = K_NO_WAIT"
    | (block) "evs \<noteq> 0" "rv = 0" "n \<noteq> K_NO_WAIT" by blast
  then have "obj_step (WqEvent m) s s' \<and> event_ok m s' \<and> objs s' = (if evs = 0 then objs s else objs ?rest) \<and>
    waitq s' = (if evs \<noteq> 0 \<and> rv = 0 \<and> n \<noteq> K_NO_WAIT
       then (waitq s)(WqEvent m := prio_insert (threads s) (current s) (waitq s (WqEvent m))) else waitq s) \<and>
    threads s' = (if evs \<noteq> 0 \<and> rv = 0 \<and> n \<noteq> K_NO_WAIT then (threads s)(current s := (blocked_on (Some (WqEvent m))
      ((threads s (current s))\<lparr>thread_events := evs, event_options := opts\<rparr>))\<lparr>swap_retval := - EAGAIN\<rparr>) else threads s) \<and>
    fst (k_event_wait_internal m evs opts n s) = ?r"
  proof cases
    case z
    then have "s' = s" unfolding s'_def E by simp
    with z m s show ?thesis unfolding E using obj_step_quiet [OF s, of "WqEvent m" "\<lambda>x. x"] by (simp add: upd_objs_def)
  next
    case met
    then have "s' = ?rest" unfolding s'_def E by simp
    with met o1 lb [of "NOT rv"] lb [of "- 1"] show ?thesis unfolding E by simp
  next
    case now
    then have "s' = ?rest" unfolding s'_def E by simp
    with now o1 lb [of "- 1"] show ?thesis unfolding E by simp
  next
    case block
    have s1ok: "sched_ok s1" "\<not> in_isr s1" "current s1 \<noteq> idle_thread s1" "timeout_fits n s1" using c block s by (simp_all add: s1)
    have wq: "WqEvent m \<noteq> WqJoin t" for t by simp
    note B = obj_step_block [OF s1ok keeps_locks_simps(5) [of opts evs] wq]
    have s': "s' = snd (z_pend_curr (Some (WqEvent m)) n
       (upd_thread (current s1) (\<lambda>th. th\<lparr>thread_events := evs, event_options := opts\<rparr>) s1))" using block unfolding s'_def E by simp
    note B = B [folded s']
    have "set (waitq s (WqEvent m)) \<subseteq> - {current s}"
      using sched_okD [OF s] s1ok(2) ready_not_pended [OF sched_okD(1) [OF s], of "current s"]
      sinv_simps(6) [OF sched_okD(1) [OF s], of "current s" "WqEvent m"] by (auto simp: s1)
    then have "event_ok m s'"
      using lb [of "- 1"] block by (auto simp: event_ok_def B s1 f_def wanted_def rv_def)
    with block B show ?thesis unfolding E by (simp add: s1 obj_step_pre)
  qed
  then show "obj_step (WqEvent m) s s'" "event_ok m s'"
    "objs s' = (if evs = 0 then objs s else (objs s)\<lparr>events := (events (objs s))(m := \<lparr>event_bits =
       (if opts AND K_EVENT_OPTION_CLEAR \<noteq> 0 then b AND NOT rv else b)\<rparr>)\<rparr>)"
    "fst (k_event_wait_internal m evs opts n s) = ?r"
    "waitq s' = (if evs \<noteq> 0 \<and> rv = 0 \<and> n \<noteq> K_NO_WAIT
       then (waitq s)(WqEvent m := prio_insert (threads s) (current s) (waitq s (WqEvent m))) else waitq s)"
    "threads s' = (if evs \<noteq> 0 \<and> rv = 0 \<and> n \<noteq> K_NO_WAIT then (threads s)(current s := (blocked_on (Some (WqEvent m))
      ((threads s (current s))\<lparr>thread_events := evs, event_options := opts\<rparr>))\<lparr>swap_retval := - EAGAIN\<rparr>) else threads s)" unfolding o by blast+
qed

section \<open>Properties\<close>

datatype event_op = EPost "32 word" "32 word" | EWait "32 word" "32 word" int

fun event_exec :: "nat \<Rightarrow> event_op \<Rightarrow> kernel \<Rightarrow> 32 word kres \<times> kernel" where
  "event_exec m (EPost evs msk) s = (case k_event_post_internal m evs msk s of (r, s') \<Rightarrow> (Ret r, s'))"
| "event_exec m (EWait evs opts n) s = k_event_wait_internal m evs opts n s"

text \<open>
  An event group: a set of events, and a queue of threads that each wait for any or for all events of a set.
  \<open>satisfied d a e\<close> is what a thread waiting for \<open>d\<close> gets from the events \<open>e\<close>; \<open>a\<close> says that it wants all of them.
\<close>

definition satisfied :: "32 word \<Rightarrow> bool \<Rightarrow> 32 word \<Rightarrow> 32 word" where
  "satisfied d a e = (if a \<longrightarrow> (\<forall>i. bit d i \<longrightarrow> bit e i) then d AND e else 0)"

definition deal :: "(tid \<Rightarrow> 32 word \<times> 32 word) \<Rightarrow> 32 word \<Rightarrow> tid \<Rightarrow> 32 word" where
  "deal want e t = satisfied (fst (want t)) (odd (snd (want t))) e"

fun event_spec :: "(tid \<Rightarrow> 32 word \<times> 32 word) \<Rightarrow> (tid list \<Rightarrow> tid list) \<Rightarrow> event_op \<Rightarrow> 32 word \<times> tid list \<Rightarrow>
    32 word kres \<times> (tid \<times> 32 word) list \<times> 32 word \<times> tid list" where
  "event_spec want ins (EPost evs msk) (e, ts) =
     (let e' = (e AND NOT msk) OR (evs AND msk);
          consumed = fold (\<lambda>t c. c OR (if bit (snd (want t)) 2 then deal want e' t else 0)) ts 0
      in (Ret (e AND msk), [(t, deal want e' t). t \<leftarrow> ts, deal want e' t \<noteq> 0], e' AND NOT consumed,
          [t \<leftarrow> ts. deal want e' t = 0]))"
| "event_spec want ins (EWait evs opts n) (e, ts) =
     (let e' = (if evs \<noteq> 0 \<and> bit opts 1 then 0 else e); r = satisfied evs (odd opts) e'
      in if r \<noteq> 0 then (Ret r, [], (if bit opts 2 then e' AND NOT r else e'), ts)
         else if evs = 0 \<or> n = K_NO_WAIT then (Ret 0, [], e', ts) else (Swapped, [], e', ins ts))"

lemma conditions_satisfied: "are_wait_conditions_met d e (opts AND K_EVENT_WAIT_MASK) = satisfied d (odd opts) e"
proof -
  have a: "opts AND K_EVENT_WAIT_MASK = K_EVENT_WAIT_ALL \<longleftrightarrow> odd opts"
    by (auto simp: K_EVENT_WAIT_MASK_def K_EVENT_WAIT_ALL_def and_one_eq odd_iff_mod_2_eq_one)
  have "i < 32" if "bit d i" for i using bit_imp_le_length [OF that] by simp
  then have "e AND d = d \<longleftrightarrow> (\<forall>i. bit d i \<longrightarrow> bit e i)" by (auto simp: bit_eq_iff bit_and_iff)
  then show ?thesis
    unfolding are_wait_conditions_met_def Let_def a satisfied_def and.commute [of d e] by auto
qed

lemma option_bits: "opts AND K_EVENT_OPTION_RESET \<noteq> 0 \<longleftrightarrow> bit opts 1" "opts AND K_EVENT_OPTION_CLEAR \<noteq> 0 \<longleftrightarrow> bit opts 2"
  using and_flag_iff [of opts 1] and_flag_iff [of opts 2] by (simp_all add: K_EVENT_OPTION_RESET_def K_EVENT_OPTION_CLEAR_def)

abbreviation wants :: "kernel \<Rightarrow> tid \<Rightarrow> 32 word \<times> 32 word" where
  "wants s t \<equiv> (thread_events (threads s t), event_options (threads s t))"

lemma deal_wanted: "deal (wants s) e t = wanted (threads s t) e"
  by (simp add: deal_def wanted_def conditions_satisfied)

lemma consumed_all_taken:
  "fold (\<lambda>t c. c OR (if bit (event_options (threads s t)) 2 then wanted (threads s t) e else 0)) ts c = c OR all_taken (threads s) e ts"
proof (induction ts arbitrary: c)
  case (Cons t ts)
  show ?case
    unfolding fold.simps o_apply Cons.IH by (simp add: taken_def option_bits or.assoc)
qed simp

lemma waked_got: "swap_retval (waked (got k) th) = 0" "thread_events (waked (got k) th) = k" "pended_on (waked (got k) th) = None"
  by (simp_all add: waked_def got_def)

lemma event_exec_rule:
  assumes "sched_ok s" and "flags_ok s" and "event_ok m s"
    and "\<And>evs opts n. op = EWait evs opts n \<Longrightarrow> n \<noteq> K_NO_WAIT \<Longrightarrow> \<not> in_isr s \<and> current s \<noteq> idle_thread s \<and> timeout_fits n s"
    and "event_spec (wants s) (prio_insert (threads s) (current s)) op
           (event_bits (event_of m s), waitq s (WqEvent m)) = (r, woken_with, e, ts)"
  shows "fst (event_exec m op s) = r \<and>
    (let s' = snd (event_exec m op s)
     in obj_step (WqEvent m) s s' \<and> event_ok m s' \<and> event_bits (event_of m s') = e \<and> waitq s' (WqEvent m) = ts \<and>
        (\<forall>(t, v) \<in> set woken_with. pended_on (threads s' t) = None \<and> swap_retval (threads s' t) = 0 \<and>
           thread_events (threads s' t) = v))"
proof (cases op)
  case (EPost evs msk)
  note P = event_post_rule [OF assms(1,2), where m = m and evs = evs and msk = msk]
  have pe: "posted m evs msk s = (event_bits (event_of m s) AND NOT msk) OR (evs AND msk)" by (simp add: posted_def)
  have S: "r = Ret (event_bits (event_of m s) AND msk)"
    "woken_with = [(t, wanted (threads s t) (posted m evs msk s)). t \<leftarrow> waitq s (WqEvent m), wanted (threads s t) (posted m evs msk s) \<noteq> 0]"
    "e = posted m evs msk s AND NOT (all_taken (threads s) (posted m evs msk s) (waitq s (WqEvent m)))"
    "ts = [t \<leftarrow> waitq s (WqEvent m). wanted (threads s t) (posted m evs msk s) = 0]"
    using assms(5) unfolding EPost event_spec.simps pe [symmetric] deal_wanted Let_def
    by (auto simp: consumed_all_taken)
  have E: "event_exec m op s = (Ret (fst (k_event_post_internal m evs msk s)), snd (k_event_post_internal m evs msk s))"
    by (simp add: EPost case_prod_unfold)
  show ?thesis unfolding E Let_def fst_conv snd_conv
    using P(2,4,5,6) event_post_ok [OF assms(1,2), of m evs msk] S by (auto simp: waked_got P(1))
next
  case (EWait evs opts n)
  note W = event_wait_rule [OF assms(1,3) assms(4) [OF EWait], where evs = evs and opts = opts, unfolded option_bits conditions_satisfied]
  show ?thesis
    using assms(5) W unfolding EWait event_exec.simps event_spec.simps Let_def
    by (auto simp: satisfied_def split: if_splits)
qed

text \<open>
  C23: event objects are event groups.  Posting replaces the masked events and wakes exactly the waiting threads
  whose condition (any or all of their events) the new events meet; each gets the events that met it, the events
  are consumed only after all of them have been served, and no thread is left waiting whose condition is met.
  Waiting returns at once when the condition is met or no wait is allowed, and otherwise queues the caller by priority.
\<close>

theorem event_refines_group:
  assumes "sched_ok s" and "flags_ok s" and "event_ok m s"
    and "\<And>evs opts n. op = EWait evs opts n \<Longrightarrow> n \<noteq> K_NO_WAIT \<Longrightarrow> \<not> in_isr s \<and> current s \<noteq> idle_thread s \<and> timeout_fits n s"
    and "event_spec (wants s) (prio_insert (threads s) (current s)) op
           (event_bits (event_of m s), waitq s (WqEvent m)) = (r, woken_with, e, ts)"
  shows "fst (event_exec m op s) = r \<and>
    (let s' = snd (event_exec m op s)
     in sched_ok s' \<and> flags_ok s' \<and> event_ok m s' \<and> event_bits (event_of m s') = e \<and> waitq s' = (waitq s)(WqEvent m := ts) \<and>
        (\<forall>(t, v) \<in> set woken_with. pended_on (threads s' t) = None \<and> swap_retval (threads s' t) = 0 \<and>
           thread_events (threads s' t) = v))"
proof -
  note E = event_exec_rule [OF assms]
  then have "waitq (snd (event_exec m op s)) = (waitq s)(WqEvent m := ts)" by (auto simp: obj_step_def Let_def)
  with E assms(2) show ?thesis by (simp add: obj_step_def Let_def)
qed

definition event_waiter :: kernel where
  "event_waiter = snd (k_event_wait_all_safe 0 3 False K_FOREVER app)"

lemma event_waiter_ok: "sched_ok event_waiter" "flags_ok event_waiter" "event_ok 0 event_waiter"
proof -
  have o: "event_ok 0 app" by (simp add: event_ok_def)
  note w = event_wait_rule [OF app_ok o, where n = K_FOREVER and evs = 3 and opts = "K_EVENT_OPTION_CLEAR OR K_EVENT_WAIT_ALL"]
  then show "sched_ok event_waiter" "flags_ok event_waiter" "event_ok 0 event_waiter"
    using app_flags(1) by (simp_all add: event_waiter_def k_event_wait_all_safe_def obj_step_def)
qed

theorem event_refines_group_witness:
  "waitq event_waiter (WqEvent 0) = [2] \<and>
   (let s1 = snd (k_event_post 0 1 event_waiter); s2 = snd (k_event_post 0 2 s1)
    in waitq s1 (WqEvent 0) = [2] \<and> event_bits (event_of 0 s1) = 1 \<and>
       waitq s2 (WqEvent 0) = [] \<and> event_bits (event_of 0 s2) = 0 \<and> thread_events (threads s2 2) = 3)"
proof -
  define s1 where "s1 = snd (k_event_post 0 1 event_waiter)"
  have e: "waitq event_waiter (WqEvent 0) = [2]" "event_bits (event_of 0 event_waiter) = 0"
    "wants event_waiter 2 = (3, 5)" by code_simp+
  have e1: "waitq s1 (WqEvent 0) = [2]" "event_bits (event_of 0 s1) = 1" "wants s1 2 = (3, 5)"
    unfolding s1_def by code_simp+
  have sp: "deal (wants s) 1 2 = 0" "deal (wants s) 3 2 = 3" if "wants s 2 = (3, 5)" for s
    unfolding deal_wanted using that by (simp_all add: wanted_def are_wait_conditions_met_def K_EVENT_WAIT_ALL_def K_EVENT_WAIT_MASK_def)
  have x: "snd (event_exec 0 (EPost k k) s) = snd (k_event_post 0 k s)" for k s
    by (simp add: k_event_post_def case_prod_unfold)
  note R1 = event_refines_group [OF event_waiter_ok, of "EPost 1 1" "Ret 0" "[]" 1 "[2]", unfolded x, folded s1_def]
  have s1: "sched_ok s1" "flags_ok s1" "event_ok 0 s1" using R1 e(1,2) sp(1) [OF e(3)] by (simp_all add: Let_def)
  note R2 = event_refines_group [OF s1, of "EPost 2 2" "Ret 0" "[(2, 3)]" 0 "[]", unfolded x]
  have "event_spec (wants s1) (prio_insert (threads s1) (current s1)) (EPost 2 2) (event_bits (event_of 0 s1), waitq s1 (WqEvent 0)) =
      (Ret 0, [(2, 3)], 0, [])" using e1 sp(2) [OF e1(3)] by (simp add: Let_def)
  with R2 e(1) e1 show ?thesis by (simp add: Let_def flip: s1_def)
qed

end
