(* ===== verification/Thread_Frame.thy ===== *)
theory Thread_Frame
  imports Kernel_Objects
begin

text \<open>
  What the thread operations leave alone.  The objects of the kernel keep data in the threads that wait for them; a
  step of the scheduler may take a thread off a wait queue, but it neither puts a thread on another queue nor
  touches the locks and the events a thread has.  The relation is reflexive and transitive, so the frame
  of an operation follows from the frames of its parts.
\<close>

named_theorems frames

definition prio_fits :: "k_thread \<Rightarrow> bool" where
  "prio_fits th \<longleftrightarrow> s8 (prio th) = prio th \<and> s8 (orig_prio th) = orig_prio th"

definition th_frame :: "k_thread \<Rightarrow> k_thread \<Rightarrow> bool" where
  "th_frame a b \<longleftrightarrow> held_mutexes b = held_mutexes a \<and> thread_events b = thread_events a \<and> event_options b = event_options a \<and>
     (prio_fits a \<longrightarrow> prio_fits b) \<and> (z_is_thread_aborting b \<longrightarrow> z_is_thread_aborting a) \<and>
     (z_is_thread_pending b \<longrightarrow> z_is_thread_pending a) \<and> (pended_on b = None \<or> pended_on b = pended_on a) \<and>
     (pended_on b = None \<longrightarrow> pended_on a = None \<or> \<not> z_is_thread_pending b) \<and>
     (pended_on b \<noteq> None \<longrightarrow> z_is_thread_sleeping b \<longrightarrow> z_is_thread_sleeping a)"

definition frame :: "'o kstate \<Rightarrow> 'o kstate \<Rightarrow> bool" where
  "frame s s' \<longleftrightarrow> objs s' = objs s \<and> idle_thread s' = idle_thread s \<and> dummy_thread s' = dummy_thread s \<and>
     (\<forall>v. set (waitq s' v) \<subseteq> set (waitq s v)) \<and> (\<forall>t. th_frame (threads s t) (threads s' t))"

lemma th_frame_refl [simp]: "th_frame a a"
  by (simp add: th_frame_def)

lemma th_frame_trans: "th_frame a b \<Longrightarrow> th_frame b c \<Longrightarrow> th_frame a c"
  unfolding th_frame_def by metis

lemma frame_refl [simp]: "frame s s"
  by (simp add: frame_def)

lemma frame_trans [trans]: "frame s1 s2 \<Longrightarrow> frame s2 s3 \<Longrightarrow> frame s1 s3"
  unfolding frame_def using th_frame_trans by (metis subset_trans)

lemma frame_same:
  assumes "objs s' = objs s" and "idle_thread s' = idle_thread s" and "dummy_thread s' = dummy_thread s"
    and "waitq s' = waitq s" and "threads s' = threads s"
  shows "frame s s'"
  using assms by (simp add: frame_def)

lemma frame_upd_thread:
  assumes "th_frame (threads s t) (f (threads s t))"
  shows "frame s (upd_thread t f s)"
  using assms by (simp add: frame_def)

lemma th_frame_state:
  assumes "held_mutexes b = held_mutexes a" "thread_events b = thread_events a" "event_options b = event_options a"
    "prio b = prio a" "orig_prio b = orig_prio a" "thread_state b = thread_state a" "pended_on b = pended_on a"
  shows "th_frame a b"
  using assms by (simp add: th_frame_def prio_fits_def z_is_thread_aborting_def z_is_thread_pending_def
      z_is_thread_sleeping_def z_is_thread_state_set_def)

lemma th_frame_marks [simp]:
  "th_frame th (z_mark_thread_as_queued th)" "th_frame th (z_mark_thread_as_not_queued th)"
  "th_frame th (z_mark_thread_as_suspended th)" "th_frame th (z_mark_thread_as_not_suspended th)"
  "th_frame th (z_mark_thread_as_not_sleeping th)" "th_frame th ((z_mark_thread_as_not_pending th)\<lparr>pended_on := None\<rparr>)"
  "pended_on th = None \<Longrightarrow> th_frame th (z_mark_thread_as_sleeping th)"
  by (simp_all add: th_frame_def prio_fits_def)

lemma th_frame_fields [simp]:
  "th_frame th (th\<lparr>swap_retval := r\<rparr>)" "th_frame th (th\<lparr>swap_retval := r, swap_data := d\<rparr>)"
  "th_frame th (th\<lparr>sched_locked := k\<rparr>)"
  by (rule th_frame_state; simp)+

lemma th_frame_prio [simp]: "th_frame th (th\<lparr>prio := s8 p\<rparr>)"
  using s8_id [OF s8_range, of p] by (simp add: th_frame_def prio_fits_def z_is_thread_aborting_def)

lemma frame_ready [frames]: "frame s (ready_thread t s)"
  by (simp add: frame_def ready_threads)

section \<open>The parts\<close>

lemma frame_panic [frames]: "frame s (k_panic s)"
  by (rule frame_same) (simp_all add: k_panic_def)

lemma frame_update_cache [frames]: "frame s (update_cache b s)"
  by (rule frame_same) simp_all

lemma frame_dequeue [frames]: "frame s (dequeue_thread t s)"
  by (simp add: frame_def dequeue_thread_eq)

lemma frame_queue [frames]: "frame s (queue_thread t s)"
  by (simp add: frame_def queue_thread_eq)

lemma frame_unready [frames]: "frame s (unready_thread t s)"
  unfolding unready_thread_def Let_def
  by (rule frame_trans [OF _ frame_update_cache]) (simp add: frame_dequeue)

lemma frame_do_swap [frames]: "frame s (snd (do_swap s))"
  by (simp add: frame_def do_swap_def Let_def)

lemma frame_reschedule [frames]: "frame s (reschedule s)"
  by (simp add: reschedule_def frame_do_swap)

lemma frame_abort_timeout [frames]: "frame s (snd (z_try_abort_thread_timeout t s))"
  by (rule frame_same) simp_all

lemma frame_add_timeout [frames]: "frame s (snd (z_add_thread_timeout t n s))"
  by (rule frame_same) simp_all

lemma frame_unpend [frames]: "frame s (unpend_thread_no_timeout t s)"
proof (cases "pended_on (threads s t)")
  case None
  then show ?thesis by (simp add: unpend_thread_no_timeout_def frame_panic)
next
  case (Some w)
  then show ?thesis using set_remove1_subset by (fastforce simp: frame_def unpend_eq)
qed

lemma frame_wake_thread [frames]: "frame s (z_sched_wake_thread_locked t s)"
proof -
  let ?u = "if pended_on (threads s t) \<noteq> None then unpend_thread_no_timeout t s else s"
  have "frame s ?u" by (simp add: frame_unpend)
  also have "frame ?u (upd_thread t z_mark_thread_as_not_sleeping ?u)" by (rule frame_upd_thread) simp
  also have "frame (upd_thread t z_mark_thread_as_not_sleeping ?u) (ready_thread t (upd_thread t z_mark_thread_as_not_sleeping ?u))"
    by (rule frame_ready)
  finally show ?thesis by (simp add: z_sched_wake_thread_locked_def Let_def)
qed

lemma frame_unpend_all [frames]: "frame s (unpend_all w s)"
proof -
  let ?g = "\<lambda>t. upd_thread t (\<lambda>th. th\<lparr>swap_retval := 0\<rparr>)"
  have "frame s (snd (unpend_all_loop n ?g w k s))" for n k
  proof (induction n arbitrary: k s)
    case (Suc n)
    have "frame s (ready_thread t (snd (z_try_abort_thread_timeout t (?g t (unpend_thread_no_timeout t s)))))" for t
      by (rule frame_trans [OF frame_unpend], rule frame_trans [OF frame_upd_thread [where f = "\<lambda>th. th\<lparr>swap_retval := 0\<rparr>"]], simp,
          rule frame_trans [OF frame_abort_timeout frame_ready])
    then show ?case by (auto split: option.split intro!: frame_trans [OF _ Suc])
  qed simp
  then show ?thesis unfolding unpend_all_def .
qed

lemma unpend_all_sel [simp]: "current (unpend_all w s) = current s" "in_isr (unpend_all w s) = in_isr s"
proof -
  have "current (snd (unpend_all_loop n (\<lambda>t. upd_thread t g) w k s)) = current s \<and>
      in_isr (snd (unpend_all_loop n (\<lambda>t. upd_thread t g) w k s)) = in_isr s" for n g k
    by (induction n arbitrary: k s) (simp_all split: option.split)
  then show "current (unpend_all w s) = current s" "in_isr (unpend_all w s) = in_isr s"
    unfolding unpend_all_def by blast+
qed

section \<open>The operations\<close>

lemma th_frame_halt:
  assumes "k = THREAD_DEAD \<or> k = THREAD_SUSPENDED"
  shows "th_frame th (th\<lparr>thread_state := thread_state th OR k\<rparr>)"
proof -
  have b: "bit (thread_state th OR k) n = bit (thread_state th) n" if "n \<noteq> 3" "n \<noteq> 4" for n
    using assms that bit_or_flag [of 3 "thread_state th" n] bit_or_flag [of 4 "thread_state th" n]
    by (auto simp: thread_flags)
  show ?thesis
    using b [of 1] b [of 2] b [of 5] by (simp add: th_frame_def prio_fits_def thread_tests)
qed

lemma frame_halt [frames]:
  assumes "k = THREAD_DEAD \<or> k = THREAD_SUSPENDED" and d: "k = THREAD_DEAD \<Longrightarrow> in_isr s \<Longrightarrow> t \<noteq> current s"
  shows "frame s (halt_thread t k s)"
proof -
  define s1 where "s1 = upd_thread t (\<lambda>th. th\<lparr>thread_state := thread_state th OR k\<rparr>) s"
  define s2 where "s2 = (if z_is_thread_queued (threads s1 t) then dequeue_thread t s1 else s1)"
  define u where "u = (if pended_on (threads s2 t) \<noteq> None then unpend_thread_no_timeout t s2 else s2)"
  define s3 where "s3 = (if k = THREAD_DEAD then unpend_all (WqJoin t) (snd (z_try_abort_thread_timeout t u)) else s2)"
  have "frame s s1" unfolding s1_def
    by (rule frame_upd_thread) (rule th_frame_halt [OF assms(1)])
  also have "frame s1 s2" by (simp add: s2_def frame_dequeue)
  also have "frame s2 s3"
  proof -
    have "frame s2 u" by (simp add: u_def frame_unpend)
    also have "frame u (snd (z_try_abort_thread_timeout t u))" by (rule frame_abort_timeout)
    also have "frame (snd (z_try_abort_thread_timeout t u)) (unpend_all (WqJoin t) (snd (z_try_abort_thread_timeout t u)))"
      by (rule frame_unpend_all)
    finally show ?thesis by (simp add: s3_def)
  qed
  also have "frame s3 (update_cache True s3)" by (rule frame_update_cache)
  finally have f: "frame s (update_cache True s3)" .
  have c: "current s3 = current s" "in_isr s3 = in_isr s"
    by (simp_all add: s3_def u_def s2_def s1_def)
  have "halt_thread t k s = (if thread_state (threads s t) AND k = 0 then update_cache True s3 else s)"
    using assms(1) d c unfolding halt_thread_def Let_def s1_def [symmetric] s2_def [symmetric] u_def [symmetric] s3_def [symmetric]
    by (auto simp: THREAD_DEAD_def THREAD_SUSPENDED_def)
  with f show ?thesis by simp
qed

lemma frame_thread_halt [frames]:
  "(b \<Longrightarrow> in_isr s \<Longrightarrow> t \<noteq> current s) \<Longrightarrow> frame s (snd (z_thread_halt t b s))"
proof -
  assume b: "b \<Longrightarrow> in_isr s \<Longrightarrow> t \<noteq> current s"
  let ?h = "halt_thread t (if b then THREAD_DEAD else THREAD_SUSPENDED) s"
  have h: "frame s ?h" by (rule frame_halt) (use b in \<open>auto simp: THREAD_DEAD_def THREAD_SUSPENDED_def split: if_splits\<close>)
  moreover have "frame ?h (snd (do_swap (if z_is_thread_essential (threads ?h t) then k_panic ?h else ?h)))"
    using frame_trans [OF frame_panic frame_do_swap, of ?h] frame_do_swap by auto
  ultimately show ?thesis using frame_trans by (auto simp: z_thread_halt_def Let_def)
qed

lemma frame_suspend [frames]: "frame s (snd (k_thread_suspend t s))"
proof -
  let ?m = "upd_thread t z_mark_thread_as_suspended s"
  have "frame s ?m" by (rule frame_upd_thread) simp
  also have "frame ?m (dequeue_thread t ?m)" by (rule frame_dequeue)
  also have "frame (dequeue_thread t ?m) (update_cache True (dequeue_thread t ?m))" by (rule frame_update_cache)
  also have "frame (update_cache True (dequeue_thread t ?m)) (snd (do_swap (update_cache True (dequeue_thread t ?m))))"
    by (rule frame_do_swap)
  finally show ?thesis
    using frame_thread_halt [of False s t] by (auto simp: k_thread_suspend_def z_thread_suspend_current_def)
qed

lemma frame_thread_abort [frames]:
  assumes "in_isr s \<Longrightarrow> t \<noteq> current s"
  shows "frame s (snd (z_thread_abort t s))"
proof -
  have "frame s (snd (z_thread_halt t True s))" using assms by (rule frame_thread_halt)
  moreover from this have "frame s (k_panic (snd (z_thread_halt t True s)))" by (rule frame_trans [OF _ frame_panic])
  ultimately show ?thesis
    by (cases "z_thread_halt t True s"; cases "fst (z_thread_halt t True s)") (auto simp: z_thread_abort_def Let_def)
qed

lemma frame_resume [frames]: "frame s (k_thread_resume t s)"
proof -
  let ?m = "upd_thread t z_mark_thread_as_not_suspended s"
  have "frame s ?m" by (rule frame_upd_thread) simp
  also have "frame ?m (ready_thread t ?m)" by (rule frame_ready)
  also have "frame (ready_thread t ?m) (reschedule (ready_thread t ?m))" by (rule frame_reschedule)
  finally show ?thesis by (simp add: k_thread_resume_def)
qed

lemma frame_wakeup [frames]: "frame s (k_wakeup t s)"
proof -
  let ?a = "snd (z_try_abort_thread_timeout t s)"
  let ?m = "upd_thread t z_mark_thread_as_not_sleeping ?a"
  have "frame s ?a" by (rule frame_abort_timeout)
  also have "frame ?a ?m" by (rule frame_upd_thread) simp
  also have "frame ?m (ready_thread t ?m)" by (rule frame_ready)
  also have "frame (ready_thread t ?m) (reschedule (ready_thread t ?m))" by (rule frame_reschedule)
  finally show ?thesis by (simp add: k_wakeup_def)
qed

lemma frame_yield [frames]: "frame s (snd (k_yield s))"
proof -
  have "frame s (update_cache True (runq_yield s))"
    by (rule frame_trans [OF _ frame_update_cache], rule frame_same) (simp_all add: runq_yield_def)
  also have "frame (update_cache True (runq_yield s)) (snd (do_swap (update_cache True (runq_yield s))))" by (rule frame_do_swap)
  finally show ?thesis by (simp add: k_yield_def z_sched_yield_def)
qed

lemma frame_sleep [frames]:
  assumes "pended_on (threads s (current s)) = None"
  shows "frame s (snd (snd (k_sleep_ticks n s)))"
proof -
  let ?u = "unready_thread (current s) s"
  let ?a = "snd (z_add_thread_timeout (current s) n ?u)"
  let ?m = "upd_thread (current s) z_mark_thread_as_sleeping ?a"
  have "frame s ?u" by (rule frame_unready)
  also have "frame ?u ?a" by (rule frame_add_timeout)
  finally have a: "frame s ?a" .
  then have "pended_on (threads ?a (current s)) = None" using assms by (auto simp: frame_def th_frame_def)
  then have "frame ?a ?m" by (intro frame_upd_thread) simp
  with a have "frame s ?m" by (rule frame_trans)
  also have "frame ?m (snd (do_swap ?m))" by (rule frame_do_swap)
  finally show ?thesis by (simp add: k_sleep_ticks_def Let_def case_prod_unfold frame_yield)
qed

lemma frame_sched_lock [frames]: "frame s (k_sched_lock s)"
  unfolding k_sched_lock_def by (rule frame_upd_thread) simp

lemma frame_lock_reschedule: "frame s (z_sched_lock_reschedule s)"
  unfolding z_sched_lock_reschedule_def by (rule frame_trans [OF frame_update_cache frame_reschedule])

lemma frame_sched_unlock [frames]: "frame s (k_sched_unlock s)" "frame s (k_reschedule s)"
  unfolding k_sched_unlock_def k_reschedule_def
  by (rule frame_trans [OF frame_upd_thread frame_lock_reschedule], simp, rule frame_lock_reschedule)

lemma frame_thread_timeout [frames]: "frame s (z_thread_timeout t s)"
  by (simp add: z_thread_timeout_def frame_wake_thread)

lemma frame_prio_set:
  assumes s: "sinv {} s"
  shows "frame s (snd (z_thread_prio_set t p s))"
proof (cases "RDY s t")
  case True
  let ?d = "dequeue_thread t s"
  let ?p = "upd_thread t (\<lambda>th. th\<lparr>prio := s8 p\<rparr>) ?d"
  have "frame s ?d" by (rule frame_dequeue)
  also have "frame ?d ?p" by (rule frame_upd_thread) simp
  also have "frame ?p (queue_thread t ?p)" by (rule frame_queue)
  also have "frame (queue_thread t ?p) (update_cache True (queue_thread t ?p))" by (rule frame_update_cache)
  finally show ?thesis using True by (simp add: prio_set_eq [OF s])
next
  case False
  note m = sinv_simps(6) [OF s, of t]
  show ?thesis
    using False m frame_panic
    by (auto simp: prio_set_eq [OF s] frame_def wait_add_def wait_remove_def simple_add_insert z_priq_simple_remove_def
        k_panic_def dest: set_remove1_subset [THEN subsetD] split: option.split)
qed

lemma frame_priority_set [frames]: "sinv {} s \<Longrightarrow> frame s (k_thread_priority_set t p s)"
  using frame_prio_set frame_trans [OF frame_prio_set frame_reschedule]
  by (auto simp: k_thread_priority_set_def case_prod_unfold Let_def)

lemma frame_inv:
  assumes "frame s s'"
  shows "prio_ok s \<Longrightarrow> prio_ok s'" "pend_ok s \<Longrightarrow> pend_ok s'" "flags_ok s \<Longrightarrow> flags_ok s'"
  using assms unfolding frame_def th_frame_def prio_ok_def pend_ok_def flags_ok_def prio_fits_def
  by (metis (no_types, lifting), metis (no_types, lifting), metis (no_types, lifting) option.collapse)

end
