(* ===== verification/Mutex_Props.thy ===== *)
theory Mutex_Props
  imports Mutex Thread_Frame
begin

text \<open>
  Properties of mutexes and condition variables: a mutex is a recursive lock, priorities are inherited along the chain of
  owners and given back, and a wait on a condition variable releases the mutex and starts waiting in one step.
\<close>

section \<open>A recursive lock\<close>

datatype mutex_op = MLock int | MUnlock

fun mutex_exec :: "nat \<Rightarrow> mutex_op \<Rightarrow> kernel \<Rightarrow> int kres \<times> kernel" where
  "mutex_exec m (MLock n) s = snd (k_mutex_lock m n s)"
| "mutex_exec m MUnlock s = (let (r, s') = k_mutex_unlock m s in (Ret r, s'))"

text \<open>The lock has an owner, a count and waiters; the owner hands it to the first waiter.\<close>

fun lock_spec :: "tid \<Rightarrow> mutex_op \<Rightarrow> tid option \<times> int \<times> tid list \<Rightarrow> int kres \<times> tid option \<times> int \<times> tid set" where
  "lock_spec c (MLock n) (None, k, ws) = (Ret 0, Some c, 1, set ws)"
| "lock_spec c (MLock n) (Some t, k, ws) =
     (if t = c then (Ret 0, Some t, k + 1, set ws)
      else if n = K_NO_WAIT then (Ret (- EBUSY), Some t, k, set ws)
      else (Swapped, Some t, k, insert c (set ws)))"
| "lock_spec c MUnlock (None, k, ws) = (Ret (- EINVAL), None, k, set ws)"
| "lock_spec c MUnlock (Some t, k, ws) =
     (if t \<noteq> c then (Ret (- EPERM), Some t, k, set ws)
      else if k > 1 then (Ret 0, Some t, k - 1, set ws)
      else case ws of [] \<Rightarrow> (Ret 0, None, 0, {}) | u # us \<Rightarrow> (Ret 0, Some u, 1, set us))"

definition mutexes_ok :: "kernel \<Rightarrow> bool" where
  "mutexes_ok s \<longleftrightarrow> sched_ok s \<and> mutex_inv s \<and> prio_ok s \<and> pend_ok s"

definition lock_view :: "nat \<Rightarrow> kernel \<Rightarrow> tid option \<times> int \<times> tid list" where
  "lock_view m s = (owner (mutex_of m s), lock_count (mutex_of m s), waitq s (WqMutex m))"

text \<open>
  C24: a mutex is a recursive lock.  Locking takes a free mutex, counts another level for its owner, gives
  -EBUSY when no wait is allowed, and otherwise makes the caller a waiter; unlocking is refused with -EINVAL or
  -EPERM for a thread that does not own it, ends one level, or hands the mutex to the first waiter.  No other
  mutex changes and the invariant of all mutexes is kept.
\<close>

theorem mutex_refines_lock:
  assumes "mutexes_ok s" and "\<not> in_isr s" and "current s \<noteq> idle_thread s"
    and "lock_count (mutex_of m s) < 2 ^ 32 - 1" and "\<And>n. op = MLock n \<Longrightarrow> n \<noteq> K_NO_WAIT \<Longrightarrow> timeout_fits n s"
    and "lock_spec (current s) op (lock_view m s) = (r, ow, k, ws)"
  shows "fst (mutex_exec m op s) = r \<and>
    (let s' = snd (mutex_exec m op s)
     in mutexes_ok s' \<and> owner (mutex_of m s') = ow \<and> lock_count (mutex_of m s') = k \<and> set (waitq s' (WqMutex m)) = ws \<and>
        (\<forall>i. i \<noteq> m \<longrightarrow> mutex_of i s' = mutex_of i s))"
proof (cases op)
  case (MLock n)
  have ok: "sched_ok s" "mutex_inv s" "prio_ok s" "pend_ok s" using assms(1) by (simp_all add: mutexes_ok_def)
  consider (take) "owner (mutex_of m s) = None \<or> owner (mutex_of m s) = Some (current s)"
    | (other) t where "owner (mutex_of m s) = Some t" "t \<noteq> current s"
    by (cases "owner (mutex_of m s)") auto
  then show ?thesis
  proof cases
    case take
    note T = mutex_lock_take [OF ok take assms(3,4), where n = n]
    have z: "lock_count (mutex_of m s) = 0" if "owner (mutex_of m s) = None" using that mutex_invD(3) [OF ok(2)] by simp
    have "fst (mutex_exec m op s) = Ret 0" using arg_cong [OF T(1), of "fst \<circ> snd"] by (simp add: MLock)
    with T(2,4-6,8-10) take assms(6) z show ?thesis unfolding MLock lock_view_def
      by (auto simp: mutexes_ok_def)
  next
    case other
    have nz: "lock_count (mutex_of m s) \<noteq> 0" using other(1) mutex_invD(3) [OF ok(2), of m] by simp
    show ?thesis
    proof (cases "n = K_NO_WAIT")
      case True
      with other nz assms(1,6) show ?thesis by (auto simp: MLock lock_view_def k_mutex_lock_def Let_def)
    next
      case False
      note W = mutex_lock_wait [OF ok other False assms(5) [OF MLock False] assms(2,3)]
      from W(1,2,4-8) other False assms(6) show ?thesis by (auto simp: MLock lock_view_def mutexes_ok_def)
    qed
  qed
next
  case MUnlock
  have ok: "sched_ok s" "mutex_inv s" "prio_ok s" "pend_ok s" using assms(1) by (simp_all add: mutexes_ok_def)
  have e: "mutex_exec m op s = (Ret (fst (k_mutex_unlock m s)), snd (k_mutex_unlock m s))" by (simp add: MUnlock case_prod_unfold Let_def)
  consider (no) "owner (mutex_of m s) \<noteq> Some (current s)"
    | (nested) "owner (mutex_of m s) = Some (current s)" "1 < lock_count (mutex_of m s)"
    | (last) "mutex_of m s = \<lparr>owner = Some (current s), lock_count = 1\<rparr>"
    using mutex_invD(1,3) [OF ok(2), of m] by (cases "mutex_of m s") fastforce
  then show ?thesis
  proof cases
    case no
    then have u: "k_mutex_unlock m s = (if owner (mutex_of m s) = None then - EINVAL else - EPERM, s)"
      by (simp add: k_mutex_unlock_def Let_def)
    have "lock_spec (current s) MUnlock (lock_view m s) = (Ret (if owner (mutex_of m s) = None then - EINVAL else - EPERM),
        owner (mutex_of m s), lock_count (mutex_of m s), set (waitq s (WqMutex m)))"
      using no by (cases "owner (mutex_of m s)") (simp_all add: lock_view_def)
    with assms(1,6) MUnlock show ?thesis unfolding e by (auto simp: u)
  next
    case nested
    note N = mutex_unlock_nested [OF ok nested]
    have "\<forall>i. i \<noteq> m \<longrightarrow> mutex_of i (snd (k_mutex_unlock m s)) = mutex_of i s" using nested by (simp add: k_mutex_unlock_def)
    with N(2,4-8) arg_cong [OF N(1), of fst] nested assms(6) show ?thesis unfolding e by (auto simp: MUnlock lock_view_def mutexes_ok_def)
  next
    case last
    note L = mutex_unlock_rule [OF ok assms(2) last]
    from L(1-7,10) last assms(6) show ?thesis unfolding e
      by (cases "waitq s (WqMutex m)") (auto simp: MUnlock lock_view_def mutexes_ok_def)
  qed
qed

text \<open>An application in which the low-priority thread 3 owns mutex 0 when the main thread runs.\<close>

lemma mutexes_ok_frame:
  assumes "mutexes_ok s" and f: "frame s s'" and "sched_ok s'"
  shows "mutexes_ok s'"
proof -
  have "mutex_inv s'"
  proof (rule mutex_inv_cong)
    show "waitq s' (WqMutex m) = []" if "waitq s (WqMutex m) = []" for m using f that unfolding frame_def by (metis empty_set subset_empty set_empty)
  qed (use assms in \<open>simp_all add: mutexes_ok_def frame_def th_frame_def\<close>)
  with assms frame_inv [OF f] show ?thesis by (simp add: mutexes_ok_def)
qed

lemma app_mutexes: "mutexes_ok app"
proof -
  have t: "held_mutexes (threads app u) = []" for u
    by (simp add: app_def k_thread_create_def thread_schedule_new_def k_wakeup_def z_setup_new_thread_def boot_def mk_thread_def
        z_ready_thread_def ready_threads Let_def z_init_thread_base_def)
  then have "mutex_inv app" by (simp add: mutex_inv_def init_objs_def)
  with app_ok app_flags show ?thesis by (simp add: mutexes_ok_def)
qed

definition low_alone :: kernel where "low_alone = snd (k_thread_suspend 2 app)"
definition low_owns :: kernel where "low_owns = snd (snd (k_mutex_lock 0 K_FOREVER low_alone))"
definition main_back :: kernel where "main_back = k_thread_resume 2 low_owns"

lemma low_alone_ok: "mutexes_ok low_alone" "current low_alone = 3" "\<not> in_isr low_alone" "idle_thread low_alone = 0"
    "owner (mutex_of 0 low_alone) = None"
proof -
  show "mutexes_ok low_alone" unfolding low_alone_def
    by (rule mutexes_ok_frame [OF app_mutexes frame_suspend]) (rule sched_ok_suspend [OF app_ok], simp)
  have "look low_alone (\<lambda>s. (current s, in_isr s, idle_thread s, owner (mutex_of 0 s))) = (3, False, 0, None)" by code_simp
  then show "current low_alone = 3" "\<not> in_isr low_alone" "idle_thread low_alone = 0" "owner (mutex_of 0 low_alone) = None"
    by (simp_all add: look_def)
qed

lemma low_owns_ok: "mutexes_ok low_owns" "i \<noteq> 0 \<Longrightarrow> owner (mutex_of i low_owns) = None"
proof -
  have "lock_count (mutex_of 0 low_alone) < 2 ^ 32 - 1" by code_simp
  moreover have "objs low_alone = init_objs" using frame_suspend [of app 2] by (simp add: low_alone_def frame_def)
  ultimately show "mutexes_ok low_owns" "i \<noteq> 0 \<Longrightarrow> owner (mutex_of i low_owns) = None"
    using mutex_lock_take(2,4-6) [of low_alone 0 K_FOREVER] mutex_lock_take(10) [of low_alone 0 i K_FOREVER] low_alone_ok
    by (simp_all add: mutexes_ok_def low_owns_def init_objs_def)
qed

lemma main_back_ok: "mutexes_ok main_back" "current main_back = 2" "\<not> in_isr main_back" "idle_thread main_back = 0"
    "timeout_fits (- 1) main_back" "mutex_of 0 main_back = \<lparr>owner = Some 3, lock_count = 1\<rparr>" "waitq main_back (WqMutex 0) = []"
    "i \<noteq> 0 \<Longrightarrow> owner (mutex_of i main_back) = None"
proof -
  show "i \<noteq> 0 \<Longrightarrow> owner (mutex_of i main_back) = None"
    using low_owns_ok(2) frame_resume [of low_owns 2] by (simp add: main_back_def frame_def)
  have e: "look main_back (\<lambda>s. (current s, in_isr s, idle_thread s, waitq s (WqMutex 0), mutex_of 0 s, curr_tick s, elapsed s)) =
      (2, False, 0, [], \<lparr>owner = Some 3, lock_count = 1\<rparr>, 0, 0)" by code_simp
  then show "current main_back = 2" "\<not> in_isr main_back" "idle_thread main_back = 0" "waitq main_back (WqMutex 0) = []"
    "mutex_of 0 main_back = \<lparr>owner = Some 3, lock_count = 1\<rparr>" by (simp_all add: look_def)
  show "timeout_fits (- 1) main_back" using e by (simp add: timeout_fits_def look_def)
  have "look low_owns (\<lambda>s. (idle_thread s, dummy_thread s)) = (0, 1)" by code_simp
  then have "idle_thread low_owns = 0" "dummy_thread low_owns = 1" by (simp_all add: look_def)
  then have "sched_ok main_back" unfolding main_back_def
    using low_owns_ok(1) by (intro sched_ok_resume) (simp_all add: mutexes_ok_def)
  then show "mutexes_ok main_back" unfolding main_back_def using mutexes_ok_frame [OF low_owns_ok(1) frame_resume] by simp
qed

theorem mutex_refines_lock_witness:
  "fst (mutex_exec 0 (MLock K_FOREVER) main_back) = Swapped \<and>
   owner (mutex_of 0 (snd (mutex_exec 0 (MLock K_FOREVER) main_back))) = Some 3 \<and>
   set (waitq (snd (mutex_exec 0 (MLock K_FOREVER) main_back)) (WqMutex 0)) = {2}"
  using mutex_refines_lock [OF main_back_ok(1,3), of 0 "MLock K_FOREVER" Swapped "Some 3" 1 "{2}"] main_back_ok(2,4-7)
  by (simp add: lock_view_def Let_def)

section \<open>Priority inheritance\<close>



text \<open>The priority thread \<open>t\<close> is entitled to while it holds the mutexes \<open>ms\<close>.\<close>

definition entitled :: "kernel \<Rightarrow> tid \<Rightarrow> nat set \<Rightarrow> int \<Rightarrow> bool" where
  "entitled s t ms p \<longleftrightarrow> p \<le> orig_prio (threads s t) \<and>
     (\<forall>i \<in> ms. \<forall>u \<in> set (waitq s (WqMutex i)). p \<le> prio (threads s u)) \<and>
     (p = orig_prio (threads s t) \<or> (\<exists>i \<in> ms. \<exists>u \<in> set (waitq s (WqMutex i)). p = prio (threads s u)))"

lemma held_scan_entitled:
  assumes "mutexes_ok s"
  shows "entitled s t (set ms) (held_scan ms (orig_prio (threads s t)) s)"
proof -
  have ok: "sinv {} s" "prio_ok s" using assms sched_okD(1) by (auto simp: mutexes_ok_def)
  show ?thesis using held_scan_rule [OF ok, where ms = ms and q = "orig_prio (threads s t)"] by (auto simp: entitled_def)
qed

lemma held_set:
  assumes "mutexes_ok s"
  shows "set (held_mutexes (threads s t)) = {i. owner (mutex_of i s) = Some t}" "distinct (held_mutexes (threads s t))"
proof -
  have "mutex_inv s" using assms by (simp add: mutexes_ok_def)
  from mutex_invD(5,6) [OF this] show "set (held_mutexes (threads s t)) = {i. owner (mutex_of i s) = Some t}"
    "distinct (held_mutexes (threads s t))" by auto
qed

text \<open>
  C26: releasing the last level of a mutex gives the priority back.  A thread that ran at an inherited priority
  continues at the highest priority among its own and those of the threads that still wait for another
  mutex it holds, and the first waiter of the released mutex becomes its owner and continues with 0.
\<close>

theorem mutex_unlock_restores_prio:
  assumes "mutexes_ok s" and "\<not> in_isr s" and "mutex_of m s = \<lparr>owner = Some (current s), lock_count = 1\<rparr>"
    and "prio (threads s (current s)) \<noteq> orig_prio (threads s (current s))"
  shows "let s' = snd (k_mutex_unlock m s); c = current s
         in entitled s c ({i. owner (mutex_of i s) = Some c} - {m}) (prio (threads s' c)) \<and>
            (\<forall>t ts. waitq s (WqMutex m) = t # ts \<longrightarrow>
               owner (mutex_of m s') = Some t \<and> swap_retval (threads s' t) = 0 \<and> pended_on (threads s' t) = None)"
proof -
  have ok: "sched_ok s" "mutex_inv s" "prio_ok s" "pend_ok s" using assms(1) by (simp_all add: mutexes_ok_def)
  let ?c = "current s"
  let ?ms = "remove1 m (held_mutexes (threads s ?c))"
  note U = mutex_unlock_rule [OF ok assms(2,3)]
  have "set ?ms = {i. owner (mutex_of i s) = Some ?c} - {m}"
    using held_set [OF assms(1), of ?c] by (simp add: set_remove1_eq)
  then have "entitled s ?c ({i. owner (mutex_of i s) = Some ?c} - {m}) (prio (threads (snd (k_mutex_unlock m s)) ?c))"
    using U(9) assms(4) held_scan_entitled [OF assms(1), of ?c ?ms] by simp
  moreover have "swap_retval (waked (take_over m) th) = 0" "pended_on (waked (take_over m) th) = None" for th
    by (simp_all add: waked_def take_over_def)
  ultimately show ?thesis using U(6,8) by (auto simp: Let_def)
qed

definition main_waits :: kernel where "main_waits = snd (snd (k_mutex_lock 0 K_FOREVER main_back))"

lemma main_waits_ok: "mutexes_ok main_waits" "current main_waits = 3" "\<not> in_isr main_waits" "prio (threads main_waits 3) = 0"
    "orig_prio (threads main_waits 3) = 7" "waitq main_waits (WqMutex 0) = [2]" "swap_retval (threads main_waits 2) = - EAGAIN"
    "{i. owner (mutex_of i main_waits) = Some 3} = {0}" "mutex_of 0 main_waits = \<lparr>owner = Some 3, lock_count = 1\<rparr>"
proof -
  have ok: "sched_ok main_back" "mutex_inv main_back" "prio_ok main_back" "pend_ok main_back"
    using main_back_ok(1) by (simp_all add: mutexes_ok_def)
  note W = mutex_lock_wait [OF ok, of 0 3 K_FOREVER]
  show "mutexes_ok main_waits" using W(2,4-6) main_back_ok(2-6) by (simp_all add: mutexes_ok_def main_waits_def)
  have w: "objs main_waits = objs main_back" using W(7) main_back_ok(2-6) by (simp add: main_waits_def)
  show "mutex_of 0 main_waits = \<lparr>owner = Some 3, lock_count = 1\<rparr>" by (simp add: w main_back_ok(6))
  show "{i. owner (mutex_of i main_waits) = Some 3} = {0}"
    using main_back_ok(6,8) by (auto simp: w) (metis neq0_conv option.distinct(1))
  have "look main_waits (\<lambda>s. (current s, in_isr s, prio (threads s 3), orig_prio (threads s 3), waitq s (WqMutex 0),
      swap_retval (threads s 2))) = (3, False, 0, 7, [2], - EAGAIN)" by code_simp
  then show "current main_waits = 3" "\<not> in_isr main_waits" "prio (threads main_waits 3) = 0" "orig_prio (threads main_waits 3) = 7"
    "waitq main_waits (WqMutex 0) = [2]" "swap_retval (threads main_waits 2) = - EAGAIN" by (simp_all add: look_def)
qed

theorem mutex_unlock_restores_prio_witness:
  "prio (threads main_waits 3) = 0 \<and> prio (threads (snd (k_mutex_unlock 0 main_waits)) 3) = 7 \<and>
   owner (mutex_of 0 (snd (k_mutex_unlock 0 main_waits))) = Some 2"
  using mutex_unlock_restores_prio [OF main_waits_ok(1,3), of 0] main_waits_ok by (simp add: Let_def entitled_def)

text \<open>
  C27: a thread whose wait for a mutex ends without it, by a timeout, gets -EAGAIN; it owns nothing new, and
  the owner of the mutex falls back to the priority it is entitled to without that waiter.
\<close>

theorem mutex_lock_timeout:
  assumes "mutexes_ok s" and "\<not> in_isr s" and "swap_retval (threads s (current s)) \<noteq> 0"
  shows "fst (k_mutex_lock_resume m rs s) = - EAGAIN \<and>
    (let s' = snd (k_mutex_lock_resume m rs s)
     in mutexes_ok s' \<and> objs s' = objs s \<and> mutex_pended_on (threads s' (current s)) = None \<and>
        (\<forall>t. owner (mutex_of m s) = Some t \<longrightarrow>
           entitled s t {i. owner (mutex_of i s) = Some t} (prio (threads s' t))))"
proof -
  have ok: "sched_ok s" "mutex_inv s" "prio_ok s" "pend_ok s" using assms(1) by (simp_all add: mutexes_ok_def)
  note R = mutex_lock_resume_rule [OF ok assms(2), where m = m and rs = rs]
  have "entitled s t {i. owner (mutex_of i s) = Some t} (prio (threads (snd (k_mutex_lock_resume m rs s)) t))"
    if "owner (mutex_of m s) = Some t" for t
    using R(10) [OF assms(3) that] held_scan_entitled [OF assms(1), of t "held_mutexes (threads s t)"] held_set(1) [OF assms(1), of t]
    by simp
  with R(1-7) assms(3) show ?thesis by (simp add: Let_def mutexes_ok_def)
qed

text \<open>While the owner is suspended the wait of the main thread ends, and after the interrupt it runs again.\<close>

definition owner_off :: kernel where "owner_off = (snd (k_thread_suspend 3 main_waits))\<lparr>in_isr := True\<rparr>"

definition main_gave_up :: kernel where
  "main_gave_up = (z_get_next_switch_handle (z_thread_timeout 2 owner_off))\<lparr>in_isr := False\<rparr>"

lemma owner_off_ok: "sched_ok owner_off" "frame main_waits owner_off"
proof -
  have "3 \<noteq> idle_thread main_waits" by code_simp
  with main_waits_ok(1) show "sched_ok owner_off"
    unfolding owner_off_def by (intro sched_ok_set_isr sched_ok_suspend) (simp_all add: mutexes_ok_def)
  show "frame main_waits owner_off"
    unfolding owner_off_def by (rule frame_trans [OF frame_suspend frame_same]) simp_all
qed

lemma main_gave_up_ok: "mutexes_ok main_gave_up" "frame main_waits main_gave_up"
proof -
  note i = sched_okD [OF owner_off_ok(1)]
  have e: "look owner_off (\<lambda>s. (z_is_thread_pending (threads s 2), armed s 2, idle_thread s, z_is_thread_dead (threads s 2),
      z_is_thread_aborting (threads s 2), z_timeout_inflight_superseded (ThreadTimeout 2) s)) = (True, False, 0, False, False, False)"
    by code_simp
  have t: "waits (threads owner_off 2)" "\<not> armed owner_off 2" "2 \<noteq> idle_thread owner_off"
    "\<not> z_is_thread_dead (threads owner_off 2)" "\<not> z_is_thread_aborting (threads owner_off 2)"
    "\<not> z_timeout_inflight_superseded (ThreadTimeout 2) owner_off"
    using e by (simp_all add: look_def)
  have "in_isr owner_off" by (simp add: owner_off_def)
  then have t7: "in_isr (z_thread_timeout 2 owner_off)"
    by (simp add: z_thread_timeout_def z_sched_wake_thread_locked_def Let_def)
  have "sched_ok main_gave_up" unfolding main_gave_up_def
    using thread_timeout_rule(1,2) [OF i(1,2) t(1-6)] t7 by (intro sched_ok_switch_handle) (simp add: sched_ok_def)
  moreover show "frame main_waits main_gave_up" unfolding main_gave_up_def
    by (rule frame_trans [OF owner_off_ok(2)], rule frame_trans [OF frame_thread_timeout frame_same])
      (simp_all add: z_get_next_switch_handle_def)
  ultimately show "mutexes_ok main_gave_up" by (intro mutexes_ok_frame [OF main_waits_ok(1)])
qed

theorem mutex_lock_timeout_witness:
  "prio (threads main_gave_up 3) = 0 \<and> fst (k_mutex_lock_resume 0 False main_gave_up) = - EAGAIN \<and>
   prio (threads (snd (k_mutex_lock_resume 0 False main_gave_up)) 3) = 7"
proof -
  have "look main_gave_up (\<lambda>s. (current s, swap_retval (threads s 2), prio (threads s 3), orig_prio (threads s 3), waitq s (WqMutex 0))) =
      (2, - EAGAIN, 0, 7, [])" by code_simp
  then have e: "current main_gave_up = 2" "swap_retval (threads main_gave_up 2) = - EAGAIN" "prio (threads main_gave_up 3) = 0"
    "orig_prio (threads main_gave_up 3) = 7" "waitq main_gave_up (WqMutex 0) = []" by (simp_all add: look_def)
  have "\<not> in_isr main_gave_up" by (simp add: main_gave_up_def)
  moreover have "objs main_gave_up = objs main_waits" using main_gave_up_ok(2) by (simp add: frame_def)
  ultimately show ?thesis
    using mutex_lock_timeout [OF main_gave_up_ok(1), of 0 False] e main_waits_ok(8,9)
    by (simp add: Let_def entitled_def EAGAIN_def)
qed

section \<open>Condition variables\<close>


definition low_waits :: kernel where "low_waits = snd (k_condvar_wait 5 0 K_FOREVER low_owns)"


lemma waked_retval:
  "pended_on (waked (\<lambda>th. th\<lparr>swap_retval := r, swap_data := d\<rparr>) th) = None"
  "swap_retval (waked (\<lambda>th. th\<lparr>swap_retval := r, swap_data := d\<rparr>) th) = r"
  by (simp_all add: waked_def)

text \<open>Exactly the first threads \<open>ws\<close> of the queue stop waiting, with result 0, and the best thread runs.\<close>

definition woken_first :: "nat \<Rightarrow> tid list \<Rightarrow> kernel \<Rightarrow> kernel \<Rightarrow> bool" where
  "woken_first cv ws s s' \<longleftrightarrow> sched_ok s' \<and> resched_ok s' \<and> objs s' = objs s \<and>
     waitq s' = (waitq s)(WqCondvar cv := drop (length ws) (waitq s (WqCondvar cv))) \<and>
     (\<forall>t \<in> set ws. pended_on (threads s' t) = None \<and> swap_retval (threads s' t) = 0) \<and>
     (\<forall>t. t \<notin> set ws \<longrightarrow> pended_on (threads s' t) = pended_on (threads s t))"

text \<open>
  C29: signalling wakes the first waiter and broadcasting wakes all of them; the woken threads continue with 0, the
  broadcast returns their number, nobody else is woken, and the highest-priority thread runs afterwards.
\<close>

theorem condvar_signal_broadcast:
  assumes "sched_ok s" and "resched_ok s" and "length (waitq s (WqCondvar cv)) < 2 ^ 31"
  shows "fst (k_condvar_signal cv s) = 0 \<and> woken_first cv (take 1 (waitq s (WqCondvar cv))) s (snd (k_condvar_signal cv s)) \<and>
    fst (k_condvar_broadcast cv s) = int (length (waitq s (WqCondvar cv))) \<and>
    woken_first cv (waitq s (WqCondvar cv)) s (snd (k_condvar_broadcast cv s))"
proof -
  let ?q = "waitq s (WqCondvar cv)"
  note B = condvar_broadcast_rule [OF assms(1,3)] and S = condvar_signal_rule [OF assms(1), where cv = cv]
  have b: "u \<notin> set ?q \<Longrightarrow> pended_on (threads (snd (k_condvar_broadcast cv s)) u) = pended_on (threads s u)"
    "u \<noteq> hd ?q \<or> ?q = [] \<Longrightarrow> pended_on (threads (snd (k_condvar_signal cv s)) u) = pended_on (threads s u)" for u
    using retval_diff_sel(5) [OF B(6)] retval_diff_sel(5) [OF S(6)] by auto
  have "woken_first cv ?q s (snd (k_condvar_broadcast cv s))"
    using B(2-5,8) b(1) assms(2) by (simp add: woken_first_def waked_retval)
  moreover have "woken_first cv (take 1 ?q) s (snd (k_condvar_signal cv s))"
    using S(2-5,8) b(2) assms(2) by (cases ?q) (simp_all add: woken_first_def waked_retval)
  ultimately show ?thesis using B(1) S(1) by simp
qed

definition broadcast_app :: kernel where "broadcast_app = k_thread_resume 2 low_waits"

theorem condvar_signal_broadcast_witness:
  "waitq broadcast_app (WqCondvar 5) = [3] \<and> fst (k_condvar_broadcast 5 broadcast_app) = 1 \<and>
   swap_retval (threads (snd (k_condvar_broadcast 5 broadcast_app)) 3) = 0"
proof -
  have "look low_waits (\<lambda>s. (idle_thread s, dummy_thread s, mutex_of 0 low_owns, in_isr low_owns, current low_owns, curr_tick low_owns, elapsed low_owns)) =
      (0, 1, \<lparr>owner = Some 3, lock_count = 1\<rparr>, False, 3, 0, 0)" by code_simp
  then have e: "idle_thread low_waits = 0" "dummy_thread low_waits = 1" "mutex_of 0 low_owns = \<lparr>owner = Some 3, lock_count = 1\<rparr>"
    "\<not> in_isr low_owns" "current low_owns = 3" "timeout_fits (- 1) low_owns" by (simp_all add: look_def timeout_fits_def)
  have ok: "sched_ok low_owns" "mutex_inv low_owns" "prio_ok low_owns" "pend_ok low_owns" using low_owns_ok(1) by (simp_all add: mutexes_ok_def)
  have "sched_ok low_waits" "resched_ok low_waits"
    using condvar_wait_rule(2,3) [OF ok e(4), of 0 K_FOREVER 5] e by (simp_all add: low_waits_def)
  then have "sched_ok broadcast_app" "resched_ok broadcast_app"
    using sched_ok_resume [of low_waits 2] e by (simp_all add: broadcast_app_def)
  moreover have "waitq broadcast_app (WqCondvar 5) = [3]" by code_simp
  ultimately show ?thesis using condvar_signal_broadcast [of broadcast_app 5] by (simp add: woken_first_def)
qed

section \<open>A missing reschedule\<close>

text \<open>
  The main thread creates thread 4 with priority 4 and then waits for the mutex of thread 3, which
  inherits priority 0, aborts the main thread and releases the mutex.
\<close>

definition low_released :: kernel where
  "low_released = snd (k_mutex_unlock 0 (snd (z_thread_abort 2
     (snd (snd (k_mutex_lock 0 K_FOREVER (k_thread_create 4 4 0 0 main_back)))))))"


end
