(* ===== verification/Priority_Mq.thy ===== *)
theory Priority_Mq
  imports Sched_Props
begin

text \<open>
  The multi-queue of \<^verbatim>\<open>kernel/include/priority_q.h\<close> (\<^verbatim>\<open>CONFIG_SCHED_MULTIQ\<close>): one list per priority, a
  bitmask of the lists that are not empty, and on a uniprocessor the cached index of the best one.  It meets
  the contract \<open>prio_queue\<close>, so the scheduler may use it in place of the simple list.
\<close>

unbundle bit_operations_syntax

section \<open>Operations\<close>

definition K_NUM_THREAD_PRIO :: nat where "K_NUM_THREAD_PRIO = nat (K_NUM_PREEMPT + K_NUM_COOP + 1)"
definition NBITS :: nat where "NBITS = 32"
definition PRIQ_BITMAP_SIZE :: nat where "PRIQ_BITMAP_SIZE = (K_NUM_THREAD_PRIO + NBITS - 1) div NBITS"

record priq_mq =
  queues :: "nat \<Rightarrow> tid list"
  bitmask :: "nat \<Rightarrow> 32 word"
  cached_queue_index :: nat

record prio_info =
  offset_prio :: nat
  pi_idx :: nat
  pi_bit :: nat

definition get_prio_info :: "int \<Rightarrow> prio_info" where
  "get_prio_info old_prio =
     (let off = nat (u8 (old_prio - K_HIGHEST_THREAD_PRIO))
      in \<lparr>offset_prio = off, pi_idx = off div NBITS, pi_bit = off mod NBITS\<rparr>)"

text \<open>The trailing zeros, as the portable loop counts them.\<close>

fun ctz_loop :: "nat \<Rightarrow> nat \<Rightarrow> 32 word \<Rightarrow> nat" where
  "ctz_loop 0 b x = b"
| "ctz_loop (Suc n) b x = (if x AND 1 = 0 then ctz_loop n (b + 1) (drop_bit 1 x) else b)"

definition u32_count_trailing_zeros :: "32 word \<Rightarrow> nat" where
  "u32_count_trailing_zeros x = ctz_loop 32 0 x"

fun best_index_loop :: "nat \<Rightarrow> nat \<Rightarrow> priq_mq \<Rightarrow> nat" where
  "best_index_loop 0 i pq = K_NUM_THREAD_PRIO - 1"
| "best_index_loop (Suc n) i pq =
     (if bitmask pq i \<noteq> 0 then i * NBITS + u32_count_trailing_zeros (bitmask pq i) else best_index_loop n (i + 1) pq)"

definition z_priq_mq_best_queue_index :: "priq_mq \<Rightarrow> nat" where
  "z_priq_mq_best_queue_index pq = best_index_loop PRIQ_BITMAP_SIZE 0 pq"

definition z_priq_mq_init :: "priq_mq \<Rightarrow> priq_mq" where
  "z_priq_mq_init q = q\<lparr>queues := (\<lambda>i. if i < K_NUM_THREAD_PRIO then [] else queues q i),
     cached_queue_index := K_NUM_THREAD_PRIO - 1\<rparr>"

definition z_priq_mq_add :: "(tid \<Rightarrow> k_thread) \<Rightarrow> tid \<Rightarrow> priq_mq \<Rightarrow> priq_mq" where
  "z_priq_mq_add th thread pq =
     (let pos = get_prio_info (prio (th thread));
          pq1 = pq\<lparr>queues := (queues pq)(offset_prio pos := queues pq (offset_prio pos) @ [thread]),
                   bitmask := (bitmask pq)(pi_idx pos := bitmask pq (pi_idx pos) OR push_bit (pi_bit pos) 1)\<rparr>
      in if offset_prio pos < cached_queue_index pq1 then pq1\<lparr>cached_queue_index := offset_prio pos\<rparr> else pq1)"

text \<open>Taking a node off the list it is on.\<close>

definition mq_dequeue :: "tid \<Rightarrow> priq_mq \<Rightarrow> priq_mq" where
  "mq_dequeue thread pq = pq\<lparr>queues := (\<lambda>i. remove1 thread (queues pq i))\<rparr>"

definition z_priq_mq_remove :: "(tid \<Rightarrow> k_thread) \<Rightarrow> tid \<Rightarrow> priq_mq \<Rightarrow> priq_mq" where
  "z_priq_mq_remove th thread pq =
     (let pos = get_prio_info (prio (th thread)); pq1 = mq_dequeue thread pq
      in if queues pq1 (offset_prio pos) = []
         then let pq2 = pq1\<lparr>bitmask := (bitmask pq1)(pi_idx pos := bitmask pq1 (pi_idx pos) AND NOT (push_bit (pi_bit pos) 1))\<rparr>
              in pq2\<lparr>cached_queue_index := z_priq_mq_best_queue_index pq2\<rparr>
         else pq1)"

definition z_priq_mq_yield :: "(tid \<Rightarrow> k_thread) \<Rightarrow> tid \<Rightarrow> priq_mq \<Rightarrow> priq_mq" where
  "z_priq_mq_yield th cur pq =
     (let pos = get_prio_info (prio (th cur)); pq1 = mq_dequeue cur pq
      in pq1\<lparr>queues := (queues pq1)(offset_prio pos := queues pq1 (offset_prio pos) @ [cur])\<rparr>)"

definition z_priq_mq_best :: "priq_mq \<Rightarrow> tid option" where
  "z_priq_mq_best pq = (case queues pq (cached_queue_index pq) of [] \<Rightarrow> None | t # _ \<Rightarrow> Some t)"

section \<open>The order of the threads\<close>

definition valid_thread :: "k_thread \<Rightarrow> bool" where
  "valid_thread th \<longleftrightarrow> K_HIGHEST_THREAD_PRIO \<le> prio th \<and> prio th \<le> K_LOWEST_THREAD_PRIO"

definition level :: "k_thread \<Rightarrow> nat" where
  "level th = nat (prio th - K_HIGHEST_THREAD_PRIO)"

definition mq_order :: "priq_mq \<Rightarrow> tid list" where
  "mq_order pq = concat (map (queues pq) [0..<K_NUM_THREAD_PRIO])"

definition first_level :: "priq_mq \<Rightarrow> nat" where
  "first_level pq = (case filter (\<lambda>i. queues pq i \<noteq> []) [0..<K_NUM_THREAD_PRIO] of [] \<Rightarrow> K_NUM_THREAD_PRIO - 1 | i # _ \<Rightarrow> i)"

definition mq_ok :: "(tid \<Rightarrow> k_thread) \<Rightarrow> priq_mq \<Rightarrow> bool" where
  "mq_ok th pq \<longleftrightarrow> (\<forall>i. distinct (queues pq i)) \<and>
     (\<forall>i t. t \<in> set (queues pq i) \<longrightarrow> i < K_NUM_THREAD_PRIO \<and> valid_thread (th t) \<and> i = level (th t)) \<and>
     (\<forall>i. i < K_NUM_THREAD_PRIO \<longrightarrow> bit (bitmask pq (i div NBITS)) (i mod NBITS) = (queues pq i \<noteq> [])) \<and>
     (\<forall>i j. K_NUM_THREAD_PRIO \<le> i * NBITS + j \<longrightarrow> j < NBITS \<longrightarrow> \<not> bit (bitmask pq i) j) \<and>
     cached_queue_index pq = first_level pq"

lemma mq_sizes: "K_NUM_THREAD_PRIO = 32" "PRIQ_BITMAP_SIZE = 1"
  by (simp_all add: K_NUM_THREAD_PRIO_def K_NUM_PREEMPT_def K_NUM_COOP_def PRIQ_BITMAP_SIZE_def NBITS_def)

lemma valid_info:
  assumes "valid_thread th"
  shows "get_prio_info (prio th) = \<lparr>offset_prio = level th, pi_idx = level th div NBITS, pi_bit = level th mod NBITS\<rparr>"
    "level th < K_NUM_THREAD_PRIO"
proof -
  have r: "- 16 \<le> prio th" "prio th \<le> 15"
    using assms by (simp_all add: valid_thread_def K_HIGHEST_THREAD_PRIO_def K_LOWEST_THREAD_PRIO_def K_NUM_PREEMPT_def K_NUM_COOP_def)
  then show "level th < K_NUM_THREAD_PRIO" by (simp add: level_def K_HIGHEST_THREAD_PRIO_def K_NUM_COOP_def mq_sizes nat_less_iff)
  show "get_prio_info (prio th) = \<lparr>offset_prio = level th, pi_idx = level th div NBITS, pi_bit = level th mod NBITS\<rparr>"
    using r by (simp add: get_prio_info_def level_def K_HIGHEST_THREAD_PRIO_def K_NUM_COOP_def u8_def Let_def)
qed

lemma ctz_loop_spec: "n \<le> 32 \<Longrightarrow> (\<exists>i<n. bit x i) \<Longrightarrow> ctz_loop n b x = b + (LEAST i. bit x i)"
proof (induction n arbitrary: b x)
  case (Suc n)
  have a: "x AND 1 = 0 \<longleftrightarrow> \<not> bit x 0" using and_flag_iff [of x 0, unfolded power_0] by blast
  show ?case
  proof (cases "bit x 0")
    case True
    then have "(LEAST i. bit x i) = 0" by (intro Least_equality) auto
    with True show ?thesis by (simp only: ctz_loop.simps a) simp
  next
    case False
    from Suc.prems obtain i where i: "i < Suc n" "bit x i" by blast
    with False have "bit (drop_bit 1 x) (i - 1)" "i - 1 < n" by (cases i; simp add: bit_drop_bit_eq)+
    then have "ctz_loop n (b + 1) (drop_bit 1 x) = b + 1 + (LEAST i. bit (drop_bit 1 x) i)"
      using Suc.prems by (intro Suc.IH) auto
    moreover have "(LEAST i. bit x i) = Suc (LEAST i. bit x (Suc i))" by (rule Least_Suc [OF i(2) False])
    ultimately show ?thesis using False by (simp only: ctz_loop.simps a bit_drop_bit_eq) (simp add: comp_def)
  qed
qed simp

lemma first_nonempty:
  "(case concat (map f xs) of [] \<Rightarrow> None | t # _ \<Rightarrow> Some t) =
   (case filter (\<lambda>i. f i \<noteq> []) xs of [] \<Rightarrow> None | i # _ \<Rightarrow> (case f i of [] \<Rightarrow> None | t # _ \<Rightarrow> Some t))"
proof (induction xs)
  case (Cons x xs)
  then show ?case by (cases "f x") simp_all
qed simp

lemma best_index_first:
  assumes "\<forall>i. i < K_NUM_THREAD_PRIO \<longrightarrow> bit (bitmask pq (i div NBITS)) (i mod NBITS) = (queues pq i \<noteq> [])"
  shows "z_priq_mq_best_queue_index pq = first_level pq"
proof -
  have b: "bit (bitmask pq 0) i = (queues pq i \<noteq> [])" if "i < 32" for i
    using assms that by (force simp: mq_sizes NBITS_def)
  have "filter (\<lambda>i. queues pq i \<noteq> []) [0..<32] = filter (bit (bitmask pq 0)) [0..<32]"
    by (rule filter_cong) (use b in auto)
  then have f: "first_level pq = (case filter (bit (bitmask pq 0)) [0..<32] of [] \<Rightarrow> 31 | i # _ \<Rightarrow> i)"
    unfolding first_level_def mq_sizes by (simp split: list.split)
  show ?thesis
  proof (cases "bitmask pq 0 = 0")
    case True
    then show ?thesis by (simp add: f z_priq_mq_best_queue_index_def mq_sizes)
  next
    case False
    then obtain j where j: "bit (bitmask pq 0) j" "j < 32" by (auto simp: bit_eq_iff)
    define k where "k = (LEAST i. bit (bitmask pq 0) i)"
    have k: "bit (bitmask pq 0) k" "k < 32" "i < k \<Longrightarrow> \<not> bit (bitmask pq 0) i" for i
      using LeastI [of "bit (bitmask pq 0)", OF j(1)] Least_le [of "bit (bitmask pq 0)", OF j(1)] j(2) not_less_Least
      by (auto simp: k_def)
    have "[0..<32] = [0..<k] @ k # [Suc k..<32]"
      using k(2) upt_add_eq_append [of 0 k "32 - k"] upt_conv_Cons [of k 32] by simp
    then have "filter (bit (bitmask pq 0)) [0..<32] = k # filter (bit (bitmask pq 0)) [Suc k..<32]"
      using k(1,3) by (simp add: filter_empty_conv)
    moreover have "u32_count_trailing_zeros (bitmask pq 0) = k"
      using ctz_loop_spec [of 32 "bitmask pq 0" 0] j by (auto simp: u32_count_trailing_zeros_def k_def)
    ultimately show ?thesis using False by (simp add: f z_priq_mq_best_queue_index_def mq_sizes)
  qed
qed

lemma mq_okD:
  assumes "mq_ok th pq"
  shows "distinct (queues pq i)" "t \<in> set (queues pq i) \<Longrightarrow> i < K_NUM_THREAD_PRIO"
    "t \<in> set (queues pq i) \<Longrightarrow> valid_thread (th t)" "t \<in> set (queues pq i) \<Longrightarrow> level (th t) = i"
    "i < K_NUM_THREAD_PRIO \<Longrightarrow> bit (bitmask pq (i div NBITS)) (i mod NBITS) = (queues pq i \<noteq> [])"
    "K_NUM_THREAD_PRIO \<le> i * NBITS + j \<Longrightarrow> j < NBITS \<Longrightarrow> \<not> bit (bitmask pq i) j"
    "cached_queue_index pq = first_level pq"
  using assms unfolding mq_ok_def by metis+

lemma level_le: "valid_thread a \<Longrightarrow> valid_thread b \<Longrightarrow> level a \<le> level b \<Longrightarrow> prio a \<le> prio b"
  by (auto simp: level_def valid_thread_def)

lemma mq_orderD:
  assumes "mq_ok th pq"
  shows "distinct (mq_order pq)" "prio_sorted th (mq_order pq)"
    "t \<in> set (mq_order pq) \<longleftrightarrow> valid_thread (th t) \<and> t \<in> set (queues pq (level (th t)))"
    "z_priq_mq_best pq = (case mq_order pq of [] \<Rightarrow> None | t # _ \<Rightarrow> Some t)"
proof -
  show m: "t \<in> set (mq_order pq) \<longleftrightarrow> valid_thread (th t) \<and> t \<in> set (queues pq (level (th t)))" for t
  proof -
    have "t \<in> set (mq_order pq) \<longleftrightarrow> (\<exists>i<K_NUM_THREAD_PRIO. t \<in> set (queues pq i))" by (auto simp: mq_order_def)
    then show ?thesis using mq_okD(3,4) [OF assms] valid_info(2) by metis
  qed
  have le: "prio (th a) \<le> prio (th b)" if "a \<in> set (queues pq i)" "b \<in> set (queues pq j)" "i \<le> j" for a b i j
    using mq_okD(3,4) [OF assms] that level_le by metis
  have "distinct (concat (map (queues pq) [0..<n])) \<and> prio_sorted th (concat (map (queues pq) [0..<n]))" for n
  proof (induction n)
    case (Suc n)
    have "set (concat (map (queues pq) [0..<n])) \<inter> set (queues pq n) = {}"
    proof -
      have "x \<notin> set (queues pq n)" if "x \<in> set (queues pq i)" "i < n" for x i using mq_okD(4) [OF assms] that by (metis less_irrefl)
      then show ?thesis by auto
    qed
    moreover have "prio_sorted th (queues pq n)" using le [of _ n _ n]
      by (simp add: prio_sorted_def sorted_wrt_iff_nth_less)
    moreover have "distinct (queues pq n)" by (rule mq_okD(1) [OF assms])
    ultimately show ?case using Suc le by (auto simp: prio_sorted_def sorted_wrt_append less_imp_le)
  qed (simp add: prio_sorted_def)
  then show "distinct (mq_order pq)" "prio_sorted th (mq_order pq)" by (simp_all add: mq_order_def)
  show "z_priq_mq_best pq = (case mq_order pq of [] \<Rightarrow> None | t # _ \<Rightarrow> Some t)"
  proof (cases "filter (\<lambda>i. queues pq i \<noteq> []) [0..<K_NUM_THREAD_PRIO]")
    case Nil
    then have "queues pq (K_NUM_THREAD_PRIO - 1) = []" by (auto simp: filter_empty_conv mq_sizes)
    with Nil mq_okD(7) [OF assms] first_nonempty [of "queues pq"] show ?thesis
      by (simp add: mq_order_def z_priq_mq_best_def first_level_def)
  next
    case (Cons i js)
    with mq_okD(7) [OF assms] first_nonempty [of "queues pq"] show ?thesis
      by (simp add: mq_order_def z_priq_mq_best_def first_level_def)
  qed
qed

lemma upt_split: "k < n \<Longrightarrow> [0..<n] = [0..<k] @ k # [Suc k..<n]"
  using upt_add_eq_append [of 0 k "n - k"] upt_conv_Cons [of k n] by simp

lemma first_levelI:
  "k < K_NUM_THREAD_PRIO \<Longrightarrow> queues pq k \<noteq> [] \<Longrightarrow> (\<And>i. i < k \<Longrightarrow> queues pq i = []) \<Longrightarrow> first_level pq = k"
proof -
  assume k: "k < K_NUM_THREAD_PRIO" "queues pq k \<noteq> []" "\<And>i. i < k \<Longrightarrow> queues pq i = []"
  have "[0..<K_NUM_THREAD_PRIO] = [0..<k] @ k # [Suc k..<K_NUM_THREAD_PRIO]" by (rule upt_split [OF k(1)])
  moreover have "filter (\<lambda>i. queues pq i \<noteq> []) [0..<k] = []" using k(3) by (simp add: filter_empty_conv)
  ultimately show ?thesis using k(2) by (simp add: first_level_def)
qed

lemma insert_before_split:
  "\<forall>u \<in> set A. \<not> p u \<Longrightarrow> \<forall>u \<in> set B. p u \<Longrightarrow> insert_before p x (A @ B) = A @ x # B"
  by (induction A) (cases B, simp_all)

lemma prio_insert_level:
  assumes ok: "mq_ok th pq" and v: "valid_thread (th t)"
  shows "concat (map ((queues pq)(level (th t) := queues pq (level (th t)) @ [t])) [0..<K_NUM_THREAD_PRIO]) =
    prio_insert th t (mq_order pq)"
proof -
  let ?k = "level (th t)" and ?q = "queues pq"
  let ?f = "?q(?k := ?q ?k @ [t])"
  have k: "?k < K_NUM_THREAD_PRIO" by (rule valid_info(2) [OF v])
  have sp: "[0..<K_NUM_THREAD_PRIO] = [0..<?k] @ ?k # [Suc ?k..<K_NUM_THREAD_PRIO]"
    by (rule upt_split [OF k])
  have lo: "\<not> prio (th t) < prio (th u)" if "u \<in> set (?q i)" "i \<le> ?k" for u i
    using level_le [OF mq_okD(3) [OF ok that(1)] v] mq_okD(4) [OF ok that(1)] that(2) by simp
  have hi: "prio (th t) < prio (th u)" if "u \<in> set (?q i)" "?k < i" for u i
  proof (rule ccontr)
    assume "\<not> prio (th t) < prio (th u)"
    then have "level (th u) \<le> ?k" by (simp add: level_def)
    then show False using mq_okD(4) [OF ok that(1)] that(2) by simp
  qed
  have fa: "?f i = (if i = ?k then ?q i @ [t] else ?q i)" for i by simp
  have a: "map ?f [0..<?k] = map ?q [0..<?k]" "map ?f [Suc ?k..<K_NUM_THREAD_PRIO] = map ?q [Suc ?k..<K_NUM_THREAD_PRIO]" by simp_all
  let ?A = "concat (map ?q [0..<?k]) @ ?q ?k" and ?B = "concat (map ?q [Suc ?k..<K_NUM_THREAD_PRIO])"
  have "concat (map ?f [0..<K_NUM_THREAD_PRIO]) = ?A @ t # ?B" unfolding sp map_append list.map a by simp
  moreover have "mq_order pq = ?A @ ?B" unfolding mq_order_def sp by simp
  moreover have "prio_insert th t (?A @ ?B) = ?A @ t # ?B"
  proof -
    have "\<forall>u\<in>set ?A. \<not> prio (th t) < prio (th u)" using lo by fastforce
    moreover have "\<forall>u\<in>set ?B. prio (th t) < prio (th u)" using hi by auto
    ultimately show ?thesis unfolding prio_insert_def by (rule insert_before_split)
  qed
  ultimately show ?thesis by simp
qed

lemma first_level_props:
  "first_level pq < K_NUM_THREAD_PRIO" "i < first_level pq \<Longrightarrow> queues pq i = []"
  "queues pq (first_level pq) = [] \<Longrightarrow> first_level pq = K_NUM_THREAD_PRIO - 1"
proof -
  let ?l = "filter (\<lambda>i. queues pq i \<noteq> []) [0..<K_NUM_THREAD_PRIO]"
  have "first_level pq < K_NUM_THREAD_PRIO \<and> (\<forall>i < first_level pq. queues pq i = []) \<and>
    (queues pq (first_level pq) = [] \<longrightarrow> first_level pq = K_NUM_THREAD_PRIO - 1)"
  proof (cases ?l)
    case Nil
    then show ?thesis by (auto simp: first_level_def filter_empty_conv mq_sizes)
  next
    case (Cons k ks)
    have "k \<in> set ?l" by (simp add: Cons)
    then have k: "k < K_NUM_THREAD_PRIO" "queues pq k \<noteq> []" by auto
    have "sorted ?l" by (intro sorted_wrt_filter) simp
    then have "queues pq i = []" if "i < k" for i
    proof (rule contrapos_pp)
      assume "queues pq i \<noteq> []"
      then have "i \<in> set ?l" using that k by simp
      then show "\<not> sorted ?l" using that Cons by (auto simp: not_le)
    qed
    with k Cons show ?thesis by (simp add: first_level_def)
  qed
  then show "first_level pq < K_NUM_THREAD_PRIO" "i < first_level pq \<Longrightarrow> queues pq i = []"
    "queues pq (first_level pq) = [] \<Longrightarrow> first_level pq = K_NUM_THREAD_PRIO - 1" by auto
qed

lemma bit_index: "i div NBITS = j div NBITS \<and> i mod NBITS = j mod NBITS \<longleftrightarrow> i = j"
  by (metis div_mult_mod_eq)

lemma mq_add_rule:
  assumes ok: "mq_ok th pq" and t: "t \<notin> set (mq_order pq)" and v: "valid_thread (th t)"
  shows "mq_ok th (z_priq_mq_add th t pq)" "mq_order (z_priq_mq_add th t pq) = prio_insert th t (mq_order pq)"
proof -
  let ?k = "level (th t)" and ?p = "z_priq_mq_add th t pq"
  note k = valid_info(2) [OF v] and info = valid_info(1) [OF v]
  have q: "queues ?p = (queues pq)(?k := queues pq ?k @ [t])"
    "bitmask ?p = (bitmask pq)(?k div NBITS := bitmask pq (?k div NBITS) OR 2 ^ (?k mod NBITS))"
    "cached_queue_index ?p = min ?k (first_level pq)"
    using mq_okD(7) [OF ok] by (simp_all add: z_priq_mq_add_def info Let_def push_bit_of_1)
  show "mq_order ?p = prio_insert th t (mq_order pq)" unfolding mq_order_def q(1)
    using prio_insert_level [OF ok v] by (simp add: mq_order_def)
  have tn: "t \<notin> set (queues pq ?k)" using t mq_orderD(3) [OF ok, of t] v by simp
  have b: "bit (bitmask ?p i) j \<longleftrightarrow> bit (bitmask pq i) j \<or> i = ?k div NBITS \<and> j = ?k mod NBITS" for i j
    unfolding q(2) by (auto simp: bit_or_flag NBITS_def)
  have fl: "first_level ?p = min ?k (first_level pq)"
  proof (cases "?k < first_level pq")
    case True
    then show ?thesis using first_level_props(2) [of _ pq] k by (intro first_levelI) (auto simp: q(1) min_def)
  next
    case False
    then have e: "min ?k (first_level pq) = first_level pq" by simp
    have n: "queues pq (first_level pq) \<noteq> [] \<or> first_level pq = ?k"
      using first_level_props(3) [of pq] k False by auto
    show ?thesis unfolding e
    proof (rule first_levelI)
      show "first_level pq < K_NUM_THREAD_PRIO" by (rule first_level_props(1))
      show "queues ?p (first_level pq) \<noteq> []" using n unfolding q(1) by auto
      show "queues ?p i = []" if "i < first_level pq" for i using that False first_level_props(2) [OF that] unfolding q(1) by simp
    qed
  qed
  show "mq_ok th ?p" unfolding mq_ok_def
  proof (intro conjI allI impI)
    show "distinct (queues ?p i)" for i using mq_okD(1) [OF ok, of i] tn unfolding q(1) by auto
    fix i u assume "u \<in> set (queues ?p i)"
    then have u: "u \<in> set (queues pq i) \<or> i = ?k \<and> u = t" by (auto simp: q(1) split: if_splits)
    then show "i < K_NUM_THREAD_PRIO" "valid_thread (th u)" "i = level (th u)" using mq_okD(2-4) [OF ok] k v by blast+
  next
    fix i assume i: "i < K_NUM_THREAD_PRIO"
    show "bit (bitmask ?p (i div NBITS)) (i mod NBITS) = (queues ?p i \<noteq> [])"
      unfolding b bit_index using mq_okD(5) [OF ok i] by (simp add: q(1))
  next
    fix i j assume "K_NUM_THREAD_PRIO \<le> i * NBITS + j" "j < NBITS"
    then show "\<not> bit (bitmask ?p i) j"
      unfolding b using mq_okD(6) [OF ok] k div_mult_mod_eq [of ?k NBITS] by auto
  next
    show "cached_queue_index ?p = first_level ?p" unfolding q(3) fl by (rule refl)
  qed
qed

lemma mq_dequeue_queues:
  assumes ok: "mq_ok th pq" and t: "t \<in> set (mq_order pq)"
  shows "queues (mq_dequeue t pq) = (queues pq)(level (th t) := remove1 t (queues pq (level (th t))))"
    "concat (map (queues (mq_dequeue t pq)) [0..<K_NUM_THREAD_PRIO]) = remove1 t (mq_order pq)"
proof -
  let ?k = "level (th t)"
  have m: "t \<in> set (queues pq i) \<longleftrightarrow> i = ?k" for i using t mq_orderD(3) [OF ok, of t] mq_okD(4) [OF ok] by metis
  show q: "queues (mq_dequeue t pq) = (queues pq)(?k := remove1 t (queues pq ?k))"
    using m by (auto simp: mq_dequeue_def fun_eq_iff remove1_idem)
  have "remove1 t (concat (map f xs)) = concat (map (\<lambda>i. remove1 t (f i)) xs)"
    if "distinct xs" "\<And>i j. t \<in> set (f i) \<Longrightarrow> t \<in> set (f j) \<Longrightarrow> i = j" for f :: "nat \<Rightarrow> tid list" and xs
    using that
  proof (induction xs)
    case (Cons x xs)
    show ?case
    proof (cases "t \<in> set (f x)")
      case True
      then have "t \<notin> set (f y)" if "y \<in> set xs" for y using Cons.prems that by (metis distinct.simps(2))
      then have "map (\<lambda>i. remove1 t (f i)) xs = map f xs" by (simp add: remove1_idem)
      with True show ?thesis by (simp add: remove1_append del: map_eq_conv)
    qed (use Cons in \<open>simp add: remove1_append remove1_idem\<close>)
  qed simp
  from this [of "[0..<K_NUM_THREAD_PRIO]" "queues pq"] m
  show "concat (map (queues (mq_dequeue t pq)) [0..<K_NUM_THREAD_PRIO]) = remove1 t (mq_order pq)"
    by (simp add: mq_order_def mq_dequeue_def)
qed

lemma mq_remove_rule:
  assumes ok: "mq_ok th pq" and t: "t \<in> set (mq_order pq)" and v: "valid_thread (th t)"
  shows "mq_ok th (z_priq_mq_remove th t pq)" "mq_order (z_priq_mq_remove th t pq) = remove1 t (mq_order pq)"
proof -
  let ?k = "level (th t)" and ?p = "z_priq_mq_remove th t pq"
  note k = valid_info(2) [OF v] and info = valid_info(1) [OF v] and dq = mq_dequeue_queues [OF ok t]
  let ?r = "remove1 t (queues pq ?k)"
  have q: "queues ?p = (queues pq)(?k := ?r)"
    by (auto simp: z_priq_mq_remove_def info Let_def dq(1))
  have bm: "bitmask (mq_dequeue t pq) = bitmask pq" "cached_queue_index (mq_dequeue t pq) = cached_queue_index pq"
    by (simp_all add: mq_dequeue_def)
  have b: "bit (bitmask ?p i) j \<longleftrightarrow> bit (bitmask pq i) j \<and> \<not> (?r = [] \<and> i = ?k div NBITS \<and> j = ?k mod NBITS)" for i j
    by (auto simp: z_priq_mq_remove_def info Let_def dq(1) bm push_bit_of_1 bit_and_not_flag)
  show "mq_order ?p = remove1 t (mq_order pq)" using dq(2) by (simp add: mq_order_def q dq(1))
  have tm: "t \<in> set (queues pq ?k)" using t mq_orderD(3) [OF ok, of t] by simp
  have i5: "bit (bitmask ?p (i div NBITS)) (i mod NBITS) = (queues ?p i \<noteq> [])" if "i < K_NUM_THREAD_PRIO" for i
    unfolding b bit_index using mq_okD(5) [OF ok that] tm by (auto simp: q)
  have c: "cached_queue_index ?p = first_level ?p"
  proof (cases "?r = []")
    case True
    then have "cached_queue_index ?p = z_priq_mq_best_queue_index ?p"
      by (simp add: z_priq_mq_remove_def info Let_def dq(1) z_priq_mq_best_queue_index_def mq_sizes)
    also have "\<dots> = first_level ?p" using i5 by (intro best_index_first) simp
    finally show ?thesis .
  next
    case False
    have "filter (\<lambda>i. queues ?p i \<noteq> []) [0..<K_NUM_THREAD_PRIO] = filter (\<lambda>i. queues pq i \<noteq> []) [0..<K_NUM_THREAD_PRIO]"
      using False tm by (intro filter_cong) (auto simp: q)
    then show ?thesis using False mq_okD(7) [OF ok] by (simp add: first_level_def z_priq_mq_remove_def info Let_def dq(1) bm)
  qed
  show "mq_ok th ?p" unfolding mq_ok_def
  proof (intro conjI allI impI)
    show "distinct (queues ?p i)" for i using mq_okD(1) [OF ok] unfolding q by auto
    fix i u assume "u \<in> set (queues ?p i)"
    then have "u \<in> set (queues pq i)" unfolding q using set_remove1_subset by (fastforce split: if_splits)
    then show "i < K_NUM_THREAD_PRIO" "valid_thread (th u)" "i = level (th u)" using mq_okD(2-4) [OF ok] by blast+
  next
    fix i j assume "K_NUM_THREAD_PRIO \<le> i * NBITS + j" "j < NBITS"
    then show "\<not> bit (bitmask ?p i) j" unfolding b using mq_okD(6) [OF ok] by blast
  qed (use i5 c in blast)+
qed

lemma mq_yield_rule:
  assumes ok: "mq_ok th pq" and t: "t \<in> set (mq_order pq)" and v: "valid_thread (th t)"
  shows "mq_ok th (z_priq_mq_yield th t pq)" "mq_order (z_priq_mq_yield th t pq) = prio_insert th t (remove1 t (mq_order pq))"
proof -
  let ?k = "level (th t)" and ?p = "z_priq_mq_yield th t pq"
  note k = valid_info(2) [OF v] and info = valid_info(1) [OF v] and dq = mq_dequeue_queues [OF ok t]
  have tm: "t \<in> set (queues pq ?k)" using t mq_orderD(3) [OF ok, of t] by simp
  have q: "queues ?p = (queues pq)(?k := remove1 t (queues pq ?k) @ [t])" "bitmask ?p = bitmask pq"
    "cached_queue_index ?p = cached_queue_index pq"
    by (simp_all add: z_priq_mq_yield_def info Let_def dq(1)) (simp_all add: mq_dequeue_def)
  have ne: "queues ?p i \<noteq> [] \<longleftrightarrow> queues pq i \<noteq> []" for i using tm by (auto simp: q(1))
  have fl: "first_level ?p = first_level pq" unfolding first_level_def ne by (rule refl)
  have su: "set (queues ?p i) = set (queues pq i)" for i using tm mq_okD(1) [OF ok, of ?k] by (auto simp: q(1) set_remove1_eq)
  show "mq_ok th ?p" unfolding mq_ok_def su ne fl q(2,3)
  proof (intro conjI allI impI)
    show "distinct (queues ?p i)" for i using mq_okD(1) [OF ok] unfolding q(1) by auto
  qed (use mq_okD(2-7) [OF ok] in blast)+
  define x where "x = z_priq_mq_remove th t pq"
  have x: "mq_ok th x" "mq_order x = remove1 t (mq_order pq)" using mq_remove_rule [OF ok t v] by (simp_all add: x_def)
  have "queues x = (queues pq)(?k := remove1 t (queues pq ?k))"
    by (auto simp: x_def z_priq_mq_remove_def info Let_def dq(1))
  then have "queues ?p = (queues x)(?k := queues x ?k @ [t])" by (simp add: q(1))
  then show "mq_order ?p = prio_insert th t (remove1 t (mq_order pq))"
    unfolding mq_order_def [of ?p] x(2) [symmetric] using prio_insert_level [OF x(1) v] by simp
qed

interpretation mq: prio_queue mq_ok mq_order
  "z_priq_mq_init \<lparr>queues = \<lambda>_. [], bitmask = \<lambda>_. 0, cached_queue_index = 0\<rparr>" z_priq_mq_add z_priq_mq_remove z_priq_mq_yield
  z_priq_mq_best valid_thread
proof
  show "mq_ok th (z_priq_mq_init \<lparr>queues = \<lambda>_. [], bitmask = \<lambda>_. 0, cached_queue_index = 0\<rparr>)" for th
    by (simp add: mq_ok_def z_priq_mq_init_def first_level_def)
  show "mq_order (z_priq_mq_init \<lparr>queues = \<lambda>_. [], bitmask = \<lambda>_. 0, cached_queue_index = 0\<rparr>) = []"
    by (simp add: mq_order_def z_priq_mq_init_def)
qed (rule conjI mq_orderD(1,2,4) mq_add_rule mq_remove_rule mq_yield_rule; assumption?)+

section \<open>Equivalence with the simple queue\<close>

datatype pq_op = PAdd tid | PRemove tid | PYield tid

fun simple_step :: "(tid \<Rightarrow> k_thread) \<Rightarrow> pq_op \<Rightarrow> tid list \<Rightarrow> tid list" where
  "simple_step th (PAdd t) q = z_priq_simple_add th t q"
| "simple_step th (PRemove t) q = z_priq_simple_remove t q"
| "simple_step th (PYield t) q = z_priq_simple_yield th t q"

fun mq_step :: "(tid \<Rightarrow> k_thread) \<Rightarrow> pq_op \<Rightarrow> priq_mq \<Rightarrow> priq_mq" where
  "mq_step th (PAdd t) q = z_priq_mq_add th t q"
| "mq_step th (PRemove t) q = z_priq_mq_remove th t q"
| "mq_step th (PYield t) q = z_priq_mq_yield th t q"

text \<open>The scheduler only adds threads that are not queued and only removes or yields queued ones.\<close>

fun legal :: "(tid \<Rightarrow> k_thread) \<Rightarrow> pq_op list \<Rightarrow> tid set \<Rightarrow> bool" where
  "legal th [] T \<longleftrightarrow> True"
| "legal th (PAdd t # ops) T \<longleftrightarrow> t \<notin> T \<and> valid_thread (th t) \<and> legal th ops (insert t T)"
| "legal th (PRemove t # ops) T \<longleftrightarrow> t \<in> T \<and> legal th ops (T - {t})"
| "legal th (PYield t # ops) T \<longleftrightarrow> t \<in> T \<and> legal th ops T"

lemma mq_step_simple:
  assumes "mq_ok th q" and "mq_order q = l"
    and "case op of PAdd t \<Rightarrow> t \<notin> set l \<and> valid_thread (th t) | PRemove t \<Rightarrow> t \<in> set l | PYield t \<Rightarrow> t \<in> set l"
  shows "mq_ok th (mq_step th op q) \<and> mq_order (mq_step th op q) = simple_step th op l"
proof -
  have v: "valid_thread (th t)" if "t \<in> set l" for t using mq_orderD(3) [OF assms(1), of t] assms(2) that by simp
  have s: "distinct l \<and> prio_sorted th l" using mq_orderD(1,2) [OF assms(1)] assms(2) by simp
  show ?thesis
    using assms v mq_add_rule [OF assms(1)] mq_remove_rule [OF assms(1)] mq_yield_rule [OF assms(1)]
      simpleq.add_ok [OF s] simpleq.rem_ok [OF s] simpleq.yield_ok [OF s]
    by (cases op) auto
qed

lemma simple_step_set:
  assumes "distinct l \<and> prio_sorted th l"
    and "case op of PAdd t \<Rightarrow> t \<notin> set l | PRemove t \<Rightarrow> t \<in> set l | PYield t \<Rightarrow> t \<in> set l"
  shows "set (simple_step th op l) = (case op of PAdd t \<Rightarrow> insert t (set l) | PRemove t \<Rightarrow> set l - {t} | PYield t \<Rightarrow> set l)"
  using assms simpleq.yield_ok [OF assms(1)]
  by (cases op) (auto simp: simple_add_insert z_priq_simple_remove_def set_remove1_eq)

text \<open>
  C10: the multi-queue is equivalent to the simple queue.  After any legal sequence of additions, removals and yields
  both list the same threads in the same order and choose the same thread to run next.
\<close>

theorem multiq_equiv_simple:
  assumes "legal th ops {}"
  defines "q \<equiv> fold (mq_step th) ops (z_priq_mq_init \<lparr>queues = \<lambda>_. [], bitmask = \<lambda>_. 0, cached_queue_index = 0\<rparr>)"
    and "l \<equiv> fold (simple_step th) ops z_priq_simple_init"
  shows "mq_order q = l \<and> z_priq_mq_best q = z_priq_simple_best l"
proof -
  have "mq_ok th (fold (mq_step th) ops q) \<and> mq_order (fold (mq_step th) ops q) = fold (simple_step th) ops l"
    if "mq_ok th q" "mq_order q = l" "legal th ops (set l)" for q l
    using that
  proof (induction ops arbitrary: q l)
    case (Cons op ops)
    have s: "distinct l \<and> prio_sorted th l" using mq_orderD(1,2) [OF Cons.prems(1)] Cons.prems(2) by simp
    have c: "case op of PAdd t \<Rightarrow> t \<notin> set l \<and> valid_thread (th t) | PRemove t \<Rightarrow> t \<in> set l | PYield t \<Rightarrow> t \<in> set l"
      using Cons.prems(3) by (cases op) auto
    then have c': "case op of PAdd t \<Rightarrow> t \<notin> set l | PRemove t \<Rightarrow> t \<in> set l | PYield t \<Rightarrow> t \<in> set l" by (cases op) auto
    have "legal th ops (set (simple_step th op l))"
      unfolding simple_step_set [OF s c'] using Cons.prems(3) by (cases op) auto
    with Cons.IH mq_step_simple [OF Cons.prems(1,2) c] show ?case by simp
  qed simp
  from this [OF mq.init_ok(1,2)] assms have r: "mq_ok th q" "mq_order q = l" by (simp_all add: z_priq_simple_init_def)
  then show ?thesis using mq_orderD(4) [OF r(1)] by (simp add: z_priq_simple_best_def)
qed

definition four_prios :: "tid \<Rightarrow> k_thread" where
  "four_prios t = mk_thread (if t = 1 then 3 else if t = 2 then - 2 else if t = 3 then 3 else 0) 0"

theorem multiq_equiv_simple_witness:
  "z_priq_mq_best (fold (mq_step four_prios) [PAdd 1, PAdd 2, PAdd 3, PRemove 2, PYield 1]
     (z_priq_mq_init \<lparr>queues = \<lambda>_. [], bitmask = \<lambda>_. 0, cached_queue_index = 0\<rparr>)) = Some 3"
proof -
  have "legal four_prios [PAdd 1, PAdd 2, PAdd 3, PRemove 2, PYield 1] {}"
    by (simp add: valid_thread_def four_prios_def mk_thread_def K_HIGHEST_THREAD_PRIO_def K_LOWEST_THREAD_PRIO_def
        K_NUM_COOP_def K_NUM_PREEMPT_def)
  from multiq_equiv_simple [OF this] show ?thesis
    by (simp add: z_priq_simple_init_def z_priq_simple_add_def z_priq_simple_remove_def z_priq_simple_yield_def
        z_priq_simple_best_def z_sched_prio_cmp_def four_prios_def mk_thread_def)
qed

end
