(* ===== verification/Timer.thy ===== *)
theory Timer
  imports Thread_Frame
begin

text \<open>
  Kernel timers, \<^verbatim>\<open>kernel/timer.c\<close>, without observers.  The functions an application registers with a timer
  are a parameter: \<open>user f m\<close> is the call of function number \<open>f\<close> on timer \<open>m\<close>.  The timeout embedded in
  timer \<open>m\<close> is \<open>TimerTimeout m\<close>.
\<close>

section \<open>Operations\<close>

abbreviation timer_of :: "nat \<Rightarrow> kernel \<Rightarrow> k_timer" where
  "timer_of m s \<equiv> timers (objs s) m"

definition upd_timer :: "nat \<Rightarrow> (k_timer \<Rightarrow> k_timer) \<Rightarrow> kernel \<Rightarrow> kernel" where
  "upd_timer m f = upd_objs (\<lambda>b. b\<lparr>timers := (timers b)(m := f (timers b m))\<rparr>)"

definition z_is_inactive_timeout :: "timeout_id \<Rightarrow> kernel \<Rightarrow> bool" where
  "z_is_inactive_timeout t s = q_inactive dlist_ops t (tq s)"

definition CLAMP :: "int \<Rightarrow> int \<Rightarrow> int \<Rightarrow> int" where
  "CLAMP val low high = (if val \<le> low then low else min val high)"

definition K_TIMEOUT_ABS_TICKS :: "int \<Rightarrow> int" where
  "K_TIMEOUT_ABS_TICKS t = Z_TICK_ABS (CLAMP t 0 (INT64_MAX - 1))"

definition k_uptime_ticks :: "kernel \<Rightarrow> int" where
  "k_uptime_ticks s = sys_clock_tick_get s"

definition timer_wake :: "nat \<Rightarrow> kernel \<Rightarrow> kernel" where
  "timer_wake m s =
     (case z_waitq_head (WqTimer m) s of
        None \<Rightarrow> s
      | Some thread \<Rightarrow>
          ready_thread thread (upd_thread thread (\<lambda>th. th\<lparr>swap_retval := 0\<rparr>) (unpend_thread_no_timeout thread s)))"

definition timer_restart :: "nat \<Rightarrow> kernel \<Rightarrow> kernel" where
  "timer_restart m s =
     (let period = timer_period (timer_of m s)
      in if period \<noteq> K_NO_WAIT \<and> period \<noteq> K_FOREVER
         then snd (z_add_timeout dlist_ops (TimerTimeout m) Z_TIMER_EXPIRATION_HANDLER
                (K_TIMEOUT_ABS_TICKS (s64 (k_uptime_ticks s + period))) s)
         else s)"

definition z_timer_expiration_handler :: "(nat \<Rightarrow> nat \<Rightarrow> kernel \<Rightarrow> kernel) \<Rightarrow> nat \<Rightarrow> kernel \<Rightarrow> kernel" where
  "z_timer_expiration_handler user m s =
     (if \<not> z_is_inactive_timeout (TimerTimeout m) s \<or> z_timeout_inflight_superseded (TimerTimeout m) s then s
      else
        let s1 = timer_restart m s;
            s2 = upd_timer m (\<lambda>x. x\<lparr>timer_status := u32 (timer_status x + 1)\<rparr>) s1;
            s3 = (case expiry_fn (timer_of m s2) of None \<Rightarrow> s2 | Some f \<Rightarrow> user f m s2)
        in timer_wake m s3)"

partial_function (option) z_timer_cleanup :: "nat \<Rightarrow> bool \<Rightarrow> kernel \<Rightarrow> (int \<times> kernel) option" where
  "z_timer_cleanup m locked s =
     (if locked \<and> z_waitq_head (WqTimer m) s \<noteq> None then Some (- EAGAIN, s)
      else if \<not> locked \<and> z_waitq_head (WqTimer m) s \<noteq> None then Some (- EAGAIN, s)
      else let (r, s1) = z_try_abort_timeout dlist_ops (TimerTimeout m) s
           in if r = - EAGAIN then z_timer_cleanup m locked s1 else Some (0, s1))"

definition k_timer_cleanup :: "nat \<Rightarrow> kernel \<Rightarrow> (int \<times> kernel) option" where
  "k_timer_cleanup m s = z_timer_cleanup m False s"

text \<open>The timeout of the timer is not in the queue when the timer is initialised; the call leaves the queue alone.\<close>

definition k_timer_init :: "nat \<Rightarrow> nat option \<Rightarrow> nat option \<Rightarrow> kernel \<Rightarrow> kernel" where
  "k_timer_init m expiry stop s =
     upd_timer m (\<lambda>x. x\<lparr>timer_user_data := 0\<rparr>)
       (z_waitq_init (WqTimer m)
          (upd_timer m (\<lambda>x. x\<lparr>expiry_fn := expiry, stop_fn := stop, timer_status := 0\<rparr>) s))"

definition k_timer_start :: "nat \<Rightarrow> int \<Rightarrow> int \<Rightarrow> kernel \<Rightarrow> kernel" where
  "k_timer_start m duration period s =
     (if duration = K_FOREVER then s
      else
        let s1 = snd (z_try_abort_timeout dlist_ops (TimerTimeout m) s);
            s2 = upd_timer m (\<lambda>x. x\<lparr>timer_period := period, timer_status := 0\<rparr>) s1
        in snd (z_add_timeout dlist_ops (TimerTimeout m) Z_TIMER_EXPIRATION_HANDLER duration s2))"

definition k_timer_stop :: "(nat \<Rightarrow> nat \<Rightarrow> kernel \<Rightarrow> kernel) \<Rightarrow> nat \<Rightarrow> kernel \<Rightarrow> kernel" where
  "k_timer_stop user m s =
     (let (r, s1) = z_try_abort_timeout dlist_ops (TimerTimeout m) s
      in if r \<noteq> 0 then s1
         else
           let s2 = (case stop_fn (timer_of m s1) of None \<Rightarrow> s1 | Some f \<Rightarrow> user f m s1)
           in case z_unpend1_no_timeout (WqTimer m) s2 of
                (Some thread, s3) \<Rightarrow> reschedule (z_ready_thread thread s3)
              | (None, s3) \<Rightarrow> s3)"

definition k_timer_status_get :: "nat \<Rightarrow> kernel \<Rightarrow> int \<times> kernel" where
  "k_timer_status_get m s = (timer_status (timer_of m s), upd_timer m (\<lambda>x. x\<lparr>timer_status := 0\<rparr>) s)"

definition k_timer_status_sync :: "nat \<Rightarrow> kernel \<Rightarrow> int kres \<times> kernel" where
  "k_timer_status_sync m s =
     (let result = timer_status (timer_of m s)
      in if result = 0 \<and> \<not> z_is_inactive_timeout (TimerTimeout m) s
         then z_pend_curr (Some (WqTimer m)) K_FOREVER s
         else (Ret result, upd_timer m (\<lambda>x. x\<lparr>timer_status := 0\<rparr>) s))"

definition k_timer_status_sync_resume :: "nat \<Rightarrow> kernel \<Rightarrow> int \<times> kernel" where
  "k_timer_status_sync_resume m s =
     (timer_status (timer_of m s), upd_timer m (\<lambda>x. x\<lparr>timer_status := 0\<rparr>) s)"

definition k_timer_expires_ticks :: "nat \<Rightarrow> kernel \<Rightarrow> int" where
  "k_timer_expires_ticks m s = z_timeout_expires dlist_ops (TimerTimeout m) s"

definition k_timer_remaining_ticks :: "nat \<Rightarrow> kernel \<Rightarrow> int" where
  "k_timer_remaining_ticks m s = z_timeout_remaining dlist_ops (TimerTimeout m) s"

definition k_timer_user_data_set :: "nat \<Rightarrow> nat \<Rightarrow> kernel \<Rightarrow> kernel" where
  "k_timer_user_data_set m d = upd_timer m (\<lambda>x. x\<lparr>timer_user_data := d\<rparr>)"

definition k_timer_user_data_get :: "nat \<Rightarrow> kernel \<Rightarrow> nat" where
  "k_timer_user_data_get m s = timer_user_data (timer_of m s)"

section \<open>The invariant\<close>

text \<open>When a timeout expires, and what the timers ask of the rest of the kernel.\<close>

definition texp :: "'o kstate \<Rightarrow> timeout_id \<Rightarrow> int option" where
  "texp s t = dl_expiry (curr_tick s) (tq s) t"

definition timers_ok :: "kernel \<Rightarrow> bool" where
  "timers_ok s \<longleftrightarrow> (\<forall>m. texp s (TimerTimeout m) \<noteq> None \<longrightarrow> tfn s (TimerTimeout m) = Z_TIMER_EXPIRATION_HANDLER) \<and>
     (\<forall>m. - 1 \<le> timer_period (timer_of m s) \<and> timer_period (timer_of m s) < 2 ^ 62) \<and>
     (\<forall>m t. pended_on (threads s t) = Some (WqTimer m) \<longrightarrow> \<not> armed s t)"

lemma armed_texp: "armed s t \<longleftrightarrow> texp s (ThreadTimeout t) \<noteq> None"
proof -
  have "armed s t \<longleftrightarrow> ThreadTimeout t \<in> dom (dl_expiry (curr_tick s) (tq s))" by (simp add: armed_def)
  then show ?thesis by (simp add: texp_def domIff del: dl_expiry_dom)
qed

text \<open>A step that touches only the clock and the timeouts, and arms no thread.\<close>

lemma sinv_clock:
  fixes s s' :: "'o kstate"
  assumes "sinv X s" "threads s' = threads s" "runq s' = runq s" "waitq s' = waitq s" "idle_thread s' = idle_thread s"
    "dummy_thread s' = dummy_thread s" "dl_inv (curr_tick s') (tq s')" "0 \<le> curr_tick s'"
    "\<And>t. armed s' t \<Longrightarrow> armed s t \<and> tfn s' (ThreadTimeout t) = tfn s (ThreadTimeout t)"
  shows "sinv X s'"
  using assms unfolding inv_defs by auto

lemma upd_timer_sel [simp]:
  "timers (objs (upd_timer m f s)) = (timers (objs s))(m := f (timers (objs s) m))"
  "waitq (upd_timer m f s) = waitq s" "threads (upd_timer m f s) = threads s" "current (upd_timer m f s) = current s"
  "runq (upd_timer m f s) = runq s" "cache (upd_timer m f s) = cache s" "idle_thread (upd_timer m f s) = idle_thread s"
  "dummy_thread (upd_timer m f s) = dummy_thread s" "in_isr (upd_timer m f s) = in_isr s"
  "tq (upd_timer m f s) = tq s" "tfn (upd_timer m f s) = tfn s" "curr_tick (upd_timer m f s) = curr_tick s"
  "announcing_cpu (upd_timer m f s) = announcing_cpu s" "elapsed (upd_timer m f s) = elapsed s"
  "announce_remaining (upd_timer m f s) = announce_remaining s" "texp (upd_timer m f s) = texp s"
  "armed (upd_timer m f s) = armed s" "sched_ok (upd_timer m f s) = sched_ok s" "sinv X (upd_timer m f s) = sinv X s"
  "cache_ok (upd_timer m f s) = cache_ok s" "clk_elapsed (upd_timer m f s) = clk_elapsed s"
  by (simp_all add: upd_timer_def texp_def fun_eq_iff)

section \<open>Absolute timeouts\<close>

lemma Z_TICK_ABS_inv [simp]: "Z_TICK_ABS (Z_TICK_ABS t) = t"
  by (simp add: Z_TICK_ABS_def)

lemma add_absolute:
  fixes s :: "'o kstate" and g :: timeout_func
  assumes i: "dl_inv (curr_tick s) (tq s)" and t: "texp s t = None"
    and x: "0 \<le> curr_tick s" "curr_tick s < x" "x < 2 ^ 63"
  defines "s' \<equiv> snd (z_add_timeout dlist_ops t g (Z_TICK_ABS x) s)"
  shows "dl_inv (curr_tick s) (tq s')" "texp s' = (texp s)(t \<mapsto> x)"
proof -
  have t': "t \<notin> dom (dl_expiry (curr_tick s) (tq s))" using t by (simp add: texp_def domIff del: dl_expiry_dom)
  have n: "Z_TICK_ABS x \<noteq> - 1" "\<not> 0 \<le> Z_TICK_ABS x" using x by (simp_all add: Z_TICK_ABS_def)
  have d: "max 1 (s64 (x - curr_tick s)) = x - curr_tick s" using x by (subst s64_id) auto
  have "tq s' = snd (q_insert dlist_ops (curr_tick s) t (x - curr_tick s) (tq s))"
    using n d by (simp add: s'_def z_add_timeout_def Let_def case_prod_unfold Z_IS_TIMEOUT_RELATIVE_def)
  moreover have "curr_tick s' = curr_tick s" by (simp add: s'_def)
  ultimately show "dl_inv (curr_tick s) (tq s')" "texp s' = (texp s)(t \<mapsto> x)"
    using dlt.insert_inv [OF i t', of "x - curr_tick s"] x by (simp_all add: texp_def fun_eq_iff)
qed

lemma restart_sel [simp]:
  "curr_tick (timer_restart m s) = curr_tick s" "announce_remaining (timer_restart m s) = announce_remaining s"
  "announcing_cpu (timer_restart m s) = announcing_cpu s" "tstate.more (timer_restart m s) = tstate.more s"
  by (simp_all add: timer_restart_def Let_def)

lemmas restart_more [simp] = kframe [OF restart_sel(4)]

abbreviation next_period :: "nat \<Rightarrow> kernel \<Rightarrow> int option" where
  "next_period m s \<equiv> if timer_period (timer_of m s) = K_NO_WAIT \<or> timer_period (timer_of m s) = K_FOREVER then None
     else Some (curr_tick s + timer_period (timer_of m s))"

text \<open>In the announce loop a periodic timer is queued again exactly one period after the tick it expired at.\<close>

lemma restart_rule:
  assumes i: "dl_inv (curr_tick s) (tq s)" and t: "texp s (TimerTimeout m) = None" and a: "announcing_cpu s = 0"
    and c: "0 \<le> curr_tick s" "curr_tick s < 2 ^ 62" and p: "timers_ok s"
  defines "s' \<equiv> timer_restart m s"
  shows "dl_inv (curr_tick s) (tq s')" "texp s' = (texp s)(TimerTimeout m := next_period m s)"
    "tfn s' = (if next_period m s = None then tfn s else (tfn s)(TimerTimeout m := Z_TIMER_EXPIRATION_HANDLER))"
proof -
  let ?p = "timer_period (timer_of m s)"
  have p: "- 1 \<le> ?p" "?p < 2 ^ 62" using p by (simp_all add: timers_ok_def)
  have e: "elapsed s = 0" using a by (simp add: elapsed_def this_cpu_announcing_def)
  show "dl_inv (curr_tick s) (tq s')" "texp s' = (texp s)(TimerTimeout m := next_period m s)"
    "tfn s' = (if next_period m s = None then tfn s else (tfn s)(TimerTimeout m := Z_TIMER_EXPIRATION_HANDLER))"
  proof (atomize (full), cases "?p = 0 \<or> ?p = - 1")
    case True
    with i t show "dl_inv (curr_tick s) (tq s') \<and> texp s' = (texp s)(TimerTimeout m := next_period m s) \<and>
      tfn s' = (if next_period m s = None then tfn s else (tfn s)(TimerTimeout m := Z_TIMER_EXPIRATION_HANDLER))"
      by (auto simp: s'_def timer_restart_def fun_upd_idem)
  next
    case False
    then have q: "0 < ?p" using p by linarith
    have u: "k_uptime_ticks s = curr_tick s" using c e by (simp add: k_uptime_ticks_def sys_clock_tick_get_def u64_id s64_id)
    have "s64 (curr_tick s + ?p) = curr_tick s + ?p" using c q p by (subst s64_id) auto
    then have s': "s' = snd (z_add_timeout dlist_ops (TimerTimeout m) Z_TIMER_EXPIRATION_HANDLER (Z_TICK_ABS (curr_tick s + ?p)) s)"
      using False c q p by (simp add: s'_def timer_restart_def u K_TIMEOUT_ABS_TICKS_def CLAMP_def min_def)
    have n: "Z_TICK_ABS (curr_tick s + ?p) \<noteq> - 1" using c q by (simp add: Z_TICK_ABS_def)
    show "dl_inv (curr_tick s) (tq s') \<and> texp s' = (texp s)(TimerTimeout m := next_period m s) \<and>
      tfn s' = (if next_period m s = None then tfn s else (tfn s)(TimerTimeout m := Z_TIMER_EXPIRATION_HANDLER))"
      using add_absolute [OF i t c(1), of "curr_tick s + ?p" Z_TIMER_EXPIRATION_HANDLER] c q p False n
      by (simp add: s' add_timeout_tfn)
  qed
qed

section \<open>Waking the waiter\<close>

lemma timer_wake_rule:
  fixes m :: nat
  assumes s: "sinv {} s" "cache_ok s" and n: "timers_ok s"
  defines "s' \<equiv> timer_wake m s"
  shows "sinv {} s'" "cache_ok s'" "waitq s' = (waitq s)(WqTimer m := tl (waitq s (WqTimer m)))"
    "threads s' u = (if waitq s (WqTimer m) \<noteq> [] \<and> u = hd (waitq s (WqTimer m))
       then waked (\<lambda>th. th\<lparr>swap_retval := 0\<rparr>) (threads s u) else threads s u)"
    "tq s' = tq s" "objs s' = objs s" "curr_tick s' = curr_tick s" "announcing_cpu s' = announcing_cpu s"
    "announce_remaining s' = announce_remaining s" "in_isr s' = in_isr s" "tfn s' = tfn s"
proof -
  let ?g = "\<lambda>th. th\<lparr>swap_retval := 0\<rparr> :: k_thread"
  have "sinv {} s' \<and> cache_ok s' \<and> waitq s' = (waitq s)(WqTimer m := tl (waitq s (WqTimer m))) \<and>
    (\<forall>u. threads s' u = (if waitq s (WqTimer m) \<noteq> [] \<and> u = hd (waitq s (WqTimer m))
       then waked ?g (threads s u) else threads s u))"
  proof (cases "waitq s (WqTimer m)")
    case Nil
    with s show ?thesis by (auto simp: s'_def timer_wake_def z_waitq_head_def z_priq_simple_best_def)
  next
    case (Cons t ts)
    note h = waitq_head_pended [OF s(1) Cons]
    let ?u = "unpend_thread_no_timeout t s"
    have s': "s' = ready_thread t (upd_thread t ?g ?u)" by (simp add: s'_def timer_wake_def h)
    have na: "\<not> armed s t" using n h(2) by (auto simp: timers_ok_def)
    have live: "\<not> z_is_thread_dead (threads s t)" "t \<noteq> idle_thread s" "\<not> RDY s t"
      using sinvD(15) [OF s(1), of t] sinvD(3) [OF s(1)] sinvD(11) [OF s(1), of t] h(2) by (auto simp: thread_ready_tests)
    have i: "sinv {} s'" unfolding s'
    proof (rule sinv_ready)
      show "sinv {t} (upd_thread t ?g ?u)" using sinv_unpend [OF s(1) h(2)] by simp
      show "z_is_thread_dead (threads (upd_thread t ?g ?u) t) \<Longrightarrow> t \<in> {} \<or> (pended_on (threads (upd_thread t ?g ?u) t) = None \<and>
          \<not> armed (upd_thread t ?g ?u) t \<and> waitq (upd_thread t ?g ?u) (WqJoin t) = [])"
        using live by (simp add: unpend_eq [OF h(2)])
    qed (use live na in \<open>simp_all add: unpend_eq [OF h(2)]\<close>)
    have "t \<noteq> current s \<or> cache s = next_up s" using s(2) live(3) by (auto simp: cache_ok_def)
    with s(2) have "cache_ok ?u" by (auto simp: cache_ok_def unpend_eq [OF h(2)])
    then have "cache_ok s'" by (simp add: s' cache_ok_keeps)
    moreover have "waitq s' = (waitq s)(WqTimer m := ts)" by (simp add: s' unpend_eq [OF h(2)] Cons)
    moreover have "threads s' u = (if u = t then waked ?g (threads s u) else threads s u)" for u
      by (simp add: s' ready_threads unpend_eq [OF h(2)] waked_def)
    ultimately show ?thesis using i Cons by simp
  qed
  then show "sinv {} s'" "cache_ok s'" "waitq s' = (waitq s)(WqTimer m := tl (waitq s (WqTimer m)))"
    "threads s' u = (if waitq s (WqTimer m) \<noteq> [] \<and> u = hd (waitq s (WqTimer m))
       then waked ?g (threads s u) else threads s u)" by blast+
  show "tq s' = tq s" "objs s' = objs s" "curr_tick s' = curr_tick s" "announcing_cpu s' = announcing_cpu s"
    "announce_remaining s' = announce_remaining s" "in_isr s' = in_isr s" "tfn s' = tfn s"
    by (simp_all add: s'_def timer_wake_def split: option.split)
qed

section \<open>Steps of a clock interrupt\<close>

text \<open>
  The state in which the announce loop calls a handler, and how the handlers may change it: no new timeout is due at
  once, and a thread that waits has waited before, with the same timeout.
\<close>

definition tick_inv :: "kernel \<Rightarrow> bool" where
  "tick_inv s \<longleftrightarrow> sched_ok s \<and> in_isr s \<and> flags_ok s \<and> pend_ok s \<and> timers_ok s \<and> announcing_cpu s = CPU_ID \<and>
     curr_tick s < 2 ^ 62"

definition later :: "kernel \<Rightarrow> kernel \<Rightarrow> bool" where
  "later s s' \<longleftrightarrow> curr_tick s' = curr_tick s \<and> announce_remaining s' = announce_remaining s \<and>
     (\<forall>t. texp s' t = Some (curr_tick s) \<longrightarrow> texp s t = Some (curr_tick s)) \<and>
     (\<forall>t. waits (threads s' t) \<longrightarrow> waits (threads s t) \<and> texp s' (ThreadTimeout t) = texp s (ThreadTimeout t))"

text \<open>What the application's functions may do when the clock interrupt calls them.\<close>

definition callback_ok :: "(nat \<Rightarrow> nat \<Rightarrow> kernel \<Rightarrow> kernel) \<Rightarrow> bool" where
  "callback_ok user \<longleftrightarrow> (\<forall>f m s. tick_inv s \<longrightarrow> tick_inv (user f m s) \<and> later s (user f m s))"

definition leaves_timer :: "nat \<Rightarrow> (nat \<Rightarrow> nat \<Rightarrow> kernel \<Rightarrow> kernel) \<Rightarrow> bool" where
  "leaves_timer m user \<longleftrightarrow> (\<forall>f k s. tick_inv s \<longrightarrow>
     texp (user f k s) (TimerTimeout m) = texp s (TimerTimeout m) \<and> timer_of m (user f k s) = timer_of m s)"

lemma later_refl [simp]: "later s s"
  by (simp add: later_def)

lemma later_trans [trans]: "later s1 s2 \<Longrightarrow> later s2 s3 \<Longrightarrow> later s1 s3"
  unfolding later_def by auto

lemma tick_invD:
  assumes "tick_inv s"
  shows "sinv {} s" "cache_ok s" "in_isr s" "flags_ok s" "pend_ok s" "timers_ok s" "announcing_cpu s = 0" "curr_tick s < 2 ^ 62"
    "dl_inv (curr_tick s) (tq s)" "0 \<le> curr_tick s"
  using assms sinvD(12,13) unfolding tick_inv_def sched_ok_def by blast+

text \<open>Steps that only take threads off a timer's wait queue.\<close>

lemma tick_inv_wake:
  assumes s: "tick_inv s"
  shows "tick_inv (timer_wake m s)" "later s (timer_wake m s)"
proof -
  note i = tick_invD [OF s]
  let ?s = "timer_wake m s"
  note r = timer_wake_rule [OF i(1,2,6), of m]
  have w: "wait_diff (threads s u) (threads ?s u)" for u
    using wait_diff_retval [OF retval_diff_refl(1)] by (simp add: r(4) wait_diff_waked)
  have a: "armed ?s = armed s" "texp ?s = texp s" by (simp_all add: armed_def texp_def fun_eq_iff r(5,7))
  have "pended_on (threads ?s t) = Some v \<Longrightarrow> pended_on (threads s t) = Some v" for t v
    by (auto simp: r(4) waked_sel split: if_splits)
  then have "timers_ok ?s" using i(6) unfolding timers_ok_def a r(6,11) by blast
  then show "tick_inv ?s"
    unfolding tick_inv_def sched_ok_def using r(1,2,7,8,10) wait_diff_inv [OF w] i by simp
  have "waits (threads ?s t) \<Longrightarrow> waits (threads s t)" for t using w [of t] by (auto simp: wait_diff_def)
  then show "later s ?s" using r(7,9) by (auto simp: later_def a)
qed

text \<open>Steps that touch only the clock, the timeouts and the timers.\<close>

lemma tick_inv_clock:
  assumes s: "tick_inv s" and e: "threads s' = threads s" "runq s' = runq s" "waitq s' = waitq s" "idle_thread s' = idle_thread s"
      "dummy_thread s' = dummy_thread s" "cache s' = cache s" "current s' = current s" "in_isr s' = in_isr s"
      "announcing_cpu s' = announcing_cpu s"
    and c: "dl_inv (curr_tick s') (tq s')" "0 \<le> curr_tick s'" "curr_tick s' < 2 ^ 62"
    and a: "\<And>t. armed s' t \<Longrightarrow> armed s t" "\<And>t. tfn s' (ThreadTimeout t) = tfn s (ThreadTimeout t)"
    and t: "\<And>m. texp s' (TimerTimeout m) \<noteq> None \<Longrightarrow> tfn s' (TimerTimeout m) = Z_TIMER_EXPIRATION_HANDLER"
      "\<And>m. timer_period (timer_of m s') = timer_period (timer_of m s)"
  shows "tick_inv s'"
proof -
  note i = tick_invD [OF s]
  have "sinv {} s'" by (rule sinv_clock [OF i(1)]) (use e c a in auto)
  moreover have "cache_ok s'" using i(2) unfolding cache_ok_def next_up_eq e .
  moreover have "timers_ok s'" using i(6) a(1) t unfolding timers_ok_def e(1) by metis
  moreover have "flags_ok s'" "pend_ok s'" using i(4,5) by (simp_all add: flags_ok_def pend_ok_def e)
  ultimately show ?thesis using i(3,7) c(3) e by (simp add: tick_inv_def sched_ok_def)
qed

lemma texp_sel [simp]:
  "texp (s\<lparr>inflight_timeout := i\<rparr>) = texp s" "texp (s\<lparr>announce_remaining := r\<rparr>) = texp s"
  "texp (s\<lparr>announcing_cpu := k\<rparr>) = texp s" "texp (s\<lparr>in_isr := b\<rparr>) = texp s"
  by (simp_all add: texp_def fun_eq_iff)

text \<open>The loop takes a due timeout off the queue before it calls the handler.\<close>

lemma tick_inv_pop:
  assumes s: "tick_inv s" and pop: "q_pop_due dlist_ops (curr_tick s) (tq s) = Some (t, q)"
  defines "s' \<equiv> s\<lparr>tq := q, inflight_timeout := Some (t, False)\<rparr>"
  shows "tick_inv s'" "texp s' = (texp s)(t := None)" "texp s t = Some (curr_tick s)"
proof -
  note i = tick_invD [OF s]
  note p = dlt.pop_some [OF i(9) pop]
  show e: "texp s' = (texp s)(t := None)" "texp s t = Some (curr_tick s)"
    using p by (simp_all add: s'_def texp_def fun_eq_iff)
  have a: "armed s' u \<longleftrightarrow> armed s u \<and> ThreadTimeout u \<noteq> t" for u by (simp add: armed_texp e)
  show "tick_inv s'"
    by (rule tick_inv_clock [OF s]) (use p i a e in \<open>auto simp: s'_def timers_ok_def split: if_splits\<close>)
qed

lemma timer_status_period [simp]:
  "expiry_fn (x\<lparr>timer_status := v\<rparr>) = expiry_fn x" "timer_period (x\<lparr>timer_status := v\<rparr>) = timer_period x"
  by simp_all

lemma timer_expiry_rule:
  assumes s: "tick_inv s" and t: "texp s (TimerTimeout m) = None" and n: "inflight_timeout s = Some (TimerTimeout m, False)"
    and u: "callback_ok user"
  defines "s' \<equiv> z_timer_expiration_handler user m s"
  shows "tick_inv s'" "later s s'"
    "leaves_timer k user \<Longrightarrow> timer_of k s' = (if k = m then (timer_of m s)\<lparr>timer_status := u32 (timer_status (timer_of m s) + 1)\<rparr> else timer_of k s)"
    "leaves_timer k user \<Longrightarrow> texp s' (TimerTimeout k) = (if k = m then next_period m s else texp s (TimerTimeout k))"
proof -
  note i = tick_invD [OF s]
  let ?f = "\<lambda>x. x\<lparr>timer_status := u32 (timer_status x + 1)\<rparr> :: k_timer"
  define s2 where "s2 = upd_timer m ?f (timer_restart m s)"
  define s3 where "s3 = (case expiry_fn (timer_of m s2) of None \<Rightarrow> s2 | Some f \<Rightarrow> user f m s2)"
  note r = restart_rule [OF i(9) t i(7,10,8,6)]
  have e2: "texp s2 = (texp s)(TimerTimeout m := next_period m s)" by (simp add: s2_def r(2))
  have p: "timer_period (timer_of k s) \<ge> - 1" for k using i(6) by (simp add: timers_ok_def)
  have "tick_inv s2"
    by (rule tick_inv_clock [OF s])
      (use r i e2 in \<open>auto simp: s2_def armed_texp timers_ok_def split: if_splits\<close>)
  moreover have "later s s2"
    using p [of m] by (auto simp: later_def e2, auto simp: s2_def)
  ultimately have s3: "tick_inv s3" "later s s3"
    using u later_trans by (auto simp: s3_def callback_ok_def split: option.split)
  have "z_is_inactive_timeout (TimerTimeout m) s"
    using t dlt.exp_inactive [OF i(9)] by (simp add: z_is_inactive_timeout_def texp_def domIff del: dl_expiry_dom)
  then have s': "s' = timer_wake m s3"
    using n unfolding s'_def z_timer_expiration_handler_def Let_def s2_def [symmetric] s3_def [symmetric]
    by (simp add: z_timeout_inflight_superseded_def)
  show "tick_inv s'" "later s s'"
    unfolding s' using tick_inv_wake [OF s3(1)] later_trans [OF s3(2)] by blast+
  note w = timer_wake_rule [OF tick_invD(1,2,6) [OF s3(1)], of m]
  have "timer_of k s3 = timer_of k s2 \<and> texp s3 (TimerTimeout k) = texp s2 (TimerTimeout k)" if "leaves_timer k user"
    using that \<open>tick_inv s2\<close> by (auto simp: leaves_timer_def s3_def split: option.split)
  then show "leaves_timer k user \<Longrightarrow> timer_of k s' = (if k = m then ?f (timer_of m s) else timer_of k s)"
    "leaves_timer k user \<Longrightarrow> texp s' (TimerTimeout k) = (if k = m then next_period m s else texp s (TimerTimeout k))"
    using w(5-7) by (simp_all add: s' texp_def [of "timer_wake m s3"] texp_def [of s3, symmetric] e2, simp_all add: s2_def)
qed

text \<open>On one processor no handler is ever in flight elsewhere, so the clean-up does not have to wait for one.\<close>

lemma timer_cleanup_returns:
  "z_timer_cleanup m locked s = Some (if waitq s (WqTimer m) = []
     then (0, snd (z_try_abort_timeout dlist_ops (TimerTimeout m) s)) else (- EAGAIN, s))"
proof -
  have "fst (z_try_abort_timeout dlist_ops (TimerTimeout m) s) \<noteq> - EAGAIN"
    by (simp add: z_try_abort_timeout_def Let_def case_prod_unfold EAGAIN_def EINVAL_def)
  then show ?thesis
    by (subst z_timer_cleanup.simps)
      (simp add: case_prod_unfold Let_def z_waitq_head_def z_priq_simple_best_def split: list.split)
qed

end
