(* ===== verification/Tick.thy ===== *)
theory Tick
  imports Timer Sem
begin

text \<open>
  The clock interrupt of the whole kernel: the announce loop of \<^verbatim>\<open>kernel/timeout.c\<close> with the handlers the kernel
  registers, \<^verbatim>\<open>z_thread_timeout\<close> of \<^verbatim>\<open>kernel/sched.c\<close> and \<^verbatim>\<open>z_timer_expiration_handler\<close> of
  \<^verbatim>\<open>kernel/timer.c\<close>.  The loop is proved once, in the locale \<open>timeout_q\<close>; here its handlers are the kernel's, so that
  what the loop promises becomes what threads and timers observe.
\<close>

section \<open>The interrupt\<close>

text \<open>
  The call \<^verbatim>\<open>handler(t)\<close> of the loop.  A handler recovers the object its timeout is embedded in; the other
  combinations do not arise.
\<close>

definition kernel_timeout :: "(nat \<Rightarrow> nat \<Rightarrow> kernel \<Rightarrow> kernel) \<Rightarrow> timeout_id \<Rightarrow> timeout_func \<Rightarrow> kernel \<Rightarrow> kernel" where
  "kernel_timeout user t fn s =
     (case (t, fn) of
        (ThreadTimeout thread, Z_THREAD_TIMEOUT) \<Rightarrow> z_thread_timeout thread s
      | (TimerTimeout timer, Z_TIMER_EXPIRATION_HANDLER) \<Rightarrow> z_timer_expiration_handler user timer s
      | _ \<Rightarrow> s)"

definition sys_clock_announce :: "(nat \<Rightarrow> nat \<Rightarrow> kernel \<Rightarrow> kernel) \<Rightarrow> int \<Rightarrow> kernel \<Rightarrow> kernel option" where
  "sys_clock_announce user ticks s = sys_clock_announce_locked dlist_ops (kernel_timeout user) ticks s"

section \<open>One turn of the loop\<close>

text \<open>The state after the handler of the timeout \<open>t\<close>, which the loop took off the queue.\<close>

abbreviation fired :: "(nat \<Rightarrow> nat \<Rightarrow> kernel \<Rightarrow> kernel) \<Rightarrow> timeout_id \<Rightarrow> timeout_id dlq \<Rightarrow> kernel \<Rightarrow> kernel" where
  "fired user t q s \<equiv> (kernel_timeout user t (tfn s t) (s\<lparr>tq := q, inflight_timeout := Some (t, False)\<rparr>))\<lparr>inflight_timeout := None\<rparr>"

text \<open>The waits of threads after a step that had \<open>t\<close> expire.\<close>

definition waits_kept :: "kernel \<Rightarrow> kernel \<Rightarrow> bool" where
  "waits_kept s s' \<longleftrightarrow> (\<forall>u. waits (threads s' u) \<longrightarrow>
     waits (threads s u) \<and> texp s' (ThreadTimeout u) = texp s (ThreadTimeout u))"

lemma tick_inv_inflight [simp]: "tick_inv (s\<lparr>inflight_timeout := i\<rparr>) = tick_inv s"
  by (simp add: tick_inv_def sched_ok_def cache_ok_def flags_ok_def pend_ok_def timers_ok_def)

lemma thread_fired_rule:
  assumes s: "tick_inv s" and pop: "q_pop_due dlist_ops (curr_tick s) (tq s) = Some (ThreadTimeout t, q)"
  defines "s1 \<equiv> s\<lparr>tq := q, inflight_timeout := Some (ThreadTimeout t, False)\<rparr>"
  defines "s' \<equiv> z_thread_timeout t s1"
  shows "tick_inv s'" "waits_kept s s'" "texp s' = texp s1" "objs s' = objs s" "\<not> waits (threads s' t)"
proof -
  note p = tick_inv_pop [OF s pop, folded s1_def]
  note i = tick_invD [OF s] and i1 = tick_invD [OF p(1)]
  have a: "armed s t" "\<not> armed s1 t" using p by (simp_all add: armed_texp)
  have t: "waits (threads s1 t)" "t \<noteq> idle_thread s1" "\<not> z_is_thread_dead (threads s1 t)" "\<not> z_is_thread_aborting (threads s1 t)"
    using sinvD(21) [OF i(1) a(1)] sinvD(3) [OF i(1)] sinvD(14) [OF i(1)] sinvD(15) [OF i(1), of t] a(1) i(4)
    by (auto simp: s1_def flags_ok_def)
  have ns: "\<not> z_timeout_inflight_superseded (ThreadTimeout t) s1" by (simp add: s1_def z_timeout_inflight_superseded_def)
  note r = thread_timeout_rule [OF i1(1,2) t(1) a(2) t(2-4) ns, folded s'_def]
  have f: "frame s1 s'" unfolding s'_def by (rule frame_thread_timeout)
  have e: "tq s' = tq s1" "curr_tick s' = curr_tick s1" "objs s' = objs s1" "tfn s' = tfn s1" "in_isr s' = in_isr s1"
      "announcing_cpu s' = announcing_cpu s1"
    by (simp_all add: s'_def z_thread_timeout_def)
  show x: "texp s' = texp s1" by (simp add: texp_def fun_eq_iff e)
  then have ar: "armed s' = armed s1" by (simp add: fun_eq_iff armed_texp)
  have pe: "pended_on (threads s' u) = Some v \<Longrightarrow> pended_on (threads s1 u) = Some v" for u v
    using r(3,8) by (cases "u = t") auto
  have "timers_ok s'" using i1(6) pe unfolding timers_ok_def x ar e by blast
  then show "tick_inv s'"
    using r(1,2) frame_inv(2,3) [OF f] i1 e by (simp add: tick_inv_def sched_ok_def)
  show nw: "\<not> waits (threads s' t)"
  proof (cases "pended_on (threads s1 t)")
    case None
    then have "\<not> z_is_thread_pending (threads s1 t)" using i1(5) by (auto simp: pend_ok_def)
    moreover have "z_is_thread_pending (threads s' t) \<Longrightarrow> z_is_thread_pending (threads s1 t)"
      using f by (simp add: frame_def th_frame_def)
    ultimately show ?thesis using r(5) by blast
  next
    case (Some w)
    with r(5,6) show ?thesis by simp
  qed
  have "waits (threads s u) \<and> texp s' (ThreadTimeout u) = texp s (ThreadTimeout u)" if w: "waits (threads s' u)" for u
  proof -
    have "u \<noteq> t" using w nw by auto
    then have "threads s' u = threads s u" "texp s' (ThreadTimeout u) = texp s (ThreadTimeout u)"
      using r(3) p(2) by (simp_all add: x, simp add: s1_def)
    with w show ?thesis by simp
  qed
  then show "waits_kept s s'" unfolding waits_kept_def by blast
  show "objs s' = objs s" by (simp add: e s1_def)
qed

text \<open>Whatever expires, the handler keeps the kernel's invariants and adds nothing that is due at once.\<close>

lemma fired_rule:
  assumes s: "tick_inv s" and pop: "q_pop_due dlist_ops (curr_tick s) (tq s) = Some (t, q)" and u: "callback_ok user"
  defines "s' \<equiv> fired user t q s"
  shows "tick_inv s'" "curr_tick s' = curr_tick s" "announce_remaining s' = announce_remaining s" "waits_kept s s'"
    "texp s' x = Some (curr_tick s) \<Longrightarrow> texp s x = Some (curr_tick s) \<and> x \<noteq> t"
proof -
  let ?s = "s\<lparr>tq := q, inflight_timeout := Some (t, False)\<rparr>"
  note p = tick_inv_pop [OF s pop]
  define z where "z = kernel_timeout user t (tfn s t) ?s"
  have n: "tfn s (ThreadTimeout k) = Z_THREAD_TIMEOUT" if "t = ThreadTimeout k" for k
    using p(3) that tick_invD(1) [OF s] by (auto simp: inv_defs armed_texp)
  have "tick_inv z \<and> curr_tick z = curr_tick s \<and> announce_remaining z = announce_remaining s \<and> waits_kept s z \<and>
    (\<forall>x. texp z x = Some (curr_tick s) \<longrightarrow> texp s x = Some (curr_tick s) \<and> x \<noteq> t)"
  proof (cases t)
    case (ThreadTimeout k)
    note r = thread_fired_rule [OF s pop [unfolded ThreadTimeout]]
    have "z = z_thread_timeout k (s\<lparr>tq := q, inflight_timeout := Some (ThreadTimeout k, False)\<rparr>)"
      by (simp add: z_def kernel_timeout_def ThreadTimeout n)
    moreover from this have "curr_tick z = curr_tick s" "announce_remaining z = announce_remaining s"
      by (simp_all add: z_thread_timeout_def)
    ultimately show ?thesis using r(1-3) p(2) by (simp add: ThreadTimeout)
  next
    case (TimerTimeout m)
    have "tfn s (TimerTimeout m) = Z_TIMER_EXPIRATION_HANDLER" using p(3) tick_invD(6) [OF s] by (simp add: timers_ok_def TimerTimeout)
    then have z: "z = z_timer_expiration_handler user m ?s" by (simp add: z_def kernel_timeout_def TimerTimeout)
    have "texp ?s (TimerTimeout m) = None" "inflight_timeout ?s = Some (TimerTimeout m, False)" using p(2) TimerTimeout by simp_all
    note r = timer_expiry_rule(1,2) [OF p(1) this u, folded z]
    then show ?thesis using p(2) by (auto simp: later_def waits_kept_def TimerTimeout split: if_splits)
  next
    case (WorkTimeout k)
    then have "z = ?s" by (simp add: z_def kernel_timeout_def)
    with p(1,2) show ?thesis by (auto simp: waits_kept_def WorkTimeout split: if_splits)
  qed
  then show "tick_inv s'" "curr_tick s' = curr_tick s" "announce_remaining s' = announce_remaining s" "waits_kept s s'"
    "texp s' x = Some (curr_tick s) \<Longrightarrow> texp s x = Some (curr_tick s) \<and> x \<noteq> t"
    by (simp_all add: s'_def z_def waits_kept_def)
qed

section \<open>The loop\<close>

lemma tick_inv_advance:
  fixes r :: int
  assumes s: "tick_inv s" and nd: "curr_tick s \<notin> ran (texp s)" and dt: "0 < dt" "curr_tick s + dt < 2 ^ 62"
    and e: "\<forall>e\<in>ran (texp s). curr_tick s + dt \<le> e"
  defines "s' \<equiv> s\<lparr>tq := q_advance dlist_ops (curr_tick s) dt (tq s), curr_tick := curr_tick s + dt, announce_remaining := r\<rparr>"
  shows "tick_inv s'" "texp s' = texp s"
proof -
  note i = tick_invD [OF s]
  have x: "dl_expiry (curr_tick s) (tq s) = texp s" by (simp add: texp_def fun_eq_iff)
  have b: "curr_tick s + dt < 2 ^ 63" using dt by simp
  note a = dlt.advance_inv [OF i(9), unfolded x, OF nd dt(1) b e]
  show t: "texp s' = texp s" using a by (simp add: s'_def texp_def fun_eq_iff)
  show "tick_inv s'"
    by (rule tick_inv_clock [OF s]) (use a i dt t in \<open>simp_all add: s'_def armed_texp timers_ok_def\<close>)
qed

text \<open>
  An announcement of \<open>n\<close> ticks returns.  A property the handlers keep, and that does not mind time passing without a
  timeout, holds in the end.
\<close>

lemma kernel_announce_rule:
  assumes u: "callback_ok user" and s: "tick_inv (s\<lparr>announcing_cpu := CPU_ID\<rparr>)" and nd: "curr_tick s \<notin> ran (texp s)"
    and n: "0 \<le> n" "n < 2 ^ 32" "curr_tick s + n < 2 ^ 62"
    and R: "R (s\<lparr>announce_remaining := n, announcing_cpu := CPU_ID\<rparr>)"
      "\<And>s t q. tick_inv s \<Longrightarrow> R s \<Longrightarrow> q_pop_due dlist_ops (curr_tick s) (tq s) = Some (t, q) \<Longrightarrow> R (fired user t q s)"
      "\<And>s s'. tick_inv s \<Longrightarrow> R s \<Longrightarrow> threads s' = threads s \<Longrightarrow> objs s' = objs s \<Longrightarrow> texp s' = texp s \<Longrightarrow>
         curr_tick s < curr_tick s' \<Longrightarrow> R s'"
  shows "\<exists>s1. sys_clock_announce user n s = Some (reprogram_next dlist_ops 0 (s1\<lparr>announcing_cpu := - 1\<rparr>)) \<and>
    tick_inv s1 \<and> R s1 \<and> curr_tick s1 = curr_tick s + n \<and> curr_tick s1 \<notin> ran (texp s1)"
proof -
  let ?P = "\<lambda>s. tick_inv s \<and> R s" and ?s = "s\<lparr>announce_remaining := n, announcing_cpu := CPU_ID\<rparr>"
  have x: "dl_expiry (curr_tick s) (tq s) = texp s" for s :: kernel by (simp add: texp_def fun_eq_iff)
  have s1: "tick_inv ?s"
    using tick_inv_clock [OF s, of ?s] tick_invD [OF s] by (simp add: armed_texp timers_ok_def)
  note i = tick_invD [OF s1]
  have H: "handler_ok dlist_ops dl_inv dl_expiry ?P (kernel_timeout user)"
    unfolding handler_ok_def Let_def
  proof (intro allI impI, elim conjE, goal_cases)
    case (1 s t q)
    note f = fired_rule [OF 1(1,4) u]
    have y: "dl_expiry (curr_tick s) q x = texp (s\<lparr>tq := q, inflight_timeout := Some (t, False)\<rparr>) x" for x
      by (simp add: texp_def)
    have z: "dl_expiry (curr_tick s) (tq (fired user t q s)) x = texp (fired user t q s) x" for x
      using f(2) by (simp add: texp_def)
    have "\<forall>x. dl_expiry (curr_tick s) (tq (fired user t q s)) x = Some (curr_tick s) \<longrightarrow>
        dl_expiry (curr_tick s) q x = Some (curr_tick s)"
      unfolding y z tick_inv_pop(2) [OF 1(1,4)] using f(5) by simp
    with f(1-3) R(2) [OF 1(1,2,4)] tick_invD(9) [OF f(1)] show ?case by blast
  qed
  have "advance_ok dlist_ops dl_inv dl_expiry (curr_tick s + n) ?P"
    unfolding advance_ok_def x
  proof (intro allI impI, goal_cases)
    case (1 s' dt r)
    then have h: "tick_inv s'" "R s'" "curr_tick s' \<notin> ran (texp s')" "0 < dt" "curr_tick s' + dt < 2 ^ 62"
      "\<forall>e\<in>ran (texp s'). curr_tick s' + dt \<le> e" using n(3) by auto
    note a = tick_inv_advance [OF h(1,3-6)]
    show ?case using a R(3) [OF h(1,2)] h(4) by simp
  qed
  from dlt.announce_rule [OF H this, of ?s] s1 R(1) i(9,10) nd n obtain s1 where
    "announce_loop dlist_ops (kernel_timeout user) ?s = Some s1" "tick_inv s1" "R s1" "curr_tick s1 = curr_tick s + n"
    "curr_tick s1 \<notin> ran (texp s1)" by (auto simp: x)
  then show ?thesis by (auto simp: sys_clock_announce_def sys_clock_announce_locked_def)
qed

section \<open>Callbacks that wake threads\<close>

lemma texp_abort:
  fixes s :: "'o kstate"
  assumes "dl_inv (curr_tick s) (tq s)"
  shows "texp (snd (z_try_abort_timeout dlist_ops x s)) = (texp s)(x := None)"
    "dl_inv (curr_tick s) (tq (snd (z_try_abort_timeout dlist_ops x s)))"
proof -
  have "texp (snd (z_try_abort_timeout dlist_ops x s)) = (texp s)(x := None) \<and>
    dl_inv (curr_tick s) (tq (snd (z_try_abort_timeout dlist_ops x s)))"
  proof (cases "texp s x")
    case None
    then have "x \<notin> dom (dl_expiry (curr_tick s) (tq s))" by (simp add: texp_def domIff del: dl_expiry_dom)
    from dlt.abort_inactive(2) [OF assms this] None assms show ?thesis by (simp add: texp_def fun_eq_iff)
  next
    case (Some e)
    then have "dl_expiry (curr_tick s) (tq s) x = Some e" by (simp add: texp_def)
    from dlt.abort_active(2,3) [OF assms this] show ?thesis by (simp add: texp_def fun_eq_iff)
  qed
  then show "texp (snd (z_try_abort_timeout dlist_ops x s)) = (texp s)(x := None)"
    "dl_inv (curr_tick s) (tq (snd (z_try_abort_timeout dlist_ops x s)))" by blast+
qed

lemma wake_turn_texp:
  assumes s: "sinv X s" and p: "pended_on (threads s t) = Some w"
  shows "texp (wake_turn g t s) = (texp s)(ThreadTimeout t := None)"
proof -
  let ?u = "unpend_thread_no_timeout t s"
  have "dl_inv (curr_tick ?u) (tq ?u)" using sinvD(12) [OF sinv_unpend [OF s p]] .
  from texp_abort(1) [OF this] show ?thesis
    by (simp add: wake_turn_def z_try_abort_thread_timeout_def texp_def fun_eq_iff)
qed

text \<open>A function that gives the semaphore with the number of its timer.\<close>

definition give_sem :: "nat \<Rightarrow> nat \<Rightarrow> kernel \<Rightarrow> kernel" where
  "give_sem f m s = k_sem_give m s"

lemma tick_inv_turn:
  assumes s: "tick_inv s" and w: "waitq s w = t # ts" and g: "keeps_locks g"
  shows "tick_inv (wake_turn g t s)" "later s (wake_turn g t s)"
proof -
  note i = tick_invD [OF s]
  let ?s = "wake_turn g t s"
  have so: "sched_ok s" using s by (simp add: tick_inv_def)
  have k: "keeps_state g" using g by (simp add: keeps_locks_def)
  have p: "pended_on (threads s t) = Some w" by (rule waitq_head_pended(2) [OF i(1) w])
  have rs: "reschedule ?s = ?s" using i(3) by (simp add: reschedule_def resched_def)
  note o = obj_step_hand [OF so w g, unfolded rs, unfolded obj_step_def] and r = wake_resched_rule [OF so w k, unfolded rs]
  have pe: "pended_on (threads ?s u) = Some v \<Longrightarrow> pended_on (threads s u) = Some v" for u v
    using r(9) retval_diff_sel(5) [OF r(11) [of u]] waked_sel(1) [OF k] by (cases "u = t") auto
  have te: "texp ?s = (texp s)(ThreadTimeout t := None)" by (rule wake_turn_texp [OF i(1) p])
  have "timers_ok ?s" using i(6) pe r(7) unfolding timers_ok_def te by simp
  then show "tick_inv ?s" using o i by (simp add: tick_inv_def)
  have nw: "\<not> waits (threads ?s t)"
    using r(9) waked_sel(3) [OF k] i(4) p by (auto simp: flags_ok_def waked_def keeps_stateD [OF k])
  have "waits (threads s u) \<and> texp ?s (ThreadTimeout u) = texp s (ThreadTimeout u)" if "waits (threads ?s u)" for u
  proof -
    have ut: "u \<noteq> t" using nw that by auto
    then have e: "thread_state (threads ?s u) = thread_state (threads s u)" using retval_diff_sel(3) [OF r(11)] by blast
    from that ut show ?thesis unfolding thread_state_tests_cong(3,5) [OF e] by (simp add: te)
  qed
  then show "later s ?s" by (auto simp: later_def te split: if_splits)
qed

lemma give_sem_ok: "callback_ok give_sem" "leaves_timer m give_sem"
proof -
  have "tick_inv (k_sem_give m s) \<and> later s (k_sem_give m s) \<and> timers (objs (k_sem_give m s)) = timers (objs s) \<and>
      (\<forall>k. texp (k_sem_give m s) (TimerTimeout k) = texp s (TimerTimeout k))" if s: "tick_inv s" for m s
  proof -
    note i = tick_invD [OF s]
    have so: "sched_ok s" using s by (simp add: tick_inv_def)
    show ?thesis
    proof (cases "waitq s (WqSem m)")
      case Nil
      let ?s = "upd_sem m (\<lambda>x. x\<lparr>sem_count := u32 (sem_count x + (if sem_count x \<noteq> sem_limit x then 1 else 0))\<rparr>) s"
      have e: "texp ?s = texp s" by (simp add: upd_sem_def texp_def fun_eq_iff)
      have "tick_inv ?s"
        by (rule tick_inv_clock [OF s]) (use i in \<open>simp_all add: armed_texp e timers_ok_def, simp_all add: upd_sem_def\<close>)
      moreover have "later s ?s" by (simp add: later_def e, simp add: upd_sem_def)
      ultimately show ?thesis using Nil e by (simp add: k_sem_give_cases [OF so])
    next
      case (Cons t ts)
      have rs: "reschedule (wake_turn g t s) = wake_turn g t s" for g using i(3) by (simp add: reschedule_def resched_def)
      from tick_inv_turn [OF s Cons keeps_locks_simps(1)] show ?thesis
        using Cons by (simp add: k_sem_give_cases [OF so] rs wake_turn_texp [OF i(1) waitq_head_pended(2) [OF i(1) Cons]])
    qed
  qed
  then show "callback_ok give_sem" "leaves_timer m give_sem"
    unfolding callback_ok_def leaves_timer_def give_sem_def by simp_all
qed

section \<open>Between the interrupts\<close>

text \<open>Outside the announce loop nothing is due.\<close>

definition kernel_ok :: "kernel \<Rightarrow> bool" where
  "kernel_ok s \<longleftrightarrow> sched_ok s \<and> flags_ok s \<and> pend_ok s \<and> timers_ok s \<and> announcing_cpu s = - 1 \<and> curr_tick s \<notin> ran (texp s)"

lemma kernel_ok_tick:
  assumes "kernel_ok s" "in_isr s" "curr_tick s < 2 ^ 62"
  shows "tick_inv (s\<lparr>announcing_cpu := CPU_ID\<rparr>)"
proof -
  have a: "armed (s\<lparr>announcing_cpu := k\<rparr>) = armed s" for k by (simp add: armed_texp fun_eq_iff)
  have n: "next_up (s\<lparr>announcing_cpu := k\<rparr>) = next_up s" for k by (simp add: next_up_def runq_best_def split: option.split)
  have "sinv {} (s\<lparr>announcing_cpu := CPU_ID\<rparr>) = sinv {} s" by (rule sinv_cong) simp_all
  then show ?thesis using assms
    by (simp add: kernel_ok_def tick_inv_def sched_ok_def cache_ok_def n flags_ok_def pend_ok_def timers_ok_def a)
qed

lemma tick_kernel_ok:
  assumes s: "tick_inv s" and nd: "curr_tick s \<notin> ran (texp s)"
  defines "s' \<equiv> reprogram_next dlist_ops 0 (s\<lparr>announcing_cpu := - 1\<rparr>)"
  shows "kernel_ok s'" "in_isr s'" "threads s' = threads s" "runq s' = runq s" "objs s' = objs s" "texp s' = texp s"
    "curr_tick s' = curr_tick s" "current s' = current s" "waitq s' = waitq s"
proof -
  note i = tick_invD [OF s]
  have "tstate.more s' = tstate.more s" by (simp add: s'_def)
  note f = kframe [OF this]
  have e: "tq s' = tq s" "curr_tick s' = curr_tick s" "tfn s' = tfn s" "announcing_cpu s' = - 1" by (simp_all add: s'_def)
  show t: "texp s' = texp s" by (simp add: texp_def fun_eq_iff e)
  then have a: "armed s' = armed s" by (simp add: armed_texp fun_eq_iff)
  have "sinv {} s'" using i(1) sinv_cong [of s' s] f e by auto
  moreover have "cache_ok s'" using i(2) unfolding cache_ok_def next_up_eq f .
  ultimately show "kernel_ok s'"
    using i(3-6) nd unfolding kernel_ok_def sched_ok_def flags_ok_def pend_ok_def timers_ok_def t a f e by blast
  show "in_isr s'" "threads s' = threads s" "runq s' = runq s" "objs s' = objs s" "curr_tick s' = curr_tick s"
    "current s' = current s" "waitq s' = waitq s"
    using f e i(3) by simp_all
qed

lemma kernel_ok_clock:
  assumes s: "kernel_ok s" and e: "tstate.more s' = tstate.more (s\<lparr>objs := ob\<rparr>)" "announcing_cpu s' = announcing_cpu s"
      "curr_tick s' = curr_tick s"
    and c: "dl_inv (curr_tick s) (tq s')" "curr_tick s \<notin> ran (texp s')"
    and a: "\<And>t. armed s' t \<Longrightarrow> armed s t" "\<And>t. tfn s' (ThreadTimeout t) = tfn s (ThreadTimeout t)"
    and t: "\<And>m. texp s' (TimerTimeout m) \<noteq> None \<Longrightarrow> tfn s' (TimerTimeout m) = Z_TIMER_EXPIRATION_HANDLER"
      "\<And>m. - 1 \<le> timer_period (timers ob m) \<and> timer_period (timers ob m) < 2 ^ 62"
  shows "kernel_ok s'"
proof -
  have f: "threads s' = threads s" "runq s' = runq s" "cache s' = cache s" "current s' = current s" "idle_thread s' = idle_thread s"
    "dummy_thread s' = dummy_thread s" "waitq s' = waitq s" "in_isr s' = in_isr s" "objs s' = ob"
    using kframe [OF e(1)] by simp_all
  have k: "sinv {} s" "cache_ok s" "\<not> in_isr s \<Longrightarrow> RDY s (current s)" "flags_ok s" "pend_ok s" "timers_ok s"
    "announcing_cpu s = - 1" using s by (simp_all add: kernel_ok_def sched_ok_def)
  have "sinv {} s'" by (rule sinv_clock [OF k(1)]) (use f c a e sinvD(13) [OF k(1)] in simp_all)
  moreover have "cache_ok s'" using k(2) unfolding cache_ok_def next_up_eq f .
  moreover have "timers_ok s'" using k(6) a(1) t unfolding timers_ok_def f by blast
  moreover have "flags_ok s'" "pend_ok s'" using k(4,5) by (simp_all add: flags_ok_def pend_ok_def f)
  ultimately show ?thesis using k(3,7) c(2) e(2,3) f by (simp add: kernel_ok_def sched_ok_def)
qed

lemma more_objs:
  fixes a b :: "'o kstate"
  shows "tstate.more a = tstate.more b \<Longrightarrow> tstate.more (a\<lparr>objs := ob\<rparr>) = tstate.more (b\<lparr>objs := ob\<rparr>)"
  by (cases a; cases b) simp

lemma timer_start_rule:
  fixes m :: nat
  assumes s: "kernel_ok s" and d: "0 \<le> d" "curr_tick s + d + elapsed s + 1 < 2 ^ 63" and p: "- 1 \<le> p" "p < 2 ^ 62"
  defines "s' \<equiv> k_timer_start m d p s"
  shows "kernel_ok s'" "texp s' = (texp s)(TimerTimeout m \<mapsto> curr_tick s + d + elapsed s + 1)"
    "objs s' = (objs s)\<lparr>timers := (timers (objs s))(m := (timer_of m s)\<lparr>timer_period := p, timer_status := 0\<rparr>)\<rparr>"
    "tstate.more s' = tstate.more (s\<lparr>objs := objs s'\<rparr>)" "curr_tick s' = curr_tick s"
proof -
  let ?T = "TimerTimeout m"
  have i: "dl_inv (curr_tick s) (tq s)" "0 \<le> curr_tick s" "timers_ok s" "curr_tick s \<notin> ran (texp s)" "announcing_cpu s = - 1"
    using s sinvD(12,13) by (auto simp: kernel_ok_def sched_ok_def)
  define s1 where "s1 = upd_timer m (\<lambda>x. x\<lparr>timer_period := p, timer_status := 0\<rparr>) (snd (z_try_abort_timeout dlist_ops ?T s))"
  have s': "s' = snd (z_add_timeout dlist_ops ?T Z_TIMER_EXPIRATION_HANDLER d s1)"
    using d(1) by (simp add: s'_def k_timer_start_def s1_def)
  note a = texp_abort [OF i(1), of ?T]
  have mo: "tstate.more (snd (z_try_abort_timeout dlist_ops ?T s)) = tstate.more s" by simp
  note f = kframe [OF mo]
  have e1: "elapsed s1 = elapsed s" "curr_tick s1 = curr_tick s" "announcing_cpu s1 = announcing_cpu s" "tfn s1 = tfn s"
    by (simp_all add: s1_def elapsed_def this_cpu_announcing_def)
  have t1: "texp s1 = (texp s)(?T := None)" "dl_inv (curr_tick s1) (tq s1)" using a by (simp_all add: s1_def)
  have nt: "?T \<notin> dom (dl_expiry (curr_tick s1) (tq s1))" using t1(1) by (simp add: texp_def fun_eq_iff domIff del: dl_expiry_dom)
  have rel: "dlt.rel_expiry d s1 = curr_tick s + d + elapsed s + 1"
    using i(5) by (simp add: dlt.rel_expiry_def e1 this_cpu_announcing_def)
  have x: "dl_inv (curr_tick s) (tq s')" "texp s' = (texp s1)(?T \<mapsto> curr_tick s + d + elapsed s + 1)"
    using dlt.add_relative(2,3) [OF t1(2) nt _ d(1)] rel d(2) i(2) e1(2)
    by (simp_all add: s' texp_def fun_eq_iff)
  then show te: "texp s' = (texp s)(?T \<mapsto> curr_tick s + d + elapsed s + 1)" by (simp add: t1)
  have m1: "tstate.more s' = tstate.more s1" by (simp add: s')
  show ob: "objs s' = (objs s)\<lparr>timers := (timers (objs s))(m := (timer_of m s)\<lparr>timer_period := p, timer_status := 0\<rparr>)\<rparr>"
    using kframe(11) [OF m1] f by (simp add: s1_def upd_timer_def)
  have "tstate.more s1 = tstate.more (s\<lparr>objs := objs s1\<rparr>)"
    unfolding s1_def upd_timer_def upd_objs_def using more_objs [OF mo] by simp
  then show mo': "tstate.more s' = tstate.more (s\<lparr>objs := objs s'\<rparr>)" using m1 kframe(11) [OF m1] by simp
  show ct: "curr_tick s' = curr_tick s" by (simp add: s' e1)
  have tf: "tfn s' = (tfn s)(?T := Z_TIMER_EXPIRATION_HANDLER)" using d(1) by (simp add: s' add_timeout_tfn e1)
  show "kernel_ok s'"
  proof (rule kernel_ok_clock [OF s mo' _ ct x(1)])
    have "curr_tick s \<noteq> curr_tick s + d + elapsed s + 1" using d(1) elapsed_nonneg [of s] by linarith
    then show "curr_tick s \<notin> ran (texp s')" using i(4) unfolding te ran_def by (auto split: if_splits)
    show "armed s' t \<Longrightarrow> armed s t" for t by (simp add: armed_texp te)
    show "texp s' (TimerTimeout k) \<noteq> None \<Longrightarrow> tfn s' (TimerTimeout k) = Z_TIMER_EXPIRATION_HANDLER" for k
      using i(3) by (auto simp: te tf timers_ok_def split: if_splits)
    show "- 1 \<le> timer_period (timers (objs s') k) \<and> timer_period (timers (objs s') k) < 2 ^ 62" for k
      using i(3) p by (simp add: ob timers_ok_def)
  qed (simp_all add: tf, simp add: s' e1)
qed

text \<open>What a clock interrupt does to one timer.\<close>

lemma fired_timer_rule:
  assumes s: "tick_inv s" and pop: "q_pop_due dlist_ops (curr_tick s) (tq s) = Some (t, q)" and u: "callback_ok user" "leaves_timer k user"
  shows "timer_of k (fired user t q s) = (if t = TimerTimeout k
      then (timer_of k s)\<lparr>timer_status := u32 (timer_status (timer_of k s) + 1)\<rparr> else timer_of k s)"
    "texp (fired user t q s) (TimerTimeout k) = (if t = TimerTimeout k then next_period k s else texp s (TimerTimeout k))"
proof -
  let ?s = "s\<lparr>tq := q, inflight_timeout := Some (t, False)\<rparr>"
  note p = tick_inv_pop [OF s pop]
  have "timer_of k (fired user t q s) = (if t = TimerTimeout k
      then (timer_of k s)\<lparr>timer_status := u32 (timer_status (timer_of k s) + 1)\<rparr> else timer_of k s) \<and>
    texp (fired user t q s) (TimerTimeout k) = (if t = TimerTimeout k then next_period k s else texp s (TimerTimeout k))"
  proof (cases t)
    case (ThreadTimeout j)
    have "tfn s (ThreadTimeout j) = Z_THREAD_TIMEOUT"
      using p(3) ThreadTimeout tick_invD(1) [OF s] by (auto simp: inv_defs armed_texp)
    then show ?thesis using thread_fired_rule(3,4) [OF s pop [unfolded ThreadTimeout]] p(2)
      by (simp add: kernel_timeout_def ThreadTimeout)
  next
    case (TimerTimeout m)
    have "tfn s (TimerTimeout m) = Z_TIMER_EXPIRATION_HANDLER" using p(3) tick_invD(6) [OF s] by (simp add: timers_ok_def TimerTimeout)
    moreover have "texp ?s (TimerTimeout m) = None" "inflight_timeout ?s = Some (TimerTimeout m, False)" using p(2) TimerTimeout by simp_all
    note r = timer_expiry_rule(3,4) [OF p(1) this u(1,2)]
    ultimately show ?thesis using p(2) by (simp add: kernel_timeout_def TimerTimeout)
  next
    case (WorkTimeout j)
    then show ?thesis using p(2) by (simp add: kernel_timeout_def)
  qed
  then show "timer_of k (fired user t q s) = (if t = TimerTimeout k
      then (timer_of k s)\<lparr>timer_status := u32 (timer_status (timer_of k s) + 1)\<rparr> else timer_of k s)"
    "texp (fired user t q s) (TimerTimeout k) = (if t = TimerTimeout k then next_period k s else texp s (TimerTimeout k))" by blast+
qed

section \<open>Properties\<close>


text \<open>The main thread sleeps for three ticks; the semaphores are given by timers.\<close>

definition asleep :: kernel where
  "asleep = (snd (snd (k_sleep_ticks 3 app)))\<lparr>in_isr := True\<rparr>"

lemma asleep_ok: "kernel_ok asleep" "in_isr asleep" "curr_tick asleep = 0" "texp asleep (ThreadTimeout 2) = Some 4"
proof -
  let ?s = "snd (snd (k_sleep_ticks 3 app))"
  have q: "tq asleep = [(ThreadTimeout 2, 4)]" and c: "curr_tick asleep = 0" "announcing_cpu asleep = - 1" by code_simp+
  then show "curr_tick asleep = 0" "in_isr asleep" "texp asleep (ThreadTimeout 2) = Some 4"
    by (simp_all add: asleep_def texp_def dl_expiry_def)
  have "timeout_fits 3 app" by code_simp
  then have "sched_ok ?s" by (intro sched_ok_sleep(1)) (simp_all add: app_ok)
  then have so: "sched_ok asleep" unfolding asleep_def by (rule sched_ok_set_isr)
  have po: "pended_on (threads app u) = None" for u
    using app_flags(2) sinv_simps(6) [OF sched_okD(1) [OF app_ok], of u] by (cases "pended_on (threads app u)") auto
  have f: "frame app ?s" by (rule frame_sleep) (simp add: po)
  have fp: "flags_ok asleep" "pend_ok asleep"
    using frame_inv(2,3) [OF f] app_flags(1,2) by (simp_all add: asleep_def flags_ok_def pend_ok_def)
  have ob: "objs asleep = init_objs" using f by (simp add: asleep_def frame_def)
  have "pended_on (threads asleep u) = None" for u using f po [of u] by (simp add: asleep_def frame_def th_frame_def) metis
  then have "timers_ok asleep" using q by (simp add: timers_ok_def ob init_objs_def texp_def dl_expiry_def)
  moreover have "curr_tick asleep \<notin> ran (texp asleep)" using q c(1) by (auto simp: texp_def dl_expiry_def ran_def split: if_splits)
  ultimately show "kernel_ok asleep" using so fp c(2) by (simp add: kernel_ok_def)
qed


lemma kernel_ok_isr: "kernel_ok s \<Longrightarrow> kernel_ok (s\<lparr>in_isr := True\<rparr>)"
  using sched_ok_set_isr [of s] by (simp add: kernel_ok_def flags_ok_def pend_ok_def timers_ok_def)

text \<open>On the grid \<open>first + j * p\<close>, with \<open>j\<close> expiries behind.\<close>

definition on_grid :: "nat \<Rightarrow> int \<Rightarrow> int \<Rightarrow> int \<Rightarrow> kernel \<Rightarrow> bool" where
  "on_grid m first p j s \<longleftrightarrow> 0 \<le> j \<and> texp s (TimerTimeout m) = Some (first + j * p) \<and> timer_period (timer_of m s) = p \<and>
     timer_status (timer_of m s) = u32 j \<and> (j = 0 \<or> first + (j - 1) * p \<le> curr_tick s)"

lemma on_grid_fired:
  assumes u: "callback_ok user" "leaves_timer m user" and p: "0 < p"
    and h: "tick_inv s" "on_grid m first p j s" "q_pop_due dlist_ops (curr_tick s) (tq s) = Some (t, q)"
  shows "\<exists>j. on_grid m first p j (fired user t q s)"
proof -
  note ft = fired_timer_rule [OF h(1,3) u] and ct = fired_rule(2) [OF h(1,3) u(1)] and e = tick_inv_pop(3) [OF h(1,3)]
  note j = h(2) [unfolded on_grid_def]
  show ?thesis
  proof (cases "t = TimerTimeout m")
    case True
    with e j have "curr_tick s = first + j * p" by simp
    then have "on_grid m first p (j + 1) (fired user t q s)" using True ft ct j p
      by (simp add: on_grid_def u32_def algebra_simps mod_add_right_eq)
    then show ?thesis ..
  next
    case False
    then have "on_grid m first p j (fired user t q s)" using ft ct j by (simp add: on_grid_def)
    then show ?thesis ..
  qed
qed

lemma on_grid_announce:
  assumes s: "kernel_ok s" "in_isr s" and u: "callback_ok user" "leaves_timer m user" and p: "0 < p"
    and g: "on_grid m first p j s" and n: "0 \<le> n" "n < 2 ^ 32" "curr_tick s + n < 2 ^ 62"
  shows "\<exists>s' j. sys_clock_announce user n s = Some s' \<and> kernel_ok s' \<and> curr_tick s' = curr_tick s + n \<and> on_grid m first p j s'"
proof -
  let ?R = "\<lambda>s. \<exists>j. on_grid m first p j s"
  have c: "curr_tick s < 2 ^ 62" "curr_tick s \<notin> ran (texp s)" using n s(1) by (simp_all add: kernel_ok_def)
  have "\<exists>s1. sys_clock_announce user n s = Some (reprogram_next dlist_ops 0 (s1\<lparr>announcing_cpu := - 1\<rparr>)) \<and>
    tick_inv s1 \<and> ?R s1 \<and> curr_tick s1 = curr_tick s + n \<and> curr_tick s1 \<notin> ran (texp s1)"
  proof (rule kernel_announce_rule [OF u(1) kernel_ok_tick [OF s c(1)] c(2) n])
    show "?R (s\<lparr>announce_remaining := n, announcing_cpu := CPU_ID\<rparr>)" using g by (auto simp: on_grid_def)
  next
    fix s' s'' :: kernel
    assume "?R s'" "objs s'' = objs s'" "texp s'' = texp s'" "curr_tick s' < curr_tick s''"
    then show "?R s''" by (auto simp: on_grid_def intro: order_trans)
  qed (use on_grid_fired [OF u p] in blast)
  then obtain s1 j where s1: "sys_clock_announce user n s = Some (reprogram_next dlist_ops 0 (s1\<lparr>announcing_cpu := - 1\<rparr>))"
    "tick_inv s1" "on_grid m first p j s1" "curr_tick s1 = curr_tick s + n" "curr_tick s1 \<notin> ran (texp s1)" by blast
  note k = tick_kernel_ok [OF s1(2,5)]
  have "on_grid m first p j (reprogram_next dlist_ops 0 (s1\<lparr>announcing_cpu := - 1\<rparr>))"
    using s1(3) unfolding on_grid_def k(5-7) .
  with s1(1,4) k(1,7) show ?thesis by auto
qed

lemma on_grid_count:
  assumes k: "kernel_ok s" and g: "on_grid m first p j s" and p: "0 < p"
  shows "j = (if curr_tick s < first then 0 else (curr_tick s - first) div p + 1)" "k_timer_expires_ticks m s = first + j * p"
proof -
  note g = g [unfolded on_grid_def]
  have i: "dl_inv (curr_tick s) (tq s)" using k sinvD(12) by (auto simp: kernel_ok_def sched_ok_def)
  have x: "dl_expiry (curr_tick s) (tq s) (TimerTimeout m) = Some (first + j * p)" using g by (simp add: texp_def)
  then have "curr_tick s \<le> first + j * p" by (intro dlt.exp_due [OF i]) (simp add: ran_def, blast)
  moreover have "curr_tick s \<noteq> first + j * p" using g k by (auto simp: kernel_ok_def ran_def)
  ultimately have lt: "curr_tick s < first + j * p" by simp
  show "j = (if curr_tick s < first then 0 else (curr_tick s - first) div p + 1)"
  proof (cases "j = 0")
    case False
    then have ge: "first + (j - 1) * p \<le> curr_tick s" "0 \<le> (j - 1) * p" using g p by simp_all
    have "(curr_tick s - first) div p = j - 1"
      using ge lt by (intro int_div_pos_eq [where r = "curr_tick s - first - (j - 1) * p"]) (simp_all add: algebra_simps)
    with ge show ?thesis by simp
  qed (use lt in simp)
  show "k_timer_expires_ticks m s = first + j * p"
    using x dlt.remainder [OF i x] dlt.exp_inactive [OF i, of "TimerTimeout m"]
    by (simp add: k_timer_expires_ticks_def z_timeout_expires_def dom_def del: dl_expiry_dom)
qed

text \<open>
  C15: Timers do not drift.  After \<^verbatim>\<open>k_timer_start\<close> with duration \<open>d\<close> and period \<open>p\<close>, the timer first expires \<open>d\<close> full
  ticks from now (at the first tick edge that is no earlier) and then every \<open>p\<close> ticks, however late
  the clock announces: once \<open>n\<close> ticks have been announced in one interrupt, its status counts each expiry up to now
  and its next expiry is the next point of the grid.
\<close>

theorem timer_keeps_stride:
  assumes s: "kernel_ok s" and d: "0 \<le> d" "0 < p" "p < 2 ^ 62" and u: "callback_ok user" "leaves_timer m user"
    and n: "0 \<le> n" "n < 2 ^ 32" "curr_tick s + n < 2 ^ 62"
    and first: "first = curr_tick s + elapsed s + d + 1" "first < 2 ^ 63"
    and k: "k = (if curr_tick s + n < first then 0 else (curr_tick s + n - first) div p + 1)"
  shows "\<exists>s'. sys_clock_announce user n ((k_timer_start m d p s)\<lparr>in_isr := True\<rparr>) = Some s' \<and> kernel_ok s' \<and>
    timer_status (timer_of m s') = u32 k \<and> k_timer_expires_ticks m s' = first + k * p"
proof -
  let ?s = "(k_timer_start m d p s)\<lparr>in_isr := True\<rparr>"
  have f: "curr_tick s + d + elapsed s + 1 = first" "curr_tick s + d + elapsed s + 1 < 2 ^ 63" using first by simp_all
  have p: "- 1 \<le> p" using d(2) by simp
  note r = timer_start_rule [OF s d(1) f(2) p d(3), of m, unfolded f(1)]
  have "on_grid m first p 0 ?s" using r(2,3) by (simp add: on_grid_def u32_def)
  from on_grid_announce [OF kernel_ok_isr [OF r(1)] _ u d(2) this n(1,2)] r(5) n(3) obtain s' j where
    s': "sys_clock_announce user n ?s = Some s'" "kernel_ok s'" "curr_tick s' = curr_tick s + n" "on_grid m first p j s'" by auto
  note c = on_grid_count [OF s'(2,4) d(2), unfolded s'(3)]
  from c(1) have "j = k" unfolding k .
  with s' c(2) show ?thesis by (auto simp: on_grid_def)
qed


lemma app_kernel_ok: "kernel_ok app" "curr_tick app = 0" "elapsed app = 0"
proof -
  have q: "tq app = []" and c: "curr_tick app = 0" "announcing_cpu app = - 1" "elapsed app = 0" by code_simp+
  show "curr_tick app = 0" "elapsed app = 0" by (rule c)+
  have "timers_ok app" by (simp add: timers_ok_def init_objs_def texp_def dl_expiry_def q armed_def)
  moreover have "curr_tick app \<notin> ran (texp app)" by (simp add: texp_def dl_expiry_def q ran_def)
  ultimately show "kernel_ok app" using app_ok app_flags c by (simp add: kernel_ok_def)
qed

theorem timer_keeps_stride_witness:
  "\<exists>s'. sys_clock_announce give_sem 25 ((k_timer_start 0 4 10 app)\<lparr>in_isr := True\<rparr>) = Some s' \<and>
     timer_status (timer_of 0 s') = 3 \<and> k_timer_expires_ticks 0 s' = 35"
  using timer_keeps_stride [OF app_kernel_ok(1) _ _ _ give_sem_ok, of 4 10 25 5 3 0] app_kernel_ok(2,3)
  by (auto simp: u32_def)

end
