(* ===== verification/Spec2Isabelle.thy ===== *)
theory Spec2Isabelle
  imports Sys_Dlist Sched_Props Sem Mutex Msgq Stack Mem_Slab Queue Events Mutex_Props Priority_Mq Tick
begin

text \<open>
  Verification of the core of the Zephyr RTOS kernel.
\<close>

end
